(* ===== verification/Prelude.thy ===== *)
theory Prelude
  imports Main "HOL-Library.Word" "HOL-Library.Multiset"
begin

text \<open>
  Shared vocabulary of the development: bytes and machine words, faults and results (every
  Rust panic, out-of-bounds access and unbounded loop is a value), the combinators the
  models are written with, and the generic facts on lists, cursors and little-endian
  encodings that every component uses.
\<close>

section \<open>Machine types\<close>

type_synonym byte = "8 word"
type_synonym u64 = "64 word"
type_synonym bytes = "byte list"

text \<open>The ASCII bytes the parsers look at.\<close>

abbreviation QUOTE :: byte where "QUOTE \<equiv> 0x22"
abbreviation BACKSLASH :: byte where "BACKSLASH \<equiv> 0x5C"
abbreviation LBRACE :: byte where "LBRACE \<equiv> 0x7B"
abbreviation RBRACE :: byte where "RBRACE \<equiv> 0x7D"
abbreviation LBRACKET :: byte where "LBRACKET \<equiv> 0x5B"
abbreviation RBRACKET :: byte where "RBRACKET \<equiv> 0x5D"
abbreviation COMMA :: byte where "COMMA \<equiv> 0x2C"
abbreviation COLON :: byte where "COLON \<equiv> 0x3A"
abbreviation MINUS :: byte where "MINUS \<equiv> 0x2D"
abbreviation PLUS :: byte where "PLUS \<equiv> 0x2B"
abbreviation DOT :: byte where "DOT \<equiv> 0x2E"
abbreviation SLASH :: byte where "SLASH \<equiv> 0x2F"
abbreviation SPACE :: byte where "SPACE \<equiv> 0x20"

section \<open>Faults and results\<close>

text \<open>
  \<open>Panic\<close> is a Rust panic (an \<open>expect\<close>, an \<open>assert\<close>, a bounds check, an arithmetic
  overflow check), with a tag that names it. \<open>Ub\<close> is undefined behaviour of \<open>unsafe\<close>
  code or of JIT-compiled code: an access outside the input, an allocation of size zero.
  \<open>OutOfFuel\<close> is a loop or a recursion that has not ended within the given number of
  steps; a program run that yields it for every fuel does not end.
\<close>

datatype fault = Panic string | Ub string | OutOfFuel

type_synonym 'a res = "fault + 'a"

definition bindR :: "'a res \<Rightarrow> ('a \<Rightarrow> 'b res) \<Rightarrow> 'b res" where
  "bindR m f = (case m of Inl e \<Rightarrow> Inl e | Inr x \<Rightarrow> f x)"

text \<open>\<open>Option::expect\<close> and slice indexing with its bounds check.\<close>

definition expect :: "'a option \<Rightarrow> string \<Rightarrow> 'a res" where
  "expect opt msg = (case opt of None \<Rightarrow> Inl (Panic msg) | Some x \<Rightarrow> Inr x)"

definition idx :: "'a list \<Rightarrow> nat \<Rightarrow> 'a res" where
  "idx xs i = (if i < length xs then Inr (xs ! i) else Inl (Panic ''index out of bounds''))"

fun map_res :: "('a \<Rightarrow> 'b res) \<Rightarrow> 'a list \<Rightarrow> 'b list res" where
  "map_res f [] = Inr []"
| "map_res f (x # xs) = bindR (f x) (\<lambda>y. bindR (map_res f xs) (\<lambda>ys. Inr (y # ys)))"

fun fold_res :: "('a \<Rightarrow> 's \<Rightarrow> 's res) \<Rightarrow> 'a list \<Rightarrow> 's \<Rightarrow> 's res" where
  "fold_res f [] s = Inr s"
| "fold_res f (x # xs) s = bindR (f x s) (fold_res f xs)"

lemma bindR_Inl [simp]: "bindR (Inl e) f = Inl e"
  by (simp add: bindR_def)

lemma bindR_Inr [simp]: "bindR (Inr x) f = f x"
  by (simp add: bindR_def)

lemma bindR_eq_Inr: "bindR m f = Inr y \<longleftrightarrow> (\<exists>x. m = Inr x \<and> f x = Inr y)"
  by (cases m) auto

lemma bindR_eq_Inl: "bindR m f = Inl e \<longleftrightarrow> m = Inl e \<or> (\<exists>x. m = Inr x \<and> f x = Inl e)"
  by (cases m) auto

lemma bindR_cong [fundef_cong]:
  "m = m' \<Longrightarrow> (\<And>x. m' = Inr x \<Longrightarrow> f x = f' x) \<Longrightarrow> bindR m f = bindR m' f'"
  by (cases m') auto

lemma bindR_assoc: "bindR (bindR m f) g = bindR m (\<lambda>x. bindR (f x) g)"
  by (cases m) auto

lemma expect_simps [simp]:
  "expect (Some x) msg = Inr x"
  "expect None msg = Inl (Panic msg)"
  by (simp_all add: expect_def)

lemma idx_less [simp]: "i < length xs \<Longrightarrow> idx xs i = Inr (xs ! i)"
  by (simp add: idx_def)

lemma fold_res_append: "fold_res f (xs @ ys) s = bindR (fold_res f xs s) (fold_res f ys)"
  by (induction xs arbitrary: s) (auto simp: bindR_def split: sum.splits)

section \<open>Runs with fuel\<close>

text \<open>
  \<open>returns f x\<close>: with enough fuel the run \<open>f\<close> ends, and its result is \<open>x\<close> from then on.
  \<open>returns2\<close> is the same for a loop that has a fuel of its own beside the fuel of the
  function it calls. \<open>diverges f\<close>: no amount of fuel lets the run end.
\<close>

definition returns :: "(nat \<Rightarrow> 'a res) \<Rightarrow> 'a \<Rightarrow> bool" where
  "returns f x \<longleftrightarrow> (\<exists>N. \<forall>n \<ge> N. f n = Inr x)"

definition returns2 :: "(nat \<Rightarrow> nat \<Rightarrow> 'a res) \<Rightarrow> 'a \<Rightarrow> bool" where
  "returns2 f x \<longleftrightarrow> (\<exists>N. \<forall>k \<ge> N. \<forall>n \<ge> N. f k n = Inr x)"

definition diverges :: "(nat \<Rightarrow> 'a res) \<Rightarrow> bool" where
  "diverges f \<longleftrightarrow> (\<forall>n. f n = Inl OutOfFuel)"

lemma returnsI: "(\<And>n. N \<le> n \<Longrightarrow> f n = Inr x) \<Longrightarrow> returns f x"
  by (auto simp: returns_def)

lemma returns_const [simp, intro]: "returns (\<lambda>_. Inr x) x"
  by (simp add: returns_def)

lemma returns_bind:
  assumes "returns f x" and "returns (g x) y"
  shows "returns (\<lambda>n. bindR (f n) (\<lambda>x. g x n)) y"
proof -
  obtain M N where "\<forall>n \<ge> M. f n = Inr x" "\<forall>n \<ge> N. g x n = Inr y"
    using assms by (auto simp: returns_def)
  then have "\<forall>n \<ge> max M N. bindR (f n) (\<lambda>x. g x n) = Inr y" by simp
  then show ?thesis unfolding returns_def by blast
qed

lemma returns_Suc: "returns (\<lambda>n. f (Suc n)) x \<Longrightarrow> returns f x"
  unfolding returns_def by (metis Suc_le_D Suc_le_mono)

lemma returns_unique: "returns f x \<Longrightarrow> returns f y \<Longrightarrow> x = y"
  unfolding returns_def by (metis Inr_inject nle_le)

lemma returns_const_iff [simp]: "returns (\<lambda>_. Inr x) y \<longleftrightarrow> y = x"
  using returns_const returns_unique by metis

lemma returns_not_diverges: "returns f x \<Longrightarrow> \<not> diverges f"
  unfolding returns_def diverges_def by (metis Inl_Inr_False order_refl)

lemma returns2_const [simp, intro]: "returns2 (\<lambda>_ _. Inr x) x"
  by (simp add: returns2_def)

lemma returns2_lift: "returns f x \<Longrightarrow> returns2 (\<lambda>_ n. f n) x"
  by (auto simp: returns_def returns2_def)

lemma returns2_bind:
  assumes "returns2 f x" and "returns2 (g x) y"
  shows "returns2 (\<lambda>k n. bindR (f k n) (\<lambda>x. g x k n)) y"
proof -
  obtain M N where "\<forall>k \<ge> M. \<forall>n \<ge> M. f k n = Inr x" "\<forall>k \<ge> N. \<forall>n \<ge> N. g x k n = Inr y"
    using assms by (auto simp: returns2_def)
  then have "\<forall>k \<ge> max M N. \<forall>n \<ge> max M N. bindR (f k n) (\<lambda>x. g x k n) = Inr y" by simp
  then show ?thesis unfolding returns2_def by blast
qed

lemma returns2_Suc: "returns2 (\<lambda>k n. f (Suc k) n) x \<Longrightarrow> returns2 f x"
  unfolding returns2_def by (metis Suc_leD Suc_le_D Suc_le_mono)

lemma returns2_diag: "returns2 f x \<Longrightarrow> returns (\<lambda>n. f n n) x"
  by (auto simp: returns_def returns2_def)

section \<open>Cursors into a byte list\<close>

text \<open>
  A parser's position is an index; what it will read is \<open>drop i b\<close>. These facts turn the
  one view into the other.
\<close>

lemma drop_ConsD:
  assumes "drop i b = x # xs"
  shows "i < length b" and "b ! i = x" and "drop (Suc i) b = xs"
proof -
  show "i < length b"
  proof (rule ccontr)
    assume "\<not> i < length b"
    then show False using assms by simp
  qed
  then have "drop i b = b ! i # drop (Suc i) b" by (rule Cons_nth_drop_Suc [symmetric])
  with assms show "b ! i = x" "drop (Suc i) b = xs" by simp_all
qed

lemma drop_appendD: "drop i b = xs @ ys \<Longrightarrow> drop (i + length xs) b = ys"
  by (metis add.commute append_eq_conv_conj drop_drop)

lemma drop_Suc_appendD: "drop i b = c # xs @ ys \<Longrightarrow> drop (Suc (i + length xs)) b = ys"
  using drop_appendD [of i b "c # xs" ys] by simp

lemma drop_append_le: "drop i b = xs @ ys \<Longrightarrow> xs \<noteq> [] \<Longrightarrow> i + length (xs @ ys) = length b"
  by (metis drop_eq_Nil append_is_Nil_conv le_add_diff_inverse length_drop nat_le_linear)

section \<open>Little-endian encodings\<close>

fun le_bytes :: "nat \<Rightarrow> nat \<Rightarrow> bytes" where
  "le_bytes 0 k = []"
| "le_bytes (Suc n) k = word_of_nat k # le_bytes n (k div 256)"

fun le_val :: "bytes \<Rightarrow> nat" where
  "le_val [] = 0"
| "le_val (b # bs) = unat b + 256 * le_val bs"

lemma length_le_bytes [simp]: "length (le_bytes n k) = n"
  by (induction n arbitrary: k) auto

lemma unat_byte_lt [simp]: "unat (b :: byte) < 256"
proof -
  have "unat b < 2 ^ LENGTH(8)" by (rule unsigned_less)
  then show ?thesis by simp
qed

lemma unat_of_nat_byte [simp]: "unat (word_of_nat k :: byte) = k mod 256"
  by (simp add: unat_of_nat)

lemma le_val_lt: "le_val bs < 256 ^ length bs"
proof (induction bs)
  case (Cons b bs)
  have "unat b + 256 * le_val bs < 256 + 256 * le_val bs" by simp
  also have "\<dots> \<le> 256 * 256 ^ length bs" using Cons.IH by (simp flip: mult_Suc_right)
  finally show ?case by simp
qed simp

lemma le_val_le_bytes: "le_val (le_bytes n k) = k mod 256 ^ n"
proof (induction n arbitrary: k)
  case (Suc n)
  have "k mod 256 + 256 * (k div 256 mod 256 ^ n) = k mod (256 * 256 ^ n)"
    by (simp add: mod_mult2_eq add.commute)
  then show ?case using Suc.IH by simp
qed simp

lemma le_bytes_le_val: "le_bytes (length bs) (le_val bs) = bs"
proof (induction bs)
  case (Cons b bs)
  have "(unat b + 256 * le_val bs) div 256 = le_val bs"
    using unat_byte_lt [of b] by simp
  moreover have "word_of_nat (unat b + 256 * le_val bs) = b"
    by (simp add: word_unat_eq_iff unat_of_nat del: of_nat_add of_nat_mult)
  ultimately show ?case using Cons.IH by simp
qed simp

lemma le_bytes_mod: "le_bytes n (k mod 256 ^ n) = le_bytes n k"
  using le_bytes_le_val [of "le_bytes n k"] by (simp add: le_val_le_bytes)

lemma le_bytes_inj: "le_bytes n j = le_bytes n k \<Longrightarrow> j < 256 ^ n \<Longrightarrow> k < 256 ^ n \<Longrightarrow> j = k"
  by (metis le_val_le_bytes mod_less)

lemma le_val_inj: "length xs = length ys \<Longrightarrow> le_val xs = le_val ys \<Longrightarrow> xs = ys"
  by (metis le_bytes_le_val)

lemma le_val_append: "le_val (xs @ ys) = le_val xs + 256 ^ length xs * le_val ys"
  by (induction xs) (auto simp: algebra_simps)

lemma le_bytes_take: "n \<le> m \<Longrightarrow> take n (le_bytes m k) = le_bytes n k"
  by (induction m arbitrary: n k; case_tac n) auto

end
