(* ===== verification/Plan.thy ===== *)
theory Plan
  imports Prelude
begin

text \<open>
  The layout artifact of \<^verbatim>\<open>crates/bilbo/src/plan.rs\<close>: \<open>ty\<close> is the enum \<^verbatim>\<open>Ty\<close>, with the
  constructors and arguments in the order of the source; offsets, sizes and discriminants
  are naturals (\<^verbatim>\<open>usize\<close>, \<^verbatim>\<open>u64\<close>, \<^verbatim>\<open>u128\<close> values that the code only passes on). A
  \<^verbatim>\<open>RecCell\<close> is a write-once cell shared by reference: here a cell number into a
  \<open>cell_store\<close>, whose body is set at most once.
\<close>

section \<open>Layouts\<close>

record seq_layout =
  ptr_off :: nat
  cap_off :: nat
  len_off :: nat

type_synonym cell_id = nat

datatype ty =
    TBool
  | TChar
  | TU nat
  | TI nat
  | TF32
  | TF64
  | TStruct bytes "field list"
  | TTuple "field list"
  | TStr seq_layout
  | TVec ty nat nat seq_layout
  | TStrRef nat nat
  | TUnit
  | TBoxed ty nat nat
  | TOpt nat nat nat "nat option" nat nat ty
  | TMap ty nat ty nat nat nat
  | TRef cell_id
  | TUnknown string
and field = Field (f_name: bytes) (f_offset: nat) (f_ty: ty)

text \<open>ASCII literals as the UTF-8 bytes of a Rust \<^verbatim>\<open>str\<close>.\<close>

definition ascii :: "string \<Rightarrow> bytes" where
  "ascii s = map of_char s"

lemma size_f_ty [termination_simp]: "f \<in> set fs \<Longrightarrow> size (f_ty f) < Suc (size_list size fs)"
proof (induction fs)
  case (Cons g fs)
  then show ?case by (cases g) auto
qed simp

section \<open>Write-once cells\<close>

text \<open>
  \<^verbatim>\<open>RecCell::new\<close> allocates an empty cell, \<^verbatim>\<open>OnceLock::set\<close> fills it unless it is already
  full, \<^verbatim>\<open>RecCell::get\<close> reads it and panics when the knot was never tied.
\<close>

record cell_store =
  next_cell :: cell_id
  cell_body :: "cell_id \<rightharpoonup> ty"

definition no_cells :: cell_store where
  "no_cells = \<lparr>next_cell = 0, cell_body = Map.empty\<rparr>"

definition cell_new :: "cell_store \<Rightarrow> cell_id \<times> cell_store" where
  "cell_new s = (next_cell s, s\<lparr>next_cell := Suc (next_cell s)\<rparr>)"

definition cell_set :: "cell_id \<Rightarrow> ty \<Rightarrow> cell_store \<Rightarrow> cell_store" where
  "cell_set c t s = (case cell_body s c of
      None \<Rightarrow> s\<lparr>cell_body := (cell_body s)(c \<mapsto> t)\<rparr>
    | Some _ \<Rightarrow> s)"

definition cell_get :: "(cell_id \<rightharpoonup> ty) \<Rightarrow> cell_id \<Rightarrow> ty res" where
  "cell_get C c = expect (C c) ''recursive Ty cell not set''"

lemma cell_get_Some [simp]: "C c = Some t \<Longrightarrow> cell_get C c = Inr t"
  by (simp add: cell_get_def)

lemma cell_get_Inr: "cell_get C c = Inr t \<longleftrightarrow> C c = Some t"
  by (cases "C c") (simp_all add: cell_get_def)

text \<open>The type stored in a field and the types directly inside a type, without following cells.\<close>

fun sub_tys :: "ty \<Rightarrow> ty list" where
  "sub_tys (TStruct _ fs) = map f_ty fs"
| "sub_tys (TTuple fs) = map f_ty fs"
| "sub_tys (TVec t _ _ _) = [t]"
| "sub_tys (TBoxed t _ _) = [t]"
| "sub_tys (TOpt _ _ _ _ _ _ t) = [t]"
| "sub_tys (TMap k _ v _ _ _) = [k, v]"
| "sub_tys _ = []"

lemma size_sub_tys: "s \<in> set (sub_tys t) \<Longrightarrow> size s < size t"
  by (cases t rule: sub_tys.cases) (auto dest: size_f_ty)

text \<open>
  Cells a type mentions: the \<^verbatim>\<open>Ty::Ref\<close> occurrences inside it. This is what the strong
  count of a cell's \<^verbatim>\<open>Arc\<close> counts besides the two local handles of \<^verbatim>\<open>classify\<close>.
\<close>

function ty_cells :: "ty \<Rightarrow> cell_id list" where
  "ty_cells t = (case t of TRef c \<Rightarrow> [c] | _ \<Rightarrow> concat (map ty_cells (sub_tys t)))"
  by pat_completeness auto
termination
  by (relation "measure size") (auto simp: size_f_ty split: ty.splits)

declare ty_cells.simps [simp del]

section \<open>Reachable cells\<close>

definition cell_edges :: "(cell_id \<rightharpoonup> ty) \<Rightarrow> (cell_id \<times> cell_id) set" where
  "cell_edges C = {(c, d). \<exists>t. C c = Some t \<and> d \<in> set (ty_cells t)}"

definition reachable :: "(cell_id \<rightharpoonup> ty) \<Rightarrow> cell_id set \<Rightarrow> cell_id set" where
  "reachable C X = (cell_edges C)\<^sup>* `` X"

text \<open>Every cell that is mentioned has a body: what \<^verbatim>\<open>classify\<close> leaves behind.\<close>

definition closed :: "(cell_id \<rightharpoonup> ty) \<Rightarrow> ty \<Rightarrow> bool" where
  "closed C t \<longleftrightarrow> finite (dom C) \<and> set (ty_cells t) \<subseteq> dom C
     \<and> (\<forall>c b. C c = Some b \<longrightarrow> set (ty_cells b) \<subseteq> dom C)"

lemma ty_cells_eq: "(\<nexists>c. t = TRef c) \<Longrightarrow> set (ty_cells t) = (\<Union>s \<in> set (sub_tys t). set (ty_cells s))"
  by (subst ty_cells.simps) (auto split: ty.splits)

lemma ty_cells_sub: "s \<in> set (sub_tys t) \<Longrightarrow> set (ty_cells s) \<subseteq> set (ty_cells t)"
  using ty_cells_eq [of t] by (cases t) auto

lemma ty_cells_ref [simp]: "ty_cells (TRef c) = [c]"
  by (simp add: ty_cells.simps)

end
