(* ===== verification/Die.thy ===== *)
theory Die
  imports Plan
begin

text \<open>
  The parsed debug information, \<^verbatim>\<open>crates/bilbo/src/dwarf.rs\<close>: what the crate gimli hands out (trees
  of debugging entries with attributes) is data here, and the low-level helpers over it are the
  functions of the source. Helpers that follow references from entry to entry take fuel, one unit
  per reference: nothing in the source keeps them from running in circles.
\<close>

section \<open>Debugging entries\<close>

datatype dtag =
    DW_TAG_base_type
  | DW_TAG_pointer_type
  | DW_TAG_structure_type
  | DW_TAG_union_type
  | DW_TAG_enumeration_type
  | DW_TAG_typedef
  | DW_TAG_const_type
  | DW_TAG_volatile_type
  | DW_TAG_restrict_type
  | DW_TAG_subprogram
  | DW_TAG_lexical_block
  | DW_TAG_inlined_subroutine
  | DW_TAG_variable
  | DW_TAG_formal_parameter
  | DW_TAG_member
  | DW_TAG_variant_part
  | DW_TAG_variant
  | DW_TAG_template_type_parameter
  | DW_TAG_other nat

datatype dattr =
    DW_AT_abstract_origin
  | DW_AT_specification
  | DW_AT_name
  | DW_AT_type
  | DW_AT_frame_base
  | DW_AT_location
  | DW_AT_declaration
  | DW_AT_byte_size
  | DW_AT_alignment
  | DW_AT_encoding
  | DW_AT_data_member_location
  | DW_AT_low_pc
  | DW_AT_discr
  | DW_AT_discr_value

text \<open>
  Attribute values. \<open>Data\<close> stands for the fixed-size constant forms that gimli leaves unsigned,
  \<open>StrVal\<close> for every string form, already looked up, \<open>Loclist\<close> for the entries of a location list.
\<close>

datatype aval =
    UnitRef nat
  | Udata nat
  | Sdata int
  | Data nat
  | Flag bool
  | Encoding nat
  | StrVal bytes
  | Exprloc bytes
  | Loclist "(u64 \<times> u64 \<times> bytes) list"
  | Addr u64
  | OtherVal

text \<open>An entry with the machine-code ranges gimli computes for it; a compilation unit is its root entry.\<close>

datatype die = Die (d_off: nat) (d_tag: dtag) (d_attrs: "(dattr \<times> aval) list") (d_ranges: "(u64 \<times> u64) list")
  (d_kids: "die list")

type_synonym dunit = die

lemma size_d_kids [termination_simp]: "k \<in> set (d_kids d) \<Longrightarrow> size k < size d"
proof (cases d)
  case (Die x1 x2 x3 x4 ks)
  have "k \<in> set ks \<Longrightarrow> size k < Suc (size_list size ks)" for ks :: "die list"
    by (induction ks) auto
  moreover assume "k \<in> set (d_kids d)"
  ultimately show ?thesis using Die by simp
qed

text \<open>The entries in depth-first order, with their depth.\<close>

function dfs_depth :: "nat \<Rightarrow> die \<Rightarrow> (nat \<times> die) list" where
  "dfs_depth k d = (k, d) # concat (map (dfs_depth (Suc k)) (d_kids d))"
  by pat_completeness auto
termination
  by (relation "measure (\<lambda>(k, d). size d)") (auto simp: size_d_kids)

declare dfs_depth.simps [simp del]

definition dfs :: "dunit \<Rightarrow> die list" where
  "dfs u = map snd (dfs_depth 0 u)"

section \<open>Low-level helpers\<close>

definition entry :: "dunit \<Rightarrow> nat \<Rightarrow> die option" where
  "entry u off = find (\<lambda>d. d_off d = off) (dfs u)"

definition attr_value :: "die \<Rightarrow> dattr \<Rightarrow> aval option" where
  "attr_value d at = map_of (d_attrs d) at"

definition attr_of :: "dunit \<Rightarrow> nat \<Rightarrow> dattr \<Rightarrow> aval option" where
  "attr_of u off at = Option.bind (entry u off) (\<lambda>d. attr_value d at)"

definition child_offsets :: "dunit \<Rightarrow> nat \<Rightarrow> nat list res" where
  "child_offsets u parent = bindR (expect (entry u parent) ''entries_tree'') (\<lambda>d. Inr (map d_off (d_kids d)))"

definition origin :: "dunit \<Rightarrow> nat \<Rightarrow> nat option" where
  "origin u off =
     Option.bind (entry u off) (\<lambda>d.
     Option.bind (case attr_value d DW_AT_abstract_origin of Some v \<Rightarrow> Some v | None \<Rightarrow> attr_value d DW_AT_specification)
       (\<lambda>v. case v of UnitRef off' \<Rightarrow> Some off' | _ \<Rightarrow> None))"

definition attr_string :: "aval \<Rightarrow> bytes option" where
  "attr_string v = (case v of StrVal s \<Rightarrow> Some s | _ \<Rightarrow> None)"

fun die_name :: "nat \<Rightarrow> dunit \<Rightarrow> nat \<Rightarrow> bytes option res" where
  "die_name 0 u off = Inl OutOfFuel"
| "die_name (Suc n) u off =
     (case entry u off of
        None \<Rightarrow> Inr None
      | Some d \<Rightarrow>
          (case attr_value d DW_AT_name of
             Some v \<Rightarrow> Inr (attr_string v)
           | None \<Rightarrow> (case origin u off of None \<Rightarrow> Inr None | Some off' \<Rightarrow> die_name n u off')))"

definition tag :: "dunit \<Rightarrow> nat \<Rightarrow> dtag res" where
  "tag u off = bindR (expect (entry u off) ''entry'') (\<lambda>d. Inr (d_tag d))"

text \<open>\<open>Sdata\<close> is reinterpreted as a \<^verbatim>\<open>u64\<close>.\<close>

definition udata :: "dunit \<Rightarrow> nat \<Rightarrow> dattr \<Rightarrow> nat option" where
  "udata u off at = (case attr_of u off at of
      Some (Udata k) \<Rightarrow> Some k
    | Some (Sdata k) \<Rightarrow> Some (nat (k mod 2 ^ 64))
    | _ \<Rightarrow> None)"

definition attr_udata :: "dunit \<Rightarrow> nat \<Rightarrow> dattr \<Rightarrow> nat option" where
  "attr_udata u off at = (case attr_of u off at of
      Some (Udata k) \<Rightarrow> Some k
    | Some (Data k) \<Rightarrow> Some k
    | Some (Sdata k) \<Rightarrow> if k < 0 then None else Some (nat k)
    | _ \<Rightarrow> None)"

fun type_ref :: "nat \<Rightarrow> dunit \<Rightarrow> nat \<Rightarrow> nat option res" where
  "type_ref 0 u off = Inl OutOfFuel"
| "type_ref (Suc n) u off =
     (case entry u off of
        None \<Rightarrow> Inr None
      | Some d \<Rightarrow>
          (case attr_value d DW_AT_type of
             Some (UnitRef off') \<Rightarrow> Inr (Some off')
           | _ \<Rightarrow> (case origin u off of None \<Rightarrow> Inr None | Some off' \<Rightarrow> type_ref n u off')))"

text \<open>\<^verbatim>\<open>unwrap_or_default\<close> on a name, \<^verbatim>\<open>starts_with\<close>.\<close>

definition name_or_empty :: "nat \<Rightarrow> dunit \<Rightarrow> nat \<Rightarrow> bytes res" where
  "name_or_empty n u off = bindR (die_name n u off) (\<lambda>nm. Inr (case nm of Some s \<Rightarrow> s | None \<Rightarrow> []))"

definition starts_with :: "bytes \<Rightarrow> bytes \<Rightarrow> bool" where
  "starts_with s pre \<longleftrightarrow> take (length pre) s = pre"

fun strip :: "nat \<Rightarrow> dunit \<Rightarrow> nat \<Rightarrow> nat res" where
  "strip 0 u off = Inl OutOfFuel"
| "strip (Suc n) u off =
     bindR (tag u off) (\<lambda>t.
       if t \<in> {DW_TAG_typedef, DW_TAG_const_type, DW_TAG_volatile_type, DW_TAG_restrict_type}
       then bindR (type_ref n u off) (\<lambda>ty. case ty of Some inner \<Rightarrow> strip n u inner | None \<Rightarrow> Inr off)
       else Inr off)"

text \<open>\<^verbatim>\<open>child_with_tag\<close>, and the template parameters.\<close>

fun find_res :: "('a \<Rightarrow> bool res) \<Rightarrow> 'a list \<Rightarrow> 'a option res" where
  "find_res p [] = Inr None"
| "find_res p (x # xs) = bindR (p x) (\<lambda>b. if b then Inr (Some x) else find_res p xs)"

definition child_with_tag :: "dunit \<Rightarrow> nat \<Rightarrow> dtag \<Rightarrow> nat option res" where
  "child_with_tag u off t =
     bindR (child_offsets u off) (find_res (\<lambda>c. bindR (tag u c) (\<lambda>t'. Inr (t' = t))))"

definition template_param :: "nat \<Rightarrow> dunit \<Rightarrow> nat \<Rightarrow> nat option res" where
  "template_param n u off =
     bindR (child_with_tag u off DW_TAG_template_type_parameter) (\<lambda>c.
       case c of Some c \<Rightarrow> type_ref n u c | None \<Rightarrow> Inr None)"

definition template_named :: "nat \<Rightarrow> dunit \<Rightarrow> nat \<Rightarrow> bytes \<Rightarrow> nat option res" where
  "template_named n u off want =
     bindR (child_offsets u off) (\<lambda>cs.
     bindR (find_res (\<lambda>c. bindR (tag u c) (\<lambda>t.
         if t = DW_TAG_template_type_parameter then bindR (die_name n u c) (\<lambda>nm. Inr (nm = Some want))
         else Inr False)) cs) (\<lambda>c.
       case c of Some c \<Rightarrow> type_ref n u c | None \<Rightarrow> Inr None))"

section \<open>The store\<close>

text \<open>The units, in the order of the debug section.\<close>

type_synonym dstore = "dunit list"

text \<open>The subprogram whose machine code contains \<open>pc\<close>: unit index and offset.\<close>

definition in_ranges :: "u64 \<Rightarrow> die \<Rightarrow> bool" where
  "in_ranges pc d \<longleftrightarrow> (\<exists>(lo, hi) \<in> set (d_ranges d). lo \<le> pc \<and> pc < hi)"

fun subprogram_from :: "nat \<Rightarrow> dstore \<Rightarrow> u64 \<Rightarrow> (nat \<times> nat) option" where
  "subprogram_from ui [] pc = None"
| "subprogram_from ui (u # us) pc =
     (case find (\<lambda>d. d_tag d = DW_TAG_subprogram \<and> in_ranges pc d) (dfs u) of
        Some d \<Rightarrow> Some (ui, d_off d)
      | None \<Rightarrow> subprogram_from (Suc ui) us pc)"

definition subprogram_at :: "dstore \<Rightarrow> u64 \<Rightarrow> (nat \<times> nat) option" where
  "subprogram_at st pc = subprogram_from 0 st pc"

end
