(* ===== verification/Locals.thy ===== *)
theory Locals
  imports Die
begin

unbundle bit_operations_syntax

text \<open>
  Which local of the caller does the pointer alias: location expressions (\<^verbatim>\<open>sleb128\<close>,
  \<^verbatim>\<open>eval_addr\<close>, \<^verbatim>\<open>var_location\<close>) and the walk over the subprogram's locals (\<^verbatim>\<open>Hunt\<close>) of
  \<^verbatim>\<open>crates/bilbo/src/dwarf.rs\<close>, with the register opcodes of the two platforms.
  The list of locals seen, which only the log reads, is left out.
\<close>

section \<open>Platforms\<close>

record dwarf_regs =
  OP_REG_FP :: byte
  OP_BREG_FP :: byte
  OP_BREG_SP :: byte

definition linux_regs :: dwarf_regs where
  "linux_regs = \<lparr>OP_REG_FP = 0x56, OP_BREG_FP = 0x76, OP_BREG_SP = 0x77\<rparr>"

definition darwin_regs :: dwarf_regs where
  "darwin_regs = \<lparr>OP_REG_FP = 0x6D, OP_BREG_FP = 0x8D, OP_BREG_SP = 0x8F\<rparr>"

section \<open>Location expressions\<close>

text \<open>
  \<^verbatim>\<open>sleb128\<close> on 64-bit registers; \<open>i\<close> is the index of the next byte. Reading past the slice and
  shifting by 64 or more panic.
\<close>

definition shl64 :: "u64 \<Rightarrow> nat \<Rightarrow> u64 res" where
  "shl64 v k = (if k < 64 then Inr (push_bit k v) else Inl (Panic ''attempt to shift left with overflow''))"

function sleb_loop :: "bytes \<Rightarrow> u64 \<Rightarrow> nat \<Rightarrow> nat \<Rightarrow> (u64 \<times> nat) res" where
  "sleb_loop b result shift i =
     (if i < length b then
        bindR (shl64 (ucast (b ! i AND 0x7F)) shift) (\<lambda>x.
        let result = result OR x;
            shift = shift + 7 in
        if b ! i AND 0x80 = 0 then
          (if shift < 64 \<and> b ! i AND 0x40 \<noteq> 0
           then bindR (shl64 (- 1) shift) (\<lambda>y. Inr (result OR y, i + 1))
           else Inr (result, i + 1))
        else sleb_loop b result shift (i + 1))
      else Inl (Panic ''index out of bounds''))"
  by pat_completeness auto
termination
  by (relation "measure (\<lambda>(b, result, shift, i). length b - i)") auto

declare sleb_loop.simps [simp del]

definition sleb128 :: "bytes \<Rightarrow> (u64 \<times> nat) res" where
  "sleb128 b = sleb_loop b 0 0 0"

record regs =
  fp :: u64
  sp :: u64
  frame_base :: u64

definition eval_addr :: "dwarf_regs \<Rightarrow> bytes \<Rightarrow> regs \<Rightarrow> u64 option res" where
  "eval_addr P bs r =
     (case bs of
        [] \<Rightarrow> Inr None
      | x # rest \<Rightarrow>
          let plus = (\<lambda>base. bindR (sleb128 rest) (\<lambda>(offset, used).
                Inr (if length rest \<noteq> used then None else Some (base + offset)))) in
          if x = 0x91 then plus (frame_base r)
          else if x = 0x9C then Inr (Some (sp r))
          else if x = OP_BREG_FP P then plus (fp r)
          else if x = OP_BREG_SP P then plus (sp r)
          else Inr None)"

text \<open>The frame base of the subprogram, \<^verbatim>\<open>None\<close> for an expression that is not understood.\<close>

definition frame_base_of :: "dwarf_regs \<Rightarrow> bytes \<Rightarrow> u64 \<Rightarrow> u64 \<Rightarrow> u64 option res" where
  "frame_base_of P e caller_fp caller_sp =
     (case e of
        [] \<Rightarrow> Inr None
      | x # rest \<Rightarrow>
          if x = 0x9C then Inr (Some caller_sp)
          else if x = OP_REG_FP P then Inr (Some caller_fp)
          else if x = OP_BREG_FP P then bindR (sleb128 rest) (\<lambda>(offset, _). Inr (Some (caller_fp + offset)))
          else Inr None)"

definition var_location :: "dunit \<Rightarrow> nat \<Rightarrow> u64 \<Rightarrow> bytes option" where
  "var_location u off pc =
     (case attr_of u off DW_AT_location of
        Some (Exprloc e) \<Rightarrow> Some e
      | Some (Loclist ls) \<Rightarrow> map_option (\<lambda>(_, _, e). e) (find (\<lambda>(lo, hi, _). lo \<le> pc \<and> pc < hi) ls)
      | _ \<Rightarrow> None)"

section \<open>The walk over the locals\<close>

text \<open>What the walk collects: the first same-address local that is no \<^verbatim>\<open>MaybeUninit\<close>, and every \<^verbatim>\<open>MaybeUninit\<close> local.\<close>

type_synonym local = "bytes \<times> nat"

record hunt =
  fallback :: "local option"
  mu :: "(bytes \<times> bytes \<times> nat) list"

definition no_hunt :: hunt where
  "no_hunt = \<lparr>fallback = None, mu = []\<rparr>"

record hunt_env =
  h_regs :: dwarf_regs
  h_unit :: dunit
  h_vals :: regs
  h_pc :: u64
  h_ptr :: u64

definition is_maybe_uninit :: "bytes \<Rightarrow> bool" where
  "is_maybe_uninit tn \<longleftrightarrow> starts_with tn (ascii ''MaybeUninit<'')"

text \<open>One variable or parameter: the hit, or the updated state.\<close>

definition type_name :: "nat \<Rightarrow> dunit \<Rightarrow> nat option \<Rightarrow> bytes res" where
  "type_name n u ty = (case ty of Some t \<Rightarrow> name_or_empty n u t | None \<Rightarrow> Inr [])"

definition addr_of :: "hunt_env \<Rightarrow> nat \<Rightarrow> u64 option res" where
  "addr_of E off = (case var_location (h_unit E) off (h_pc E) of
      Some expr \<Rightarrow> eval_addr (h_regs E) expr (h_vals E)
    | None \<Rightarrow> Inr None)"

definition visit :: "nat \<Rightarrow> hunt_env \<Rightarrow> nat \<Rightarrow> hunt \<Rightarrow> (local option \<times> hunt) res" where
  "visit n E off h =
     bindR (name_or_empty n (h_unit E) off) (\<lambda>name.
     bindR (type_ref n (h_unit E) off) (\<lambda>ty.
     bindR (type_name n (h_unit E) ty) (\<lambda>tn.
     bindR (addr_of E off) (\<lambda>addr.
       let is_mu = is_maybe_uninit tn in
       case ty of
         None \<Rightarrow> Inr (None, h)
       | Some t \<Rightarrow>
           if addr = Some (h_ptr E) \<and> is_mu then Inr (Some (name, t), h)
           else
             let h = (if addr = Some (h_ptr E) \<and> fallback h = None then h\<lparr>fallback := Some (name, t)\<rparr> else h);
                 h = (if is_mu then h\<lparr>mu := mu h @ [(name, tn, t)]\<rparr> else h) in
             Inr (None, h)))))"

text \<open>\<open>scan_kids\<close> is the loop of \<^verbatim>\<open>scan\<close>; it is entered at depth 32 at most, so its first test never holds.\<close>

function scan :: "nat \<Rightarrow> hunt_env \<Rightarrow> nat \<Rightarrow> nat \<Rightarrow> hunt \<Rightarrow> (local option \<times> hunt) res"
  and scan_kids :: "nat \<Rightarrow> hunt_env \<Rightarrow> nat list \<Rightarrow> nat \<Rightarrow> hunt \<Rightarrow> (local option \<times> hunt) res" where
  "scan n E parent depth h =
     (if 32 < depth then Inr (None, h)
      else bindR (child_offsets (h_unit E) parent) (\<lambda>offs. scan_kids n E offs depth h))"
| "scan_kids n E [] depth h = Inr (None, h)"
| "scan_kids n E (off # offs) depth h =
     (if 32 < depth then Inr (None, h)
      else bindR (tag (h_unit E) off) (\<lambda>t.
       if t = DW_TAG_lexical_block \<or> t = DW_TAG_inlined_subroutine then
         bindR (scan n E off (depth + 1) h) (\<lambda>(hit, h).
           case hit of Some l \<Rightarrow> Inr (Some l, h) | None \<Rightarrow> scan_kids n E offs depth h)
       else if t = DW_TAG_variable \<or> t = DW_TAG_formal_parameter then
         bindR (visit n E off h) (\<lambda>(hit, h).
           case hit of Some l \<Rightarrow> Inr (Some l, h) | None \<Rightarrow> scan_kids n E offs depth h)
       else scan_kids n E offs depth h))"
  by pat_completeness auto
termination
  by (relation "measures [\<lambda>x. case x of Inl (n, E, p, depth, h) \<Rightarrow> 33 - depth | Inr (n, E, os, depth, h) \<Rightarrow> 33 - depth,
      \<lambda>x. case x of Inl _ \<Rightarrow> 1 | Inr _ \<Rightarrow> 0,
      \<lambda>x. case x of Inl _ \<Rightarrow> 0 | Inr (n, E, os, depth, h) \<Rightarrow> length os]") auto

declare scan.simps [simp del]

definition sole_maybe_uninit :: "hunt \<Rightarrow> local option" where
  "sole_maybe_uninit h =
     (case remdups (map (fst \<circ> snd) (mu h)) of
        [_] \<Rightarrow> (case mu h of (vn, _, ty) # _ \<Rightarrow> Some (vn, ty) | [] \<Rightarrow> None)
      | _ \<Rightarrow> None)"

definition local_at_address ::
  "nat \<Rightarrow> dwarf_regs \<Rightarrow> dunit \<Rightarrow> nat \<Rightarrow> u64 \<Rightarrow> u64 \<Rightarrow> u64 \<Rightarrow> u64 \<Rightarrow> local option res" where
  "local_at_address n P u sub caller_fp caller_sp pc ptr =
     (case attr_of u sub DW_AT_frame_base of
        Some (Exprloc e) \<Rightarrow>
          bindR (frame_base_of P e caller_fp caller_sp) (\<lambda>fb.
            case fb of
              None \<Rightarrow> Inr None
            | Some base \<Rightarrow>
                let E = \<lparr>h_regs = P, h_unit = u,
                  h_vals = \<lparr>fp = caller_fp, sp = caller_sp, frame_base = base\<rparr>, h_pc = pc, h_ptr = ptr\<rparr> in
                bindR (scan n E sub 0 no_hunt) (\<lambda>(hit, h).
                  Inr (case hit of
                         Some l \<Rightarrow> Some l
                       | None \<Rightarrow> (case fallback h of Some l \<Rightarrow> Some l | None \<Rightarrow> sole_maybe_uninit h))))
      | _ \<Rightarrow> Inr None)"

end
