(* ===== verification/Classify.thy ===== *)
theory Classify
  imports Die "HOL-Library.Code_Target_Nat"
begin

unbundle bit_operations_syntax

text \<open>
  From a debugging entry to a layout: \<^verbatim>\<open>classify\<close> and everything below it in
  \<^verbatim>\<open>crates/bilbo/src/dwarf.rs\<close>, with the index of complete definitions, the memo of the types
  under construction and the write-once cells that tie recursive types. \<open>n\<close> is fuel: it bounds the
  chains of references from entry to entry and the nesting of \<^verbatim>\<open>classify\<close>. The helpers that call
  \<^verbatim>\<open>classify\<close> back take it as an argument \<open>cl\<close>.
\<close>

section \<open>The index of complete definitions\<close>

record idx_frame =
  i_depth :: nat
  i_off :: nat
  i_decl :: bool
  i_name :: "bytes option"
  i_has_child :: bool

type_synonym index = "bytes \<rightharpoonup> nat \<times> nat"

definition idx_close :: "nat \<Rightarrow> idx_frame \<Rightarrow> index \<Rightarrow> index" where
  "idx_close ui f m =
     (if i_has_child f \<and> \<not> i_decl f then
        (case i_name f of
           Some nm \<Rightarrow> (case m nm of None \<Rightarrow> m(nm \<mapsto> (ui, i_off f)) | Some _ \<Rightarrow> m)
         | None \<Rightarrow> m)
      else m)"

text \<open>Close every frame whose subtree has been left.\<close>

fun idx_pop :: "nat \<Rightarrow> nat \<Rightarrow> idx_frame list \<times> index \<Rightarrow> idx_frame list \<times> index" where
  "idx_pop ui depth ([], m) = ([], m)"
| "idx_pop ui depth (f # stack, m) =
     (if depth \<le> i_depth f then idx_pop ui depth (stack, idx_close ui f m) else (f # stack, m))"

definition is_su :: "dtag \<Rightarrow> bool" where
  "is_su t \<longleftrightarrow> t = DW_TAG_structure_type \<or> t = DW_TAG_union_type"

definition is_part :: "dtag \<Rightarrow> bool" where
  "is_part t \<longleftrightarrow> t = DW_TAG_member \<or> t = DW_TAG_variant_part"

definition is_decl :: "die \<Rightarrow> bool" where
  "is_decl d \<longleftrightarrow> attr_value d DW_AT_declaration = Some (Flag True)"

definition own_name :: "die \<Rightarrow> bytes option" where
  "own_name d = Option.bind (attr_value d DW_AT_name) attr_string"

definition idx_entry :: "nat \<Rightarrow> nat \<times> die \<Rightarrow> idx_frame list \<times> index \<Rightarrow> idx_frame list \<times> index" where
  "idx_entry ui e s =
     (let (depth, d) = e; (stack, m) = idx_pop ui depth s in
      if is_su (d_tag d) then
        (\<lparr>i_depth = depth, i_off = d_off d, i_decl = is_decl d, i_name = own_name d, i_has_child = False\<rparr> # stack, m)
      else if is_part (d_tag d) then
        (case stack of
           fr # stack' \<Rightarrow> (if depth = i_depth fr + 1 then (fr\<lparr>i_has_child := True\<rparr> # stack', m) else (stack, m))
         | [] \<Rightarrow> (stack, m))
      else (stack, m))"

definition idx_unit :: "nat \<times> dunit \<Rightarrow> index \<Rightarrow> index" where
  "idx_unit iu m =
     (let (ui, u) = iu; (stack, m) = fold (idx_entry ui) (dfs_depth 0 u) ([], m) in
      fold (idx_close ui) stack m)"

definition def_index :: "dstore \<Rightarrow> index" where
  "def_index st = fold idx_unit (enumerate 0 st) Map.empty"

section \<open>Stubs and their definitions\<close>

definition udata_or :: "dunit \<Rightarrow> nat \<Rightarrow> dattr \<Rightarrow> nat \<Rightarrow> nat" where
  "udata_or u off at d = (case udata u off at of Some k \<Rightarrow> k | None \<Rightarrow> d)"

definition is_stub :: "dunit \<Rightarrow> nat \<Rightarrow> bool res" where
  "is_stub u off =
     bindR (tag u off) (\<lambda>t.
       if \<not> is_su t then Inr False
       else if attr_of u off DW_AT_declaration = Some (Flag True) then Inr True
       else if udata_or u off DW_AT_byte_size 0 = 0 then Inr False
       else bindR (child_offsets u off) (\<lambda>cs.
            bindR (find_res (\<lambda>c. bindR (tag u c) (\<lambda>t. Inr (is_part t))) cs) (\<lambda>c. Inr (c = None))))"

definition def_site :: "nat \<Rightarrow> dstore \<Rightarrow> nat \<Rightarrow> nat \<Rightarrow> (nat \<times> nat) res" where
  "def_site n st ui off =
     bindR (idx st ui) (\<lambda>u.
     bindR (is_stub u off) (\<lambda>stub.
       if stub then
         bindR (die_name n u off) (\<lambda>nm.
           case Option.bind nm (def_index st) of Some site \<Rightarrow> Inr site | None \<Rightarrow> Inr (ui, off))
       else Inr (ui, off)))"

section \<open>Sizes, names\<close>

definition add_usize :: "nat \<Rightarrow> nat \<Rightarrow> nat res" where
  "add_usize a b = (if a + b < 2 ^ 64 then Inr (a + b) else Inl (Panic ''attempt to add with overflow''))"

definition next_power_of_two :: "nat \<Rightarrow> nat res" where
  "next_power_of_two k = expect (find (\<lambda>p. k \<le> p) (map (\<lambda>i. 2 ^ i) [0..<64])) ''attempt to add with overflow''"

definition align_of :: "dunit \<Rightarrow> nat \<Rightarrow> nat \<Rightarrow> nat res" where
  "align_of u off sz = (case udata u off DW_AT_alignment of Some k \<Rightarrow> Inr k | None \<Rightarrow> next_power_of_two (max sz 1))"

text \<open>A Rust string as text, for the messages in \<open>TUnknown\<close>.\<close>

definition chars :: "bytes \<Rightarrow> string" where
  "chars s = map (\<lambda>b. char_of (unat b)) s"

text \<open>\<^verbatim>\<open>norm_ty\<close>: the module path is stripped from the head of a type name.\<close>

definition LT :: byte where "LT = 0x3C"

fun has_sep :: "bytes \<Rightarrow> bool" where
  "has_sep (a # b # s) \<longleftrightarrow> a = COLON \<and> b = COLON \<or> has_sep (b # s)"
| "has_sep _ \<longleftrightarrow> False"

fun after_sep :: "bytes \<Rightarrow> bytes" where
  "after_sep [] = []"
| "after_sep (x # xs) = (if has_sep xs then after_sep xs else drop 1 xs)"

definition norm_ty :: "bytes \<Rightarrow> bytes" where
  "norm_ty s =
     (let head = takeWhile (\<lambda>b. b \<noteq> LT) s; rest = dropWhile (\<lambda>b. b \<noteq> LT) s;
          leaf = (if has_sep head then after_sep head else head) in
      leaf @ rest)"

text \<open>\<^verbatim>\<open>&name[lt + 1..name.len().saturating_sub(1)]\<close>: the bounds are checked, and so are the character boundaries.\<close>

definition is_boundary :: "bytes \<Rightarrow> nat \<Rightarrow> bool" where
  "is_boundary s i \<longleftrightarrow> i = 0 \<or> i = length s \<or> i < length s \<and> s ! i AND 0xC0 \<noteq> 0x80"

definition str_slice :: "bytes \<Rightarrow> nat \<Rightarrow> nat \<Rightarrow> bytes res" where
  "str_slice s a b =
     (if a \<le> b \<and> is_boundary s a \<and> is_boundary s b then Inr (take (b - a) (drop a s))
      else Inl (Panic ''byte index is not a char boundary''))"

section \<open>Trampolines\<close>

fun tramp_in :: "nat \<Rightarrow> u64 \<Rightarrow> dunit \<Rightarrow> bytes \<Rightarrow> bytes \<Rightarrow> bool \<Rightarrow> die list \<Rightarrow> nat option res" where
  "tramp_in n slide u pre want match_v [] = Inr None"
| "tramp_in n slide u pre want match_v (d # ds) =
     (let continue = tramp_in n slide u pre want match_v ds;
          found = (case attr_of u (d_off d) DW_AT_low_pc of
              Some (Addr lo) \<Rightarrow> bindR (add_usize (unat lo) (unat slide)) (\<lambda>a. Inr (Some a))
            | _ \<Rightarrow> continue) in
      if d_tag d \<noteq> DW_TAG_subprogram then continue
      else bindR (name_or_empty n u (d_off d)) (\<lambda>name.
        if \<not> starts_with name pre then continue
        else if match_v then
          (if LT \<notin> set name then continue
           else bindR (str_slice name (length (takeWhile (\<lambda>b. b \<noteq> LT) name) + 1) (length name - 1)) (\<lambda>inner.
             if norm_ty inner \<noteq> want then continue else found))
        else found))"

fun tramp_units :: "nat \<Rightarrow> u64 \<Rightarrow> bytes \<Rightarrow> bytes \<Rightarrow> bool \<Rightarrow> dstore \<Rightarrow> nat option res" where
  "tramp_units n slide pre want match_v [] = Inr None"
| "tramp_units n slide pre want match_v (u # us) =
     bindR (tramp_in n slide u pre want match_v (dfs u)) (\<lambda>r.
       case r of Some a \<Rightarrow> Inr (Some a) | None \<Rightarrow> tramp_units n slide pre want match_v us)"

definition resolve_tramp :: "nat \<Rightarrow> u64 \<Rightarrow> dstore \<Rightarrow> bytes \<Rightarrow> bytes \<Rightarrow> bool \<Rightarrow> nat option res" where
  "resolve_tramp n slide st fn_prefix v_name match_v =
     tramp_units n slide fn_prefix (norm_ty v_name) match_v st"


section \<open>Sequences and string slices\<close>

definition USIZE_MAX :: nat where
  "USIZE_MAX = 2 ^ 64 - 1"

function walk_seq :: "nat \<Rightarrow> dstore \<Rightarrow> nat \<Rightarrow> nat \<Rightarrow> nat \<Rightarrow> seq_layout \<Rightarrow> nat \<Rightarrow> seq_layout res"
  and walk_members :: "nat \<Rightarrow> dstore \<Rightarrow> nat \<Rightarrow> nat list \<Rightarrow> nat \<Rightarrow> seq_layout \<Rightarrow> nat \<Rightarrow> seq_layout res" where
  "walk_seq n st ui off base s depth =
     (if 16 < depth then Inr s
      else bindR (idx st ui) (\<lambda>u.
       bindR (strip n u off) (\<lambda>off.
       bindR (def_site n st ui off) (\<lambda>(ui, off).
       bindR (idx st ui) (\<lambda>u.
       bindR (tag u off) (\<lambda>t.
         if t = DW_TAG_pointer_type then
           Inr (if ptr_off s = USIZE_MAX then s\<lparr>ptr_off := base\<rparr> else s)
         else if is_su t then bindR (child_offsets u off) (\<lambda>ms. walk_members n st ui ms base s depth)
         else Inr s))))))"
| "walk_members n st ui [] base s depth = Inr s"
| "walk_members n st ui (m # ms) base s depth =
     (if 16 < depth then Inr s
      else bindR (idx st ui) (\<lambda>u.
       bindR (tag u m) (\<lambda>t.
       if t \<noteq> DW_TAG_member then walk_members n st ui ms base s depth
       else bindR (add_usize base (udata_or u m DW_AT_data_member_location 0)) (\<lambda>abs.
         bindR (die_name n u m) (\<lambda>nm.
         if (nm = Some (ascii ''cap'') \<or> nm = Some (ascii ''capacity'')) \<and> cap_off s = USIZE_MAX then
           walk_members n st ui ms base (s\<lparr>cap_off := abs\<rparr>) depth
         else if (nm = Some (ascii ''len'') \<or> nm = Some (ascii ''length'')) \<and> len_off s = USIZE_MAX then
           walk_members n st ui ms base (s\<lparr>len_off := abs\<rparr>) depth
         else bindR (type_ref n u m) (\<lambda>mt.
           bindR (case mt of Some mt \<Rightarrow> walk_seq n st ui mt abs s (depth + 1) | None \<Rightarrow> Inr s) (\<lambda>s.
             walk_members n st ui ms base s depth)))))))"
  by pat_completeness auto
termination
  by (relation "measures [\<lambda>x. case x of Inl (n, st, ui, off, base, s, depth) \<Rightarrow> 17 - depth
        | Inr (n, st, ui, ms, base, s, depth) \<Rightarrow> 17 - depth,
      \<lambda>x. case x of Inl _ \<Rightarrow> 1 | Inr _ \<Rightarrow> 0,
      \<lambda>x. case x of Inl _ \<Rightarrow> 0 | Inr (n, st, ui, ms, base, s, depth) \<Rightarrow> length ms]") auto

declare walk_seq.simps [simp del]

text \<open>\<open>walk_members\<close> is the loop over the members; it is entered at depth 16 at most, so its first test never holds.\<close>

definition seq_layout :: "nat \<Rightarrow> dstore \<Rightarrow> nat \<Rightarrow> nat \<Rightarrow> seq_layout res" where
  "seq_layout n st ui off =
     bindR (walk_seq n st ui off 0 \<lparr>ptr_off = USIZE_MAX, cap_off = USIZE_MAX, len_off = USIZE_MAX\<rparr> 0) (\<lambda>s.
       if ptr_off s \<noteq> USIZE_MAX \<and> cap_off s \<noteq> USIZE_MAX \<and> len_off s \<noteq> USIZE_MAX then Inr s
       else Inl (Panic ''could not locate ptr/cap/len in DWARF''))"

fun str_members :: "nat \<Rightarrow> dunit \<Rightarrow> nat list \<Rightarrow> nat \<times> nat \<Rightarrow> (nat \<times> nat) res" where
  "str_members n u [] r = Inr r"
| "str_members n u (m # ms) r =
     bindR (tag u m) (\<lambda>t.
     if t \<noteq> DW_TAG_member then str_members n u ms r
     else bindR (die_name n u m) (\<lambda>nm.
       let abs = udata_or u m DW_AT_data_member_location 0 in
       str_members n u ms
         (if nm = Some (ascii ''data_ptr'') then (abs, snd r)
          else if nm = Some (ascii ''length'') then (fst r, abs) else r)))"

definition str_ref_offsets :: "nat \<Rightarrow> dunit \<Rightarrow> nat \<Rightarrow> (nat \<times> nat) res" where
  "str_ref_offsets n u off = bindR (child_offsets u off) (\<lambda>ms. str_members n u ms (0, 0))"

section \<open>Types\<close>

text \<open>The memo of this thread and the cells allocated so far.\<close>

record cstate =
  memo :: "nat \<times> nat \<rightharpoonup> cell_id"
  cells :: cell_store

definition no_state :: cstate where
  "no_state = \<lparr>memo = Map.empty, cells = no_cells\<rparr>"

type_synonym classifier = "nat \<Rightarrow> nat \<Rightarrow> cstate \<Rightarrow> (ty \<times> cstate) res"

definition base_type :: "dunit \<Rightarrow> nat \<Rightarrow> bytes \<Rightarrow> ty" where
  "base_type u off name =
     (if name = ascii ''()'' then TUnit
      else let sz = udata_or u off DW_AT_byte_size 0 mod 256;
               enc = (case attr_of u off DW_AT_encoding of Some (Encoding e) \<Rightarrow> e | _ \<Rightarrow> 0) in
        if enc = 0x02 then TBool
        else if enc = 0x04 then (if sz = 4 then TF32 else TF64)
        else if enc = 0x08 \<and> name = ascii ''char'' then TChar
        else if enc = 0x10 then TChar
        else if enc = 0x05 \<or> enc = 0x06 then TI sz
        else if enc = 0x07 \<or> enc = 0x08 then TU sz
        else TUnknown (chars name))"

definition boxed :: "classifier \<Rightarrow> nat \<Rightarrow> dunit \<Rightarrow> nat \<Rightarrow> nat \<Rightarrow> bytes \<Rightarrow> cstate \<Rightarrow> (ty \<times> cstate) res" where
  "boxed cl n u ui off name s =
     bindR (type_ref n u off) (\<lambda>p.
       case p of
         None \<Rightarrow> Inr (TUnknown (''*'' @ chars name), s)
       | Some pointee \<Rightarrow>
           bindR (cl ui pointee s) (\<lambda>(inner, s).
           bindR (strip n u pointee) (\<lambda>pointee.
           let sz = udata_or u pointee DW_AT_byte_size 0 in
           bindR (align_of u pointee sz) (\<lambda>align.
             Inr (TBoxed inner sz align, s)))))"

text \<open>\<^verbatim>\<open>parse_option\<close>: the variants one by one, with the two results found so far.\<close>

record variants =
  v_none :: "nat option"
  v_some :: "(nat option \<times> nat \<times> ty) option"

definition first_field :: "nat \<Rightarrow> dunit \<Rightarrow> nat \<Rightarrow> nat option res" where
  "first_field n u pstruct =
     bindR (child_offsets u pstruct) (find_res (\<lambda>c. bindR (tag u c) (\<lambda>t.
       if t = DW_TAG_member then bindR (die_name n u c) (\<lambda>nm. Inr (nm = Some (ascii ''__0'')))
       else Inr False)))"

definition variant_step :: "classifier \<Rightarrow> nat \<Rightarrow> dunit \<Rightarrow> nat \<Rightarrow> nat \<Rightarrow> variants \<times> cstate \<Rightarrow> (variants \<times> cstate) res" where
  "variant_step cl n u ui v x =
     (let (vs, s) = x in
      bindR (tag u v) (\<lambda>t.
      if t \<noteq> DW_TAG_variant then Inr (vs, s)
      else
        let dv = attr_udata u v DW_AT_discr_value in
        bindR (child_with_tag u v DW_TAG_member) (\<lambda>pm.
        case pm of
          None \<Rightarrow> Inr (vs, s)
        | Some pm \<Rightarrow>
            let pm_off = udata_or u pm DW_AT_data_member_location 0 in
            bindR (type_ref n u pm) (\<lambda>ps.
            case ps of
              None \<Rightarrow> Inr (vs, s)
            | Some pstruct \<Rightarrow>
                bindR (strip n u pstruct) (\<lambda>pstruct.
                bindR (first_field n u pstruct) (\<lambda>f0.
                case f0 of
                  None \<Rightarrow> Inr (vs\<lparr>v_none := dv\<rparr>, s)
                | Some f0 \<Rightarrow>
                    let foff = udata_or u f0 DW_AT_data_member_location 0 in
                    bindR (type_ref n u f0) (\<lambda>ft.
                    case ft of
                      None \<Rightarrow> Inr (vs, s)
                    | Some t \<Rightarrow>
                        bindR (add_usize pm_off foff) (\<lambda>payload.
                        bindR (cl ui t s) (\<lambda>(inner, s).
                          Inr (vs\<lparr>v_some := Some (dv, payload, inner)\<rparr>, s))))))))))"

definition parse_option ::
  "classifier \<Rightarrow> nat \<Rightarrow> dunit \<Rightarrow> nat \<Rightarrow> nat \<Rightarrow> nat \<Rightarrow> bytes \<Rightarrow> cstate \<Rightarrow> (ty \<times> cstate) res" where
  "parse_option cl n u ui off vp name s =
     (let sz = udata_or u off DW_AT_byte_size 0;
          unk = TUnknown (''enum '' @ chars name) in
      case attr_of u vp DW_AT_discr of
        Some (UnitRef disc_m) \<Rightarrow>
          let disc_off = udata_or u disc_m DW_AT_data_member_location 0 in
          bindR (type_ref n u disc_m) (\<lambda>dt.
          bindR (case dt of None \<Rightarrow> Inr 8
                 | Some t \<Rightarrow> bindR (strip n u t) (\<lambda>t. Inr (udata_or u t DW_AT_byte_size 8))) (\<lambda>disc_size.
          bindR (child_offsets u vp) (\<lambda>vs.
          bindR (fold_res (variant_step cl n u ui) vs (\<lparr>v_none = None, v_some = None\<rparr>, s)) (\<lambda>(r, s).
            Inr (case (v_none r, v_some r) of
                (Some none_discr, Some (some_discr, payload_off, inner)) \<Rightarrow>
                  TOpt disc_off (disc_size mod 256) none_discr some_discr payload_off sz inner
              | _ \<Rightarrow> unk, s)))))
      | _ \<Rightarrow> Inr (unk, s))"

text \<open>Members of a plain aggregate, and whether they are the positions of a tuple.\<close>

fun members :: "classifier \<Rightarrow> nat \<Rightarrow> dunit \<Rightarrow> nat \<Rightarrow> nat list \<Rightarrow> cstate \<Rightarrow> (field list \<times> cstate) res" where
  "members cl n u ui [] s = Inr ([], s)"
| "members cl n u ui (m # ms) s =
     bindR (tag u m) (\<lambda>t.
     if t \<noteq> DW_TAG_member then members cl n u ui ms s
     else
       bindR (name_or_empty n u m) (\<lambda>fname.
       let foff = udata_or u m DW_AT_data_member_location 0 in
       bindR (type_ref n u m) (\<lambda>ft.
       bindR (case ft of Some t \<Rightarrow> cl ui t s | None \<Rightarrow> Inr (TUnknown ''?'', s)) (\<lambda>(fty, s).
       bindR (members cl n u ui ms s) (\<lambda>(fs, s).
         Inr (Field fname foff fty # fs, s))))))"

definition is_digit8 :: "byte \<Rightarrow> bool" where
  "is_digit8 b \<longleftrightarrow> 0x30 \<le> b \<and> b \<le> 0x39"

definition is_position :: "bytes \<Rightarrow> bool" where
  "is_position nm \<longleftrightarrow> starts_with nm (ascii ''__'') \<and> drop 2 nm \<noteq> [] \<and> list_all is_digit8 (drop 2 nm)"

definition position_key :: "field \<Rightarrow> nat" where
  "position_key f =
     (let v = foldl (\<lambda>v b. 10 * v + (unat b - 0x30)) 0 (drop 2 (f_name f)) in
      if v < 2 ^ 32 then v else 2 ^ 32 - 1)"

definition aggregate :: "bytes \<Rightarrow> field list \<Rightarrow> ty" where
  "aggregate name fs =
     (if fs \<noteq> [] \<and> list_all (\<lambda>f. is_position (f_name f)) fs then TTuple (sort_key position_key fs)
      else TStruct name fs)"

definition vec :: "classifier \<Rightarrow> nat \<Rightarrow> dstore \<Rightarrow> dunit \<Rightarrow> nat \<Rightarrow> nat \<Rightarrow> cstate \<Rightarrow> (ty \<times> cstate) res" where
  "vec cl n st u ui off s =
     bindR (template_param n u off) (\<lambda>e.
     bindR (expect e ''Vec<T> param'') (\<lambda>elem_off.
     bindR (cl ui elem_off s) (\<lambda>(elem, s).
     bindR (strip n u elem_off) (\<lambda>elem_off.
     let elem_size = udata_or u elem_off DW_AT_byte_size 1 in
     bindR (align_of u elem_off elem_size) (\<lambda>elem_align.
     bindR (seq_layout n st ui off) (\<lambda>sq.
       Inr (TVec elem elem_size elem_align sq, s)))))))"

definition btree_map ::
  "classifier \<Rightarrow> nat \<Rightarrow> u64 \<Rightarrow> dstore \<Rightarrow> dunit \<Rightarrow> nat \<Rightarrow> nat \<Rightarrow> cstate \<Rightarrow> (ty \<times> cstate) res" where
  "btree_map cl n slide st u ui off s =
     bindR (template_named n u off (ascii ''K'')) (\<lambda>k.
     bindR (expect k ''BTreeMap<K,_> param'') (\<lambda>k_off.
     bindR (template_named n u off (ascii ''V'')) (\<lambda>v.
     bindR (expect v ''BTreeMap<_,V> param'') (\<lambda>v_off.
     bindR (name_or_empty n u v_off) (\<lambda>v_name.
     bindR (cl ui k_off s) (\<lambda>(key, s).
     bindR (strip n u k_off) (\<lambda>k_str.
     let key_size = udata_or u k_str DW_AT_byte_size 24 in
     bindR (cl ui v_off s) (\<lambda>(val, s).
     bindR (strip n u v_off) (\<lambda>v_str.
     let val_size = udata_or u v_str DW_AT_byte_size 1 in
     bindR (resolve_tramp n slide st (ascii ''map_new_at'') v_name False) (\<lambda>new_at.
     bindR (expect new_at ''no map_new_at trampoline at all'') (\<lambda>new_at.
     bindR (resolve_tramp n slide st (ascii ''map_insert'') v_name True) (\<lambda>insert_at.
     bindR (expect insert_at ''no map_insert trampoline'') (\<lambda>insert_at.
       Inr (TMap key key_size val val_size new_at insert_at, s))))))))))))))"

definition structure_ty ::
  "classifier \<Rightarrow> nat \<Rightarrow> u64 \<Rightarrow> dstore \<Rightarrow> dunit \<Rightarrow> nat \<Rightarrow> nat \<Rightarrow> bytes \<Rightarrow> cstate \<Rightarrow> (ty \<times> cstate) res" where
  "structure_ty cl n slide st u ui off name s =
     (if name = ascii ''String'' then bindR (seq_layout n st ui off) (\<lambda>sq. Inr (TStr sq, s))
      else if name = ascii ''&str'' then bindR (str_ref_offsets n u off) (\<lambda>(p, l). Inr (TStrRef p l, s))
      else if starts_with name (ascii ''Vec<'') then vec cl n st u ui off s
      else if starts_with name (ascii ''BTreeMap<'') then btree_map cl n slide st u ui off s
      else bindR (child_with_tag u off DW_TAG_variant_part) (\<lambda>vp.
        case vp of
          Some vp \<Rightarrow> parse_option cl n u ui off vp name s
        | None \<Rightarrow> bindR (child_offsets u off) (\<lambda>ms.
            bindR (members cl n u ui ms s) (\<lambda>(fs, s). Inr (aggregate name fs, s)))))"

text \<open>
  How many handles on a cell are alive when its type is complete: the two of \<^verbatim>\<open>classify\<close>, and one
  per \<^verbatim>\<open>Ty::Ref\<close> in the body and in the bodies of the cells already set. A cell that is set
  keeps itself alive (its own body, or the body of an older one that does, mentions it), so none of
  them has been dropped.
\<close>

definition strong_count :: "cell_id \<Rightarrow> ty \<Rightarrow> cell_store \<Rightarrow> nat" where
  "strong_count c body k =
     2 + count_list (ty_cells body) c
       + sum_list (map (\<lambda>c'. case cell_body k c' of Some b \<Rightarrow> count_list (ty_cells b) c | None \<Rightarrow> 0) [0..<next_cell k])"

definition is_transparent :: "bytes \<Rightarrow> bool" where
  "is_transparent name \<longleftrightarrow> starts_with name (ascii ''MaybeUninit<'')
     \<or> starts_with name (ascii ''ManuallyDrop<'') \<or> starts_with name (ascii ''UnsafeCell<'')"

definition enter :: "nat \<times> nat \<Rightarrow> cstate \<Rightarrow> cell_id \<times> cstate" where
  "enter key s = (let (c, k) = cell_new (cells s) in (c, \<lparr>memo = (memo s)(key \<mapsto> c), cells = k\<rparr>))"

definition leave :: "nat \<times> nat \<Rightarrow> cell_id \<Rightarrow> ty \<Rightarrow> cstate \<Rightarrow> cstate" where
  "leave key c body s =
     \<lparr>memo = (memo s)(key := None),
      cells = (if 2 < strong_count c body (cells s) then cell_set c body (cells s) else cells s)\<rparr>"

definition type_body ::
  "classifier \<Rightarrow> nat \<Rightarrow> u64 \<Rightarrow> dstore \<Rightarrow> dunit \<Rightarrow> nat \<Rightarrow> nat \<Rightarrow> dtag \<Rightarrow> bytes \<Rightarrow> cstate \<Rightarrow> (ty \<times> cstate) res" where
  "type_body cl n slide st u ui off t name s =
     (if t = DW_TAG_base_type then Inr (base_type u off name, s)
      else if t = DW_TAG_pointer_type then boxed cl n u ui off name s
      else if t = DW_TAG_structure_type then structure_ty cl n slide st u ui off name s
      else if t = DW_TAG_enumeration_type then Inr (TUnknown (''enum '' @ chars name), s)
      else Inr (TUnknown (chars name), s))"

fun classify :: "nat \<Rightarrow> u64 \<Rightarrow> dstore \<Rightarrow> nat \<Rightarrow> nat \<Rightarrow> cstate \<Rightarrow> (ty \<times> cstate) res" where
  "classify 0 slide st ui off s = Inl OutOfFuel"
| "classify (Suc n) slide st ui off s =
     bindR (idx st ui) (\<lambda>u.
     bindR (strip n u off) (\<lambda>off.
     bindR (def_site n st ui off) (\<lambda>(ui, off).
     bindR (idx st ui) (\<lambda>u.
     bindR (tag u off) (\<lambda>t.
     bindR (name_or_empty n u off) (\<lambda>name.
       if is_transparent name then
         bindR (template_param n u off) (\<lambda>inner.
         bindR (expect inner ''no T parameter'') (\<lambda>inner. classify n slide st ui inner s))
       else
         case memo s (ui, off) of
           Some c \<Rightarrow> Inr (TRef c, s)
         | None \<Rightarrow>
             let (c, s) = enter (ui, off) s in
             bindR (type_body (classify n slide st) n slide st u ui off t name s) (\<lambda>(body, s).
               Inr (body, leave (ui, off) c body s))))))))"

end
