(* ===== verification/Resolve.thy ===== *)
theory Resolve
  imports Locals Classify
begin

text \<open>
  \<^verbatim>\<open>crates/bilbo/src/resolve.rs\<close> with the platform layer it calls: from a captured frame to a
  layout, through a cache per call site (\<open>L1\<close>) and a cache per type (\<open>L2\<close>), used by any number
  of threads at once. Each thread runs \<^verbatim>\<open>resolved\<close>; a step of a thread is what it does between
  two operations on the mutexes.
\<close>

section \<open>The platform layer\<close>

text \<open>
  Captured registers, on x86-64 and with the link register on AArch64; \<open>load\<close> reads a word of our
  own stack, \<open>unwind_frame\<close> stands for the crate framehop (\<open>None\<close>: an error or no caller).
\<close>

record raw =
  r_pc :: u64
  r_sp :: u64
  r_fp :: u64

record raw_aarch64 = raw +
  r_lr :: u64

record caller =
  static_pc :: u64
  caller_fp :: u64
  caller_sp :: u64

definition sub_u64 :: "u64 \<Rightarrow> u64 \<Rightarrow> u64 res" where
  "sub_u64 a b = (if b \<le> a then Inr (a - b) else Inl (Panic ''attempt to subtract with overflow''))"

definition add_u64 :: "u64 \<Rightarrow> u64 \<Rightarrow> u64 res" where
  "add_u64 a b = (if unat a + unat b < 2 ^ 64 then Inr (a + b) else Inl (Panic ''attempt to add with overflow''))"

definition caller_pc :: "(u64 \<Rightarrow> u64) \<Rightarrow> u64 \<Rightarrow> 'a raw_scheme \<Rightarrow> u64 res" where
  "caller_pc load slide r = bindR (add_u64 (r_fp r) 8) (\<lambda>a. sub_u64 (load a) slide)"

definition unwound :: "u64 \<Rightarrow> (u64 \<times> u64 \<times> u64) option \<Rightarrow> caller res" where
  "unwound slide frame =
     bindR (expect frame ''unwind_frame'') (\<lambda>(ret, sp, fp).
     bindR (sub_u64 ret slide) (\<lambda>pc.
       Inr \<lparr>static_pc = pc, caller_fp = fp, caller_sp = sp\<rparr>))"

definition unwind_x86_64 ::
  "(u64 \<Rightarrow> u64 \<Rightarrow> u64 \<Rightarrow> (u64 \<Rightarrow> u64) \<Rightarrow> (u64 \<times> u64 \<times> u64) option) \<Rightarrow> (u64 \<Rightarrow> u64) \<Rightarrow> u64 \<Rightarrow> raw \<Rightarrow> caller res" where
  "unwind_x86_64 unwind_frame load slide r = unwound slide (unwind_frame (r_pc r) (r_sp r) (r_fp r) load)"

definition unwind_aarch64 ::
  "(u64 \<Rightarrow> u64 \<Rightarrow> u64 \<Rightarrow> u64 \<Rightarrow> (u64 \<Rightarrow> u64) \<Rightarrow> (u64 \<times> u64 \<times> u64) option) \<Rightarrow> (u64 \<Rightarrow> u64) \<Rightarrow> u64 \<Rightarrow> raw_aarch64 \<Rightarrow> caller res" where
  "unwind_aarch64 unwind_frame load slide r =
     unwound slide (unwind_frame (r_pc r) (r_lr r) (r_sp r) (r_fp r) load)"

text \<open>
  The load bias. On Linux it comes from \<^verbatim>\<open>dl_iterate_phdr\<close>, an argument here, which calls \<open>phdr_cb\<close> on
  the objects until it returns a non-zero value; on macOS from the list of loaded images, compared
  by their canonical paths (\<open>canonicalize\<close> may fail).
\<close>

definition phdr_cb :: "u64 \<Rightarrow> u64 option \<Rightarrow> u64 option \<times> nat" where
  "phdr_cb dlpi_addr out = ((case out of None \<Rightarrow> Some dlpi_addr | Some a \<Rightarrow> Some a), 1)"

definition load_bias :: "((u64 \<Rightarrow> u64 option \<Rightarrow> u64 option \<times> nat) \<Rightarrow> u64 option \<Rightarrow> u64 option) \<Rightarrow> u64" where
  "load_bias dl_iterate_phdr = (case dl_iterate_phdr phdr_cb None of Some a \<Rightarrow> a | None \<Rightarrow> 0)"

definition main_image_slide :: "('p \<Rightarrow> 'p option) \<Rightarrow> 'p \<Rightarrow> ('p option \<times> u64) list \<Rightarrow> u64 \<Rightarrow> u64" where
  "main_image_slide canonicalize exe images slide0 =
     (let canon = (\<lambda>p. case canonicalize p of Some q \<Rightarrow> q | None \<Rightarrow> p) in
      case find (\<lambda>(name, _). case name of Some p \<Rightarrow> canon p = canon exe | None \<Rightarrow> False) images of
        Some (_, s) \<Rightarrow> s
      | None \<Rightarrow> slide0)"

section \<open>From a caller and a pointer to a type\<close>

type_synonym key = "nat \<times> nat"

record env =
  e_fuel :: nat
  e_regs :: dwarf_regs
  e_slide :: u64
  e_store :: dstore

definition find_key :: "env \<Rightarrow> caller \<Rightarrow> u64 \<Rightarrow> key res" where
  "find_key E c ptr =
     bindR (expect (subprogram_at (e_store E) (static_pc c)) ''no subprogram for caller PC'') (\<lambda>(ui, sp).
     bindR (idx (e_store E) ui) (\<lambda>u.
     bindR (local_at_address (e_fuel E) (e_regs E) u sp (caller_fp c) (caller_sp c) (static_pc c) ptr) (\<lambda>l.
     bindR (expect l ''no local matched the pointer we were handed'') (\<lambda>(name, ty_off). Inr (ui, ty_off)))))"

section \<open>The two caches\<close>

text \<open>
  \<open>L1_holder\<close> is the thread that holds the mutex of \<open>L1\<close> while it waits for the one of \<open>L2\<close> (the
  guard of an \<^verbatim>\<open>if let\<close> lives to the end of its body). The mutex of \<open>L2\<close> is never held over a step:
  what happens under it touches no other shared state. A panic under a guard poisons its mutex.
\<close>

record shared =
  L1 :: "u64 \<rightharpoonup> key"
  L2 :: "key \<rightharpoonup> ty"
  L1_holder :: "nat option"
  L1_poisoned :: bool
  L2_poisoned :: bool
  store_cells :: cell_store

datatype phase =
    Start
  | Hot key
  | Cold
  | Keyed key
  | Storing key ty
  | Done key ty
  | Failed fault
  | Missing

record call =
  c_pc :: u64
  c_caller :: caller
  c_ptr :: u64

type_synonym config = "shared \<times> (nat \<Rightarrow> phase)"

definition poison :: fault where
  "poison = Panic ''called `Result::unwrap()` on an `Err` value: PoisonError''"

definition classify_key :: "env \<Rightarrow> key \<Rightarrow> cell_store \<Rightarrow> (ty \<times> cstate) res" where
  "classify_key E k cs = classify (e_fuel E) (e_slide E) (e_store E) (fst k) (snd k) \<lparr>memo = Map.empty, cells = cs\<rparr>"

text \<open>\<open>Missing\<close> is the panic of \<^verbatim>\<open>expect("L2 present")\<close> on the hot path, \<open>Failed\<close> any other.\<close>

text \<open>One step of thread \<open>i\<close>; \<open>None\<close> if it waits for a mutex, is in an endless loop, or has ended.\<close>

fun step_phase :: "env \<Rightarrow> call \<Rightarrow> nat \<Rightarrow> shared \<Rightarrow> phase \<Rightarrow> (shared \<times> phase) option" where
  "step_phase E a i sh Start =
     (if L1_holder sh \<noteq> None then None
      else if L1_poisoned sh then Some (sh, Failed poison)
      else case L1 sh (c_pc a) of
             Some k \<Rightarrow> Some (sh\<lparr>L1_holder := Some i\<rparr>, Hot k)
           | None \<Rightarrow> Some (sh, Cold))"
| "step_phase E a i sh (Hot k) =
     (if L2_poisoned sh then Some (sh\<lparr>L1_holder := None, L1_poisoned := True\<rparr>, Failed poison)
      else case L2 sh k of
             Some t \<Rightarrow> Some (sh\<lparr>L1_holder := None\<rparr>, Done k t)
           | None \<Rightarrow> Some (sh\<lparr>L1_holder := None, L1_poisoned := True, L2_poisoned := True\<rparr>, Missing))"
| "step_phase E a i sh Cold =
     (case find_key E (c_caller a) (c_ptr a) of
        Inr k \<Rightarrow> Some (sh, Keyed k)
      | Inl OutOfFuel \<Rightarrow> None
      | Inl e \<Rightarrow> Some (sh, Failed e))"
| "step_phase E a i sh (Keyed k) =
     (if L2_poisoned sh then Some (sh, Failed poison)
      else case L2 sh k of
             Some t \<Rightarrow> Some (sh, Storing k t)
           | None \<Rightarrow> (case classify_key E k (store_cells sh) of
                 Inr (t, s) \<Rightarrow> Some (sh\<lparr>L2 := (L2 sh)(k \<mapsto> t), store_cells := cells s\<rparr>, Storing k t)
               | Inl OutOfFuel \<Rightarrow> None
               | Inl e \<Rightarrow> Some (sh\<lparr>L2_poisoned := True\<rparr>, Failed e)))"
| "step_phase E a i sh (Storing k t) =
     (if L1_holder sh \<noteq> None then None
      else if L1_poisoned sh then Some (sh, Failed poison)
      else Some (sh\<lparr>L1 := (L1 sh)(c_pc a \<mapsto> k)\<rparr>, Done k t))"
| "step_phase E a i sh (Done k t) = None"
| "step_phase E a i sh (Failed e) = None"
| "step_phase E a i sh Missing = None"

definition start :: config where
  "start = (\<lparr>L1 = Map.empty, L2 = Map.empty, L1_holder = None, L1_poisoned = False, L2_poisoned = False,
      store_cells = no_cells\<rparr>, \<lambda>_. Start)"

inductive step :: "env \<Rightarrow> (nat \<Rightarrow> call) \<Rightarrow> config \<Rightarrow> config \<Rightarrow> bool" for E calls where
  step: "step_phase E (calls i) i sh (ph i) = Some (sh', p) \<Longrightarrow> step E calls (sh, ph) (sh', ph(i := p))"

inductive reachable_config :: "env \<Rightarrow> (nat \<Rightarrow> call) \<Rightarrow> config \<Rightarrow> bool" for E calls where
  r_start: "reachable_config E calls start"
| r_step: "reachable_config E calls c \<Longrightarrow> step E calls c c' \<Longrightarrow> reachable_config E calls c'"

inductive_cases stepE: "step E calls (sh, ph) c'"

section \<open>The artifact of a type\<close>

text \<open>
  \<^verbatim>\<open>Resolved::ext\<close>: a write-once slot that holds a value of a dynamic type; \<open>want\<close> is the type the
  caller asks for.
\<close>

type_synonym 'v artifact_slot = "(string \<times> 'v) option"

definition ext :: "'v artifact_slot \<Rightarrow> string \<Rightarrow> (ty \<Rightarrow> 'v res) \<Rightarrow> ty \<Rightarrow> ('v artifact_slot \<times> 'v) res" where
  "ext slot want init t =
     bindR (case slot of Some x \<Rightarrow> Inr x | None \<Rightarrow> bindR (init t) (\<lambda>v. Inr (want, v))) (\<lambda>(have, v).
       if have = want then Inr (Some (have, v), v)
       else Inl (Panic ''Resolved::ext called with two different T for one type''))"

end
