(* ===== verification/Classify_Cells.thy ===== *)
theory Classify_Cells
  imports Classify
begin

text \<open>
  The knots of recursive types: \<^verbatim>\<open>classify\<close> restores its memo, never changes a cell that is set,
  and every \<^verbatim>\<open>Ty::Ref\<close> it hands out is tied by the time the outermost type is complete, so that
  \<^verbatim>\<open>RecCell::get\<close> finds a body. The contract of the recursive call is the locale \<open>grounded_classifier\<close>.
\<close>

section \<open>States of a walk\<close>

text \<open>Cells that have a body, or belong to an enclosing type that is still under construction.\<close>

definition live_cells :: "cstate \<Rightarrow> cell_id set" where
  "live_cells s = dom (cell_body (cells s)) \<union> ran (memo s)"

definition ok_state :: "cstate \<Rightarrow> bool" where
  "ok_state s \<longleftrightarrow>
     (\<forall>c \<in> ran (memo s). c < next_cell (cells s) \<and> cell_body (cells s) c = None)
     \<and> (\<forall>c b. cell_body (cells s) c = Some b \<longrightarrow> c < next_cell (cells s) \<and> set (ty_cells b) \<subseteq> live_cells s)"

definition evolves :: "cstate \<Rightarrow> cstate \<Rightarrow> bool" where
  "evolves s s' \<longleftrightarrow> memo s' = memo s \<and> next_cell (cells s) \<le> next_cell (cells s')
     \<and> (\<forall>c < next_cell (cells s). cell_body (cells s') c = cell_body (cells s) c)"

definition grounded :: "cstate \<Rightarrow> ty \<Rightarrow> bool" where
  "grounded s t \<longleftrightarrow> set (ty_cells t) \<subseteq> live_cells s"

text \<open>A step of the walk from \<open>s\<close> that yields the types \<open>ts\<close>.\<close>

definition yields :: "cstate \<Rightarrow> cstate \<Rightarrow> ty list \<Rightarrow> bool" where
  "yields s s' ts \<longleftrightarrow> ok_state s' \<and> evolves s s' \<and> (\<forall>t \<in> set ts. grounded s' t)"

lemma evolves_refl [simp]: "evolves s s"
  by (simp add: evolves_def)

lemma evolves_trans: "evolves s s' \<Longrightarrow> evolves s' s'' \<Longrightarrow> evolves s s''"
  unfolding evolves_def by (metis order_less_le_trans order_trans)

lemma evolves_live: "ok_state s \<Longrightarrow> evolves s s' \<Longrightarrow> live_cells s \<subseteq> live_cells s'"
  unfolding ok_state_def evolves_def live_cells_def dom_def by fastforce

lemma grounded_mono: "ok_state s \<Longrightarrow> evolves s s' \<Longrightarrow> grounded s t \<Longrightarrow> grounded s' t"
  unfolding grounded_def using evolves_live by blast

lemma yields_refl: "ok_state s \<Longrightarrow> (\<And>t. t \<in> set ts \<Longrightarrow> ty_cells t = []) \<Longrightarrow> yields s s ts"
  by (auto simp: yields_def grounded_def)

lemma yields_leaf: "ok_state s \<Longrightarrow> ty_cells t = [] \<Longrightarrow> yields s s [t]"
  by (rule yields_refl) simp_all

lemma yields_none: "ok_state s \<Longrightarrow> yields s s []"
  by (rule yields_refl) simp_all

lemma yields_trans: "yields s s' ts \<Longrightarrow> yields s' s'' us \<Longrightarrow> yields s s'' (ts @ us)"
  unfolding yields_def using evolves_trans grounded_mono by (metis Un_iff set_append)

lemma grounded_parts:
  "(\<nexists>c. t = TRef c) \<Longrightarrow> grounded s t \<longleftrightarrow> (\<forall>u \<in> set (sub_tys t). grounded s u)"
  by (auto simp: grounded_def ty_cells_eq)

lemma ty_cells_leaf [simp]:
  "ty_cells TBool = []" "ty_cells TChar = []" "ty_cells (TU k) = []" "ty_cells (TI k) = []" "ty_cells TF32 = []"
  "ty_cells TF64 = []" "ty_cells (TStr sq) = []" "ty_cells (TStrRef p l) = []" "ty_cells TUnit = []"
  "ty_cells (TUnknown x) = []"
  by (simp_all add: ty_cells.simps)

lemma ty_cells_base_type [simp]: "ty_cells (base_type u off name) = []"
  by (simp add: base_type_def Let_def)

section \<open>Entering and leaving a type\<close>

lemma enter_ok:
  assumes "ok_state s" and "memo s key = None" and "enter key s = (c, s1)"
  shows "ok_state s1" and "memo s1 = (memo s)(key \<mapsto> c)" and "c = next_cell (cells s)" and "c < next_cell (cells s1)"
    and "cell_body (cells s1) = cell_body (cells s)" and "next_cell (cells s) \<le> next_cell (cells s1)"
proof -
  have s1: "c = next_cell (cells s)" "s1 = \<lparr>memo = (memo s)(key \<mapsto> c), cells = (cells s)\<lparr>next_cell := Suc (next_cell (cells s))\<rparr>\<rparr>"
    using assms(3) by (auto simp: enter_def cell_new_def)
  have fresh: "cell_body (cells s) c = None"
    using assms(1) unfolding ok_state_def s1(1) by (metis less_irrefl not_None_eq)
  have "ran (memo s1) = Set.insert c (ran (memo s))" using assms(2) s1(2) by simp
  then have "live_cells s \<subseteq> live_cells s1" unfolding live_cells_def s1 by auto
  moreover have "\<forall>d b. cell_body (cells s) d = Some b \<longrightarrow> d < next_cell (cells s) \<and> set (ty_cells b) \<subseteq> live_cells s"
    using assms(1) by (simp add: ok_state_def)
  ultimately have "\<forall>d b. cell_body (cells s) d = Some b \<longrightarrow> d < next_cell (cells s) \<and> set (ty_cells b) \<subseteq> live_cells s1"
    by blast
  then show "ok_state s1"
    using assms(1) fresh \<open>ran (memo s1) = _\<close> unfolding ok_state_def s1 by (auto intro: less_SucI)
qed (use assms(3) in \<open>auto simp: enter_def cell_new_def\<close>)

lemma strong_count_zero:
  assumes "\<not> 2 < strong_count c body k"
  shows "c \<notin> set (ty_cells body)"
    and "d < next_cell k \<Longrightarrow> cell_body k d = Some b \<Longrightarrow> c \<notin> set (ty_cells b)"
proof -
  have z: "count_list (ty_cells body) c = 0"
    "sum_list (map (\<lambda>c'. case cell_body k c' of Some b \<Rightarrow> count_list (ty_cells b) c | None \<Rightarrow> 0) [0..<next_cell k]) = 0"
    using assms by (simp_all add: strong_count_def)
  then show "c \<notin> set (ty_cells body)" by (simp add: count_list_0_iff)
  show "c \<notin> set (ty_cells b)" if d: "d < next_cell k" "cell_body k d = Some b"
  proof -
    have "(case cell_body k d of Some b \<Rightarrow> count_list (ty_cells b) c | None \<Rightarrow> 0) = 0"
      using z(2) d(1) by (simp only: sum_list_eq_0_iff) auto
    then show ?thesis using d(2) by (simp add: count_list_0_iff)
  qed
qed

lemma leave_yields:
  assumes s: "ok_state s" "memo s key = None" "enter key s = (c, s1)" and y: "yields s1 s2 [body]"
  shows "yields s (leave key c body s2) [body]"
proof -
  note e = enter_ok [OF s]
  have ok2: "ok_state s2" and ex: "evolves s1 s2" and gb: "grounded s2 body" using y by (simp_all add: yields_def)
  have memo2: "memo s2 = (memo s)(key \<mapsto> c)" using ex e(2) by (simp add: evolves_def)
  have c2: "c < next_cell (cells s2)" "cell_body (cells s2) c = None"
    using ok2 ranI [of "memo s2" key c] memo2 unfolding ok_state_def by simp_all
  let ?s = "leave key c body s2"
  have memo': "memo ?s = memo s" using s(2) memo2 by (simp add: leave_def fun_upd_idem)
  have ran2: "ran (memo s2) = Set.insert c (ran (memo s))" using s(2) memo2 by simp
  have nc: "c \<notin> ran (memo s)" using s(1) e(3) unfolding ok_state_def by blast
  have next': "next_cell (cells ?s) = next_cell (cells s2)" by (simp add: leave_def cell_set_def split: option.splits)
  have old: "\<forall>d < next_cell (cells s). cell_body (cells ?s) d = cell_body (cells s) d"
    using ex e(3,5,6) unfolding evolves_def leave_def by (auto simp: cell_set_def split: option.splits)
  have ext: "evolves s ?s" using memo' next' old ex e(6) unfolding evolves_def by auto
  show ?thesis
  proof (cases "2 < strong_count c body (cells s2)")
    case True
    then have body': "cell_body (cells ?s) = (cell_body (cells s2))(c \<mapsto> body)"
      using c2(2) by (simp add: leave_def cell_set_def)
    then have lv: "live_cells ?s = live_cells s2" unfolding live_cells_def memo' ran2 by auto
    have "ok_state ?s" using ok2 gb c2(1) nc
      unfolding ok_state_def lv memo' next' body' ran2 grounded_def by auto
    then show ?thesis using ext gb lv by (simp add: yields_def grounded_def)
  next
    case False
    then have body': "cell_body (cells ?s) = cell_body (cells s2)" by (simp add: leave_def)
    have lv: "live_cells s2 \<subseteq> Set.insert c (live_cells ?s)" unfolding live_cells_def memo' ran2 body' by auto
    have "ok_state ?s"
      using ok2 strong_count_zero(2) [OF False] lv
      unfolding ok_state_def memo' next' body' ran2 by (meson insert_iff subset_insert subset_trans)
    moreover have "grounded ?s body"
      using gb strong_count_zero(1) [OF False] lv unfolding grounded_def by blast
    ultimately show ?thesis using ext by (simp add: yields_def)
  qed
qed

section \<open>The contract of the recursive call\<close>

locale grounded_classifier =
  fixes cl :: classifier
  assumes cl_yields: "ok_state s \<Longrightarrow> cl ui off s = Inr (t, s') \<Longrightarrow> yields s s' [t]"
begin

lemma boxed_yields:
  assumes "ok_state s" and "boxed cl n u ui off name s = Inr (t, s')"
  shows "yields s s' [t]"
proof -
  from assms(2) consider "t = TUnknown (''*'' @ chars name)" "s' = s"
    | p inner sz al where "cl ui p s = Inr (inner, s')" "t = TBoxed inner sz al"
    by (auto simp: boxed_def bindR_eq_Inr Let_def split: option.splits)
  then show ?thesis
  proof cases
    case 1
    then show ?thesis using yields_leaf [OF assms(1)] by simp
  next
    case 2
    then show ?thesis using cl_yields [OF assms(1)] by (fastforce simp: yields_def grounded_parts)
  qed
qed

lemma vec_yields:
  assumes "ok_state s" and "vec cl n st u ui off s = Inr (t, s')"
  shows "yields s s' [t]"
proof -
  from assms(2) obtain e inner sz al sq where "cl ui e s = Inr (inner, s')" "t = TVec inner sz al sq"
    by (auto simp: vec_def bindR_eq_Inr Let_def split: option.splits)
  then show ?thesis using cl_yields [OF assms(1)] by (fastforce simp: yields_def grounded_parts)
qed

lemma btree_map_yields:
  assumes "ok_state s" and "btree_map cl n slide st u ui off s = Inr (t, s')"
  shows "yields s s' [t]"
proof -
  from assms(2) obtain k v kt vt ks vs na ia s1 where k: "cl ui k s = Inr (kt, s1)" and v: "cl ui v s1 = Inr (vt, s')"
    and t: "t = TMap kt ks vt vs na ia"
    by (auto simp: btree_map_def bindR_eq_Inr Let_def split: option.splits)
  have y1: "yields s s1 [kt]" using cl_yields [OF assms(1) k] .
  moreover have "yields s1 s' [vt]" using y1 cl_yields [OF _ v] by (simp add: yields_def)
  ultimately have "yields s s' ([kt] @ [vt])" by (rule yields_trans)
  then show ?thesis using t by (auto simp: yields_def grounded_parts)
qed

lemma members_yields:
  "ok_state s \<Longrightarrow> members cl n u ui ms s = Inr (fs, s') \<Longrightarrow> yields s s' (map f_ty fs)"
proof (induction ms arbitrary: s fs)
  case Nil
  then show ?case by (simp add: yields_none)
next
  case (Cons m ms)
  from Cons.prems(2) consider "members cl n u ui ms s = Inr (fs, s')"
    | t1 s1 fs1 k where "cl ui t1 s = Inr (k, s1)" "members cl n u ui ms s1 = Inr (fs1, s')"
        "map f_ty fs = k # map f_ty fs1"
    | fs1 where "members cl n u ui ms s = Inr (fs1, s')" "map f_ty fs = TUnknown ''?'' # map f_ty fs1"
    by (fastforce simp: bindR_eq_Inr Let_def split: if_splits option.splits)
  then show ?case
  proof cases
    case 1
    then show ?thesis using Cons by simp
  next
    case 2
    have y1: "yields s s1 [k]" using cl_yields [OF Cons.prems(1) 2(1)] .
    moreover have "yields s1 s' (map f_ty fs1)" using y1 Cons.IH [OF _ 2(2)] by (simp add: yields_def)
    ultimately have "yields s s' ([k] @ map f_ty fs1)" by (rule yields_trans)
    then show ?thesis using 2(3) by simp
  next
    case 3
    have "yields s s [TUnknown ''?'']" using yields_leaf [OF Cons.prems(1)] by simp
    then have "yields s s' ([TUnknown ''?''] @ map f_ty fs1)"
      using yields_trans Cons.IH [OF Cons.prems(1) 3(1)] by blast
    then show ?thesis using 3(2) by simp
  qed
qed

text \<open>The payload found so far, as a list of types.\<close>

definition payload :: "variants \<Rightarrow> ty list" where
  "payload vs = (case v_some vs of Some (_, _, t) \<Rightarrow> [t] | None \<Rightarrow> [])"

lemma variant_step_yields:
  assumes "variant_step cl n u ui v (vs, s) = Inr (vs', s')" and "yields s0 s (payload vs)"
  shows "yields s0 s' (payload vs')"
proof -
  from assms(1) consider "s' = s" "payload vs' = payload vs"
    | k t where "cl ui k s = Inr (t, s')" "payload vs' = [t]"
    by (fastforce simp: variant_step_def payload_def bindR_eq_Inr Let_def split: if_splits option.splits)
  then show ?thesis
  proof cases
    case 1
    then show ?thesis using assms(2) by simp
  next
    case 2
    have "yields s s' [t]" using assms(2) cl_yields [OF _ 2(1)] by (simp add: yields_def)
    from yields_trans [OF assms(2) this] show ?thesis using 2(2) by (simp add: yields_def)
  qed
qed

lemma variants_yield:
  "fold_res (variant_step cl n u ui) vs (r, s) = Inr (r', s') \<Longrightarrow> yields s0 s (payload r) \<Longrightarrow> yields s0 s' (payload r')"
proof (induction vs arbitrary: r s)
  case (Cons v vs)
  from Cons.prems(1) obtain r1 s1 where "variant_step cl n u ui v (r, s) = Inr (r1, s1)"
    "fold_res (variant_step cl n u ui) vs (r1, s1) = Inr (r', s')" by (auto simp: bindR_eq_Inr)
  then show ?case using Cons.IH variant_step_yields Cons.prems(2) by blast
qed simp

lemma parse_option_yields:
  assumes "ok_state s" and "parse_option cl n u ui off vp name s = Inr (t, s')"
  shows "yields s s' [t]"
proof -
  have leaf: "yields s s []" by (rule yields_none [OF assms(1)])
  from assms(2) consider "s' = s" "ty_cells t = []"
    | vs r where "fold_res (variant_step cl n u ui) vs (\<lparr>v_none = None, v_some = None\<rparr>, s) = Inr (r, s')"
        "ty_cells t = [] \<or> (\<exists>a b c d e f. t = TOpt a b c d e f (hd (payload r)) \<and> payload r \<noteq> [])"
    by (fastforce simp: parse_option_def bindR_eq_Inr Let_def payload_def split: option.splits aval.splits)
  then show ?thesis
  proof cases
    case 1
    then show ?thesis using yields_leaf [OF assms(1)] by simp
  next
    case 2
    have "yields s s' (payload r)" using variants_yield [OF 2(1)] leaf by (simp add: payload_def)
    then show ?thesis using 2(2) by (fastforce simp: yields_def grounded_parts grounded_def ty_cells.simps)
  qed
qed

lemma structure_ty_yields:
  assumes "ok_state s" and "structure_ty cl n slide st u ui off name s = Inr (t, s')"
  shows "yields s s' [t]"
proof -
  from assms(2) consider "s' = s" "ty_cells t = []" | "vec cl n st u ui off s = Inr (t, s')"
    | "btree_map cl n slide st u ui off s = Inr (t, s')"
    | vp where "parse_option cl n u ui off vp name s = Inr (t, s')"
    | ms fs where "members cl n u ui ms s = Inr (fs, s')" "t = aggregate name fs"
    by (fastforce simp: structure_ty_def bindR_eq_Inr split: if_splits option.splits)
  then show ?thesis
  proof cases
    case 1
    then show ?thesis using yields_leaf [OF assms(1)] by simp
  next
    case 2
    then show ?thesis by (rule vec_yields [OF assms(1)])
  next
    case 3
    then show ?thesis by (rule btree_map_yields [OF assms(1)])
  next
    case 4
    then show ?thesis by (rule parse_option_yields [OF assms(1)])
  next
    case 5
    then have "yields s s' (map f_ty fs)" using members_yields [OF assms(1)] by simp
    then show ?thesis using 5(2) by (simp add: yields_def grounded_parts aggregate_def)
  qed
qed

lemma type_body_yields:
  assumes "ok_state s" and "type_body cl n slide st u ui off tg name s = Inr (t, s')"
  shows "yields s s' [t]"
  using assms boxed_yields structure_ty_yields yields_leaf [OF assms(1)]
  by (auto simp: type_body_def split: if_splits)

end

section \<open>\<open>classify\<close> keeps the contract\<close>

lemma classify_grounded: "grounded_classifier (classify n slide st)"
proof (induction n)
  case 0
  show ?case by unfold_locales simp
next
  case (Suc n)
  show ?case
  proof
    fix s ui off t s'
    assume s: "ok_state s" and r: "classify (Suc n) slide st ui off s = Inr (t, s')"
    from r consider i j where "classify n slide st i j s = Inr (t, s')"
      | key c where "t = TRef c" "s' = s" "memo s key = Some c"
      | key c s1 s2 u i j tg nm where "memo s key = None" "enter key s = (c, s1)"
          "type_body (classify n slide st) n slide st u i j tg nm s1 = Inr (t, s2)" "s' = leave key c t s2"
      by (fastforce simp: bindR_eq_Inr split: if_splits option.splits prod.splits)
    then show "yields s s' [t]"
    proof cases
      case 1
      then show ?thesis by (rule grounded_classifier.cl_yields [OF Suc s])
    next
      case 2
      then show ?thesis using s ranI [of "memo s" key c] by (simp add: yields_def grounded_def live_cells_def)
    next
      case 3
      then show ?thesis
        using leave_yields [OF s 3(1,2)] grounded_classifier.type_body_yields [OF Suc enter_ok(1) [OF s 3(1,2)] 3(3)] by simp
    qed
  qed
qed

interpretation classifying: grounded_classifier "classify n slide st" for n slide st
  by (rule classify_grounded)

section \<open>A recursive type\<close>

text \<open>\<^verbatim>\<open>struct N { b: Box<N> }\<close>, with a declaration stub of \<^verbatim>\<open>N\<close> in a second unit and a pointer to that stub.\<close>

definition list_store :: dstore where
  "list_store =
     [Die 1 (DW_TAG_other 17) [] []
        [Die 2 DW_TAG_structure_type [(DW_AT_name, StrVal [78]), (DW_AT_byte_size, Udata 8), (DW_AT_alignment, Udata 8)] []
           [Die 3 DW_TAG_member [(DW_AT_name, StrVal [98]), (DW_AT_type, UnitRef 4), (DW_AT_data_member_location, Udata 0)] [] []],
         Die 4 DW_TAG_pointer_type [(DW_AT_name, StrVal [112]), (DW_AT_type, UnitRef 2)] [] []],
      Die 1 (DW_TAG_other 17) [] []
        [Die 2 DW_TAG_structure_type [(DW_AT_name, StrVal [78]), (DW_AT_declaration, Flag True)] [] [],
         Die 3 DW_TAG_pointer_type [(DW_AT_name, StrVal [112]), (DW_AT_type, UnitRef 2)] [] []]]"

text \<open>The stub is redirected to the definition; one cell of the two is tied, the one of \<^verbatim>\<open>N\<close>.\<close>

abbreviation list_ty :: ty where
  "list_ty \<equiv> TStruct [78] [Field [98] 0 (TBoxed (TRef 0) 8 8)]"

definition result_view :: "(ty \<times> cstate) res \<Rightarrow> (ty \<times> ty option list) option" where
  "result_view r = (case r of
      Inr (t, s) \<Rightarrow> Some (t, map (cell_body (cells s)) [0..<next_cell (cells s)])
    | Inl e \<Rightarrow> None)"

lemma list_store_view: "result_view (classify 5 0 list_store 1 2 no_state) = Some (list_ty, [Some list_ty, None])"
  by code_simp

lemma list_store_result:
  obtains s' where "classify 5 0 list_store 1 2 no_state = Inr (list_ty, s')" "cell_body (cells s') 0 = Some list_ty"
    "next_cell (cells s') = 2"
proof -
  obtain s' where s': "classify 5 0 list_store 1 2 no_state = Inr (list_ty, s')"
    "map (cell_body (cells s')) [0..<next_cell (cells s')] = [Some list_ty, None]"
    using list_store_view by (auto simp: result_view_def split: sum.splits)
  moreover from arg_cong [OF s'(2), of length] have n: "next_cell (cells s') = 2" by simp
  moreover have "cell_body (cells s') 0 = Some list_ty" using s'(2) unfolding n by (simp add: upt_rec)
  ultimately show ?thesis using that by blast
qed

section \<open>The properties\<close>

lemma no_state_ok [simp]: "ok_state no_state"
  by (simp add: ok_state_def no_state_def no_cells_def)

text \<open>C29: the memo is a stack discipline and the cells are write-once: after \<^verbatim>\<open>classify\<close> the memo of types under construction is exactly what it was before, a cell that existed keeps its contents (set or not), and the invariant of the walk holds again.\<close>

theorem classify_restores:
  assumes "ok_state s" and "classify n slide st ui off s = Inr (t, s')"
  shows "ok_state s' \<and> memo s' = memo s
    \<and> (\<forall>c < next_cell (cells s). cell_body (cells s') c = cell_body (cells s) c)"
  using classifying.cl_yields [OF assms] by (simp add: yields_def evolves_def)

theorem classify_restores_witness:
  "\<exists>s'. classify 5 0 list_store 1 2 no_state = Inr (list_ty, s') \<and> memo s' = Map.empty"
proof -
  obtain s' where "classify 5 0 list_store 1 2 no_state = Inr (list_ty, s')" by (rule list_store_result)
  with classify_restores [OF no_state_ok this] show ?thesis by (simp add: no_state_def)
qed

text \<open>C11: no knot is left untied: when \<^verbatim>\<open>classify\<close> is called with no type under construction, every \<^verbatim>\<open>Ty::Ref\<close> in the result, and in the body of any cell, has a body, so \<^verbatim>\<open>RecCell::get\<close> never panics on what was classified and the layout is closed, as the compiler needs it to be.\<close>

theorem classify_closed:
  assumes "ok_state s" and "memo s = Map.empty" and "classify n slide st ui off s = Inr (t, s')"
  shows "closed (cell_body (cells s')) t \<and> memo s' = Map.empty"
proof -
  have y: "ok_state s'" "memo s' = Map.empty" "grounded s' t"
    using classifying.cl_yields [OF assms(1,3)] assms(2) by (simp_all add: yields_def evolves_def)
  have "dom (cell_body (cells s')) \<subseteq> {..<next_cell (cells s')}" using y(1) by (auto simp: ok_state_def)
  then have "finite (dom (cell_body (cells s')))" by (rule finite_subset) simp
  then show ?thesis using y by (auto simp: closed_def grounded_def ok_state_def live_cells_def)
qed


theorem classify_closed_witness:
  "\<exists>s'. classify 5 0 list_store 1 2 no_state = Inr (list_ty, s') \<and> cell_body (cells s') 0 = Some list_ty
     \<and> closed (cell_body (cells s')) list_ty"
proof -
  obtain s' where s': "classify 5 0 list_store 1 2 no_state = Inr (list_ty, s')" "cell_body (cells s') 0 = Some list_ty"
    by (rule list_store_result)
  from classify_closed [OF no_state_ok _ s'(1)] s' show ?thesis by (simp add: no_state_def)
qed

end
