(* ===== verification/Classify_Ends.thy ===== *)
theory Classify_Ends
  imports Classify_Cells
begin

text \<open>
  Termination of \<^verbatim>\<open>classify\<close>: on debug information whose chains of references end (names and types
  along origins, typedefs and qualifiers, nested transparent wrappers), it ends for every type,
  recursive types included, because each nested call either finds its type in the memo or adds it.
\<close>

section \<open>Runs that end\<close>

definition ends_run :: "'a res \<Rightarrow> bool" where
  "ends_run r \<longleftrightarrow> r \<noteq> Inl OutOfFuel"

named_theorems ending

lemma ends_Inr [simp, ending]: "ends_run (Inr x)"
  by (simp add: ends_run_def)

lemma ends_Panic [simp, ending]: "ends_run (Inl (Panic m))"
  by (simp add: ends_run_def)

lemma ends_bind [ending]: "ends_run m \<Longrightarrow> (\<And>x. m = Inr x \<Longrightarrow> ends_run (f x)) \<Longrightarrow> ends_run (bindR m f)"
  by (cases m) (auto simp: ends_run_def)

lemma ends_if [ending]: "(b \<Longrightarrow> ends_run x) \<Longrightarrow> (\<not> b \<Longrightarrow> ends_run y) \<Longrightarrow> ends_run (if b then x else y)"
  by simp

lemma ends_option [ending]:
  "(v = None \<Longrightarrow> ends_run x) \<Longrightarrow> (\<And>z. v = Some z \<Longrightarrow> ends_run (f z)) \<Longrightarrow> ends_run (case v of None \<Rightarrow> x | Some z \<Rightarrow> f z)"
  by (cases v) auto

lemma ends_pair [ending]: "(\<And>a b. p = (a, b) \<Longrightarrow> ends_run (f a b)) \<Longrightarrow> ends_run (case p of (a, b) \<Rightarrow> f a b)"
  by (cases p) auto

lemma ends_expect [simp, ending]: "ends_run (expect x m)"
  by (cases x) auto

lemma ends_idx [simp, ending]: "ends_run (idx xs i)"
  by (simp add: idx_def)

lemma ends_tag [simp, ending]: "ends_run (tag u off)"
  unfolding tag_def by (intro ending)

lemma ends_child_offsets [simp, ending]: "ends_run (child_offsets u off)"
  unfolding child_offsets_def by (intro ending)

lemma ends_add_usize [simp, ending]: "ends_run (add_usize a b)"
  by (simp add: add_usize_def)

lemma ends_align_of [simp, ending]: "ends_run (align_of u off sz)"
  unfolding align_of_def next_power_of_two_def by (auto split: option.splits)

lemma ends_str_slice [simp, ending]: "ends_run (str_slice s a b)"
  by (simp add: str_slice_def)

lemma ends_find_res [ending]: "(\<And>x. x \<in> set xs \<Longrightarrow> ends_run (p x)) \<Longrightarrow> ends_run (find_res p xs)"
  by (induction xs) (auto intro!: ending)

lemma ends_child_with_tag [simp, ending]: "ends_run (child_with_tag u off t)"
  unfolding child_with_tag_def by (intro ending)

lemma ends_is_stub [simp, ending]: "ends_run (is_stub u off)"
  unfolding is_stub_def by (intro ending)

section \<open>Chains of references\<close>

text \<open>The wrapped type of a layout-transparent wrapper, if \<open>(ui, off)\<close> is one.\<close>

definition inner_of :: "nat \<Rightarrow> dstore \<Rightarrow> nat \<Rightarrow> nat \<Rightarrow> (nat \<times> nat) option res" where
  "inner_of n st ui off =
     bindR (idx st ui) (\<lambda>u.
     bindR (strip n u off) (\<lambda>off.
     bindR (def_site n st ui off) (\<lambda>(ui, off).
     bindR (idx st ui) (\<lambda>u.
     bindR (name_or_empty n u off) (\<lambda>name.
       if is_transparent name then
         bindR (template_param n u off) (\<lambda>inner. Inr (map_option (Pair ui) inner))
       else Inr None)))))"

fun unwraps :: "nat \<Rightarrow> nat \<Rightarrow> dstore \<Rightarrow> nat \<Rightarrow> nat \<Rightarrow> bool" where
  "unwraps 0 n st ui off = False"
| "unwraps (Suc k) n st ui off =
     (case inner_of n st ui off of Inr (Some (ui', i)) \<Rightarrow> unwraps k n st ui' i | _ \<Rightarrow> True)"

text \<open>\<open>N\<close> bounds the chains from entry to entry, \<open>R\<close> the nesting of transparent wrappers.\<close>

definition chains_end :: "nat \<Rightarrow> nat \<Rightarrow> dstore \<Rightarrow> bool" where
  "chains_end N R st \<longleftrightarrow> 0 < N \<and> 0 < R
     \<and> list_all (\<lambda>u. list_all (\<lambda>d. ends_run (die_name N u (d_off d)) \<and> ends_run (type_ref N u (d_off d))
          \<and> ends_run (strip N u (d_off d))) (dfs u)) st
     \<and> list_all (\<lambda>(ui, u). list_all (\<lambda>d. unwraps R N st ui (d_off d)) (dfs u)) (enumerate 0 st)"

lemma entry_in: "entry u off = Some d \<Longrightarrow> d \<in> set (dfs u) \<and> d_off d = off"
  by (auto simp: entry_def find_Some_iff)

lemma chains_ends:
  assumes "chains_end N R st" and "u \<in> set st"
  shows "ends_run (die_name N u off)" and "ends_run (type_ref N u off)" and "ends_run (strip N u off)"
proof -
  obtain M where M: "N = Suc M" using assms(1) by (cases N) (auto simp: chains_end_def)
  consider "entry u off = None" | d where "d \<in> set (dfs u)" "d_off d = off"
    using entry_in by (cases "entry u off") auto
  then have "ends_run (die_name N u off) \<and> ends_run (type_ref N u off) \<and> ends_run (strip N u off)"
  proof cases
    case 1
    then show ?thesis by (simp add: M tag_def)
  next
    case 2
    then show ?thesis using assms by (auto simp: chains_end_def list_all_iff)
  qed
  then show "ends_run (die_name N u off)" "ends_run (type_ref N u off)" "ends_run (strip N u off)" by simp_all
qed

text \<open>More fuel changes nothing.\<close>

lemma die_name_more: "ends_run (die_name n u off) \<Longrightarrow> n \<le> m \<Longrightarrow> die_name m u off = die_name n u off"
proof (induction n arbitrary: off m)
  case (Suc n)
  then obtain m' where m: "m = Suc m'" "n \<le> m'" by (cases m) auto
  have "die_name m' u x = die_name n u x"
    if "entry u off = Some d" "attr_value d DW_AT_name = None" "origin u off = Some x" for d x
    by (rule Suc.IH [OF _ m(2)]) (use Suc.prems(1) that in simp)
  then show ?case unfolding m(1) by (simp split: option.splits)
qed (simp add: ends_run_def)

lemma type_ref_more: "ends_run (type_ref n u off) \<Longrightarrow> n \<le> m \<Longrightarrow> type_ref m u off = type_ref n u off"
proof (induction n arbitrary: off m)
  case (Suc n)
  then obtain m' where m: "m = Suc m'" "n \<le> m'" by (cases m) auto
  show ?case
  proof (cases "\<exists>d x. entry u off = Some d \<and> (\<forall>y. attr_value d DW_AT_type \<noteq> Some (UnitRef y)) \<and> origin u off = Some x")
    case True
    then obtain d x where d: "entry u off = Some d" "\<forall>y. attr_value d DW_AT_type \<noteq> Some (UnitRef y)" "origin u off = Some x"
      by blast
    then have step: "type_ref (Suc k) u off = type_ref k u x" for k by (auto split: option.splits aval.splits)
    from Suc.IH [OF Suc.prems(1) [unfolded step] m(2)] show ?thesis unfolding m(1) step .
  next
    case False
    then show ?thesis unfolding m(1) by (fastforce split: option.splits aval.splits)
  qed
qed (simp add: ends_run_def)

lemma strip_more: "ends_run (strip n u off) \<Longrightarrow> n \<le> m \<Longrightarrow> strip m u off = strip n u off"
proof (induction n arbitrary: off m)
  case (Suc n)
  then obtain m' where m: "m = Suc m'" "n \<le> m'" by (cases m) auto
  consider x t where "tag u off = Inr t" "t \<in> {DW_TAG_typedef, DW_TAG_const_type, DW_TAG_volatile_type, DW_TAG_restrict_type}"
      "type_ref n u off = Inr (Some x)"
    | "\<And>k. n \<le> k \<Longrightarrow> strip (Suc k) u off = strip (Suc n) u off"
  proof (cases "tag u off")
    case (Inr t)
    show thesis
    proof (cases "t \<in> {DW_TAG_typedef, DW_TAG_const_type, DW_TAG_volatile_type, DW_TAG_restrict_type}")
      case True
      then have e: "ends_run (type_ref n u off)" using Suc.prems(1) Inr by (cases "type_ref n u off") (auto simp: ends_run_def)
      show thesis
      proof (cases "\<exists>x. type_ref n u off = Inr (Some x)")
        case False
        have "strip (Suc k) u off = strip (Suc n) u off" if k: "n \<le> k" for k
        proof -
          have "type_ref k u off = type_ref n u off" by (rule type_ref_more [OF e k])
          then show ?thesis using False Inr True by (cases "type_ref n u off") (auto split: option.splits)
        qed
        then show thesis by (rule that(2))
      qed (use that(1) [OF Inr True] in blast)
    qed (use that(2) Inr in simp)
  qed (use that(2) in simp)
  then show ?case
  proof cases
    case 1
    have "type_ref m' u off = Inr (Some x)" using type_ref_more [of n u off m'] m(2) 1(3) by simp
    then have step: "strip (Suc m') u off = strip m' u x" "strip (Suc n) u off = strip n u x" using 1 by auto
    from Suc.IH [OF Suc.prems(1) [unfolded step(2)] m(2)] show ?thesis unfolding m(1) step .
  next
    case 2
    show ?thesis unfolding m(1) by (rule 2 [OF m(2)])
  qed
qed (simp add: ends_run_def)


section \<open>The helpers end\<close>

definition good_unit :: "nat \<Rightarrow> dunit \<Rightarrow> bool" where
  "good_unit n u \<longleftrightarrow> (\<forall>off. ends_run (die_name n u off) \<and> ends_run (type_ref n u off) \<and> ends_run (strip n u off))"

definition good_store :: "nat \<Rightarrow> dstore \<Rightarrow> bool" where
  "good_store n st \<longleftrightarrow> (\<forall>u \<in> set st. good_unit n u)"

lemma good_storeI: "chains_end N R st \<Longrightarrow> N \<le> n \<Longrightarrow> good_store n st"
  unfolding good_store_def good_unit_def
  by (metis chains_ends die_name_more type_ref_more strip_more)

lemma good_unitD [ending]:
  "good_unit n u \<Longrightarrow> ends_run (die_name n u off)" "good_unit n u \<Longrightarrow> ends_run (type_ref n u off)"
  "good_unit n u \<Longrightarrow> ends_run (strip n u off)"
  by (simp_all add: good_unit_def)

lemma idx_in: "idx st ui = Inr u \<Longrightarrow> u \<in> set st"
  by (auto simp: idx_def split: if_splits)

lemma good_idx: "good_store n st \<Longrightarrow> idx st ui = Inr u \<Longrightarrow> good_unit n u"
  using idx_in by (metis good_store_def)

lemma ends_name_or_empty [ending]: "good_unit n u \<Longrightarrow> ends_run (name_or_empty n u off)"
  unfolding name_or_empty_def by (auto intro!: ending)

lemma ends_template_param [ending]: "good_unit n u \<Longrightarrow> ends_run (template_param n u off)"
  unfolding template_param_def by (auto intro!: ending)

lemma ends_template_named [ending]: "good_unit n u \<Longrightarrow> ends_run (template_named n u off want)"
  unfolding template_named_def by (auto intro!: ending)

lemma ends_def_site [ending]: "good_store n st \<Longrightarrow> ends_run (def_site n st ui off)"
  unfolding def_site_def by (auto intro!: ending dest: good_idx)

lemma ends_first_field [ending]: "good_unit n u \<Longrightarrow> ends_run (first_field n u ps)"
  unfolding first_field_def by (auto intro!: ending)

lemma ends_walk_members:
  assumes g: "good_store n st"
    and sub: "\<And>mt abs s. depth \<le> 16 \<Longrightarrow> ends_run (walk_seq n st ui mt abs s (depth + 1))"
  shows "ends_run (walk_members n st ui ms base s depth)"
proof (induction ms arbitrary: s)
  case (Cons m ms)
  show ?case
    unfolding walk_members.simps
    by (intro ending Cons.IH; (rule good_idx [OF g], assumption)?) (use sub in auto)
qed simp

lemma ends_walk_seq:
  assumes g: "good_store n st"
  shows "ends_run (walk_seq n st ui off base s depth)"
proof (induction "17 - depth" arbitrary: depth ui off base s rule: less_induct)
  case less
  have sub: "ends_run (walk_seq n st ui mt abs s (depth + 1))" if "depth \<le> 16" for ui mt abs s
    by (rule less) (use that in simp)
  show ?case
    by (subst walk_seq.simps) (intro ending g ends_walk_members [OF g sub]; (rule good_idx [OF g], assumption)?; assumption?)
qed

lemma ends_seq_layout [ending]: "good_store n st \<Longrightarrow> ends_run (seq_layout n st ui off)"
  unfolding seq_layout_def by (auto intro!: ending ends_walk_seq)

lemma ends_str_members: "good_unit n u \<Longrightarrow> ends_run (str_members n u ms r)"
  by (induction ms arbitrary: r) (auto intro!: ending simp: Let_def)

lemma ends_str_ref_offsets [ending]: "good_unit n u \<Longrightarrow> ends_run (str_ref_offsets n u off)"
  unfolding str_ref_offsets_def by (auto intro!: ending ends_str_members)

lemma ends_tramp_in: "good_unit n u \<Longrightarrow> ends_run (tramp_in n slide u pre want match_v ds)"
  by (induction ds) (auto intro!: ending simp: Let_def split: option.splits aval.splits)

lemma ends_resolve_tramp [ending]: "good_store n st \<Longrightarrow> ends_run (resolve_tramp n slide st pre v_name match_v)"
  unfolding resolve_tramp_def good_store_def
  by (induction st) (auto intro!: ending ends_tramp_in)

section \<open>The contract of the recursive call\<close>

locale ending_classifier =
  fixes cl :: classifier and n :: nat and st :: dstore and keep :: "cstate \<Rightarrow> bool"
  assumes cl_ends: "keep s \<Longrightarrow> ends_run (cl ui off s)"
    and cl_keeps: "keep s \<Longrightarrow> cl ui off s = Inr (t, s') \<Longrightarrow> keep s'"
    and good: "keep s \<Longrightarrow> good_store n st"
begin

lemma boxed_ends: "keep s \<Longrightarrow> good_unit n u \<Longrightarrow> ends_run (boxed cl n u ui off name s)"
  unfolding boxed_def by (auto intro!: ending cl_ends simp: Let_def)

lemma vec_ends: "keep s \<Longrightarrow> good_unit n u \<Longrightarrow> ends_run (vec cl n st u ui off s)"
  unfolding vec_def using good [of s] by (auto intro!: ending cl_ends simp: Let_def)

lemma btree_map_ends: "keep s \<Longrightarrow> good_unit n u \<Longrightarrow> ends_run (btree_map cl n slide st u ui off s)"
  unfolding btree_map_def using good [of s] by (auto intro!: ending cl_ends simp: Let_def intro: cl_keeps)

lemma members_end: "keep s \<Longrightarrow> good_unit n u \<Longrightarrow> ends_run (members cl n u ui ms s)"
proof (induction ms arbitrary: s)
  case (Cons m ms)
  have "ends_run (members cl n u ui ms s1)"
    if "(case ft of Some t \<Rightarrow> cl ui t s | None \<Rightarrow> Inr (TUnknown ''?'', s)) = Inr (t1, s1)" for ft t1 s1
  proof (rule Cons.IH [OF _ Cons.prems(2)])
    show "keep s1" using that Cons.prems(1) cl_keeps [of s ui] by (cases ft) auto
  qed
  then show ?case using Cons by (auto intro!: ending cl_ends simp: Let_def)
qed simp

lemma variant_step_ends: "keep s \<Longrightarrow> good_unit n u \<Longrightarrow> ends_run (variant_step cl n u ui v (vs, s))"
  unfolding variant_step_def by (auto intro!: ending cl_ends simp: Let_def)

lemma variant_step_keeps:
  assumes "keep s" and "variant_step cl n u ui v (vs, s) = Inr (vs', s')"
  shows "keep s'"
proof -
  from assms(2) consider "s' = s" | x t where "cl ui x s = Inr (t, s')"
    by (fastforce simp: variant_step_def bindR_eq_Inr Let_def split: if_splits option.splits)
  then show ?thesis using assms(1) cl_keeps by cases auto
qed

lemma variants_end: "keep s \<Longrightarrow> good_unit n u \<Longrightarrow> ends_run (fold_res (variant_step cl n u ui) vs (r, s))"
  by (induction vs arbitrary: r s) (auto intro!: ending variant_step_ends intro: variant_step_keeps)

lemma parse_option_ends: "keep s \<Longrightarrow> good_unit n u \<Longrightarrow> ends_run (parse_option cl n u ui off vp name s)"
  unfolding parse_option_def by (auto intro!: ending variants_end simp: Let_def split: option.splits aval.splits)

lemma structure_ty_ends: "keep s \<Longrightarrow> good_unit n u \<Longrightarrow> ends_run (structure_ty cl n slide st u ui off name s)"
  unfolding structure_ty_def using good [of s]
  by (auto intro!: ending vec_ends btree_map_ends parse_option_ends members_end)

lemma type_body_ends: "keep s \<Longrightarrow> good_unit n u \<Longrightarrow> ends_run (type_body cl n slide st u ui off t name s)"
  unfolding type_body_def by (auto intro!: boxed_ends structure_ty_ends)

end


section \<open>\<open>classify\<close> ends\<close>

definition keys :: "dstore \<Rightarrow> (nat \<times> nat) set" where
  "keys st = (\<Union>ui < length st. (\<lambda>d. (ui, d_off d)) ` set (dfs (st ! ui)))"

lemma finite_keys [simp]: "finite (keys st)"
  by (simp add: keys_def)

definition count_entries :: "dstore \<Rightarrow> nat" where
  "count_entries st = sum_list (map (length \<circ> dfs) st)"

lemma card_keys: "card (keys st) \<le> count_entries st"
proof -
  have "card (keys st) \<le> (\<Sum>ui < length st. card ((\<lambda>d. (ui, d_off d)) ` set (dfs (st ! ui))))"
    unfolding keys_def by (rule card_UN_le) simp
  also have "\<dots> \<le> (\<Sum>ui < length st. length (dfs (st ! ui)))"
    by (intro sum_mono order_trans [OF card_image_le card_length]) simp
  also have "\<dots> = count_entries st"
    by (simp add: count_entries_def sum_list_sum_nth atLeast0LessThan)
  finally show ?thesis .
qed

lemma key_in: "idx st ui = Inr u \<Longrightarrow> tag u off = Inr t \<Longrightarrow> (ui, off) \<in> keys st"
  by (cases "entry u off") (auto simp: idx_def tag_def keys_def split: if_splits dest!: entry_in)

lemma helpers_more:
  assumes c: "chains_end N R st" and n: "N \<le> n" and u: "u \<in> set st"
  shows "strip n u off = strip N u off" and "name_or_empty n u off = name_or_empty N u off"
    and "template_param n u off = template_param N u off" and "die_name n u off = die_name N u off"
proof -
  have "type_ref n u = type_ref N u" using type_ref_more [OF chains_ends(2) [OF c u] n] by blast
  then show "template_param n u off = template_param N u off" unfolding template_param_def by (rule arg_cong)
  show "strip n u off = strip N u off" "name_or_empty n u off = name_or_empty N u off" "die_name n u off = die_name N u off"
    using strip_more [OF chains_ends(3) [OF c u] n] die_name_more [OF chains_ends(1) [OF c u] n]
    by (simp_all add: name_or_empty_def)
qed

lemma inner_of_more:
  assumes c: "chains_end N R st" and n: "N \<le> n"
  shows "inner_of n st ui off = inner_of N st ui off"
proof -
  have d: "def_site n st ui off = def_site N st ui off" for ui off
    unfolding def_site_def by (intro bindR_cong refl) (simp add: helpers_more(4) [OF c n] idx_in)
  show ?thesis unfolding inner_of_def d
    by (intro bindR_cong refl) (auto simp: helpers_more [OF c n] idx_in intro!: bindR_cong)
qed

lemma unwraps_all:
  assumes c: "chains_end N R st"
  shows "unwraps R N st ui off"
proof (cases "ui < length st \<and> entry (st ! ui) off \<noteq> None")
  case True
  then obtain d where "d \<in> set (dfs (st ! ui))" "d_off d = off" using entry_in by blast
  moreover have "(ui, st ! ui) \<in> set (enumerate 0 st)" using True by (simp add: in_set_enumerate_eq)
  ultimately show ?thesis using c by (fastforce simp: chains_end_def list_all_iff)
next
  case False
  obtain M K where "N = Suc M" "R = Suc K" using c by (cases N; cases R) (auto simp: chains_end_def)
  then show ?thesis using False by (auto simp: inner_of_def idx_def tag_def)
qed

lemma classify_ends_fuel:
  assumes c: "chains_end N R st"
  shows "unwraps k N st ui off \<Longrightarrow> ok_state s \<Longrightarrow> N + card (keys st - dom (memo s)) * Suc R + k \<le> n \<Longrightarrow>
    ends_run (classify n slide st ui off s)"
proof (induction n arbitrary: ui off s k)
  case 0
  then show ?case using c by (simp add: chains_end_def)
next
  case (Suc n)
  obtain k' where k: "k = Suc k'" using Suc.prems(1) by (cases k) auto
  then have n: "N \<le> n" using Suc.prems(3) by simp
  have g: "good_store n st" by (rule good_storeI [OF c n])
  have inner: "ends_run (classify n slide st ui' i s)" if "inner_of n st ui off = Inr (Some (ui', i))" for ui' i
    by (rule Suc.IH [of k']) (use Suc.prems k that inner_of_more [OF c n] in auto)
  have body: "ends_run (type_body (classify n slide st) n slide st u ui' off' t name s1)"
    if u: "idx st ui' = Inr u" "tag u off' = Inr t" and m: "memo s (ui', off') = None" and e: "enter (ui', off') s = (cc, s1)"
    for u ui' off' t name cc s1
  proof -
    note e = enter_ok [OF Suc.prems(2) m e]
    have "keys st - dom (memo s1) \<subset> keys st - dom (memo s)" using e(2) key_in [OF u] m by auto
    then have lt: "card (keys st - dom (memo s1)) < card (keys st - dom (memo s))" by (intro psubset_card_mono) auto
    then have "Suc (card (keys st - dom (memo s1))) * Suc R \<le> card (keys st - dom (memo s)) * Suc R"
      by (intro mult_le_mono1) simp
    then have bound: "N + card (keys st - dom (memo s1)) * Suc R + R \<le> n" using Suc.prems(3) k by simp
    have "ending_classifier (classify n slide st) n st (\<lambda>x. ok_state x \<and> memo x = memo s1)"
    proof
      fix x ui off assume x: "ok_state x \<and> memo x = memo s1"
      show "ends_run (classify n slide st ui off x)"
        by (rule Suc.IH [OF unwraps_all [OF c]]) (use x bound in simp_all)
      show "ok_state x' \<and> memo x' = memo s1" if "classify n slide st ui off x = Inr (t, x')" for t x'
        using classifying.cl_yields [OF conjunct1 [OF x] that] x by (simp add: yields_def evolves_def)
    qed (rule g)
    from ending_classifier.type_body_ends [OF this _ good_idx [OF g u(1)]] e(1) show ?thesis by blast
  qed
  show ?case
    unfolding classify.simps
  proof (intro ending; (rule good_idx [OF g], assumption)?; (rule g)?)
    fix u off1 site ui' off' u' t name i j
    assume "idx st ui = Inr u" "strip n u off = Inr off1" "def_site n st ui off1 = Inr site" "site = (ui', off')"
      "idx st ui' = Inr u'" "name_or_empty n u' off' = Inr name" "is_transparent name"
      "template_param n u' off' = Inr i" "expect i ''no T parameter'' = Inr j"
    then show "ends_run (classify n slide st ui' j s)"
      by (intro inner) (auto simp: inner_of_def expect_def split: option.splits)
  next
    fix ui' off' u' t name
    assume "idx st ui' = Inr u'" "tag u' off' = Inr t" "memo s (ui', off') = None"
    then show "ends_run (let (c, s) = enter (ui', off') s in
        bindR (type_body (classify n slide st) n slide st u' ui' off' t name s)
          (\<lambda>(body, s). Inr (body, leave (ui', off') c body s)))"
      using body by (cases "enter (ui', off') s") (auto intro!: ending)
  qed
qed

text \<open>The states in which fuel \<open>n\<close> is enough: each type not under construction may be entered once more.\<close>

definition fuelled :: "nat \<Rightarrow> nat \<Rightarrow> nat \<Rightarrow> dstore \<Rightarrow> cstate \<Rightarrow> bool" where
  "fuelled N R n st s \<longleftrightarrow> chains_end N R st \<and> ok_state s \<and> N + card (keys st - dom (memo s)) * Suc R + R \<le> n"

lemma classify_ending: "ending_classifier (classify n slide st) n st (fuelled N R n st)"
proof
  fix s ui off assume s: "fuelled N R n st s"
  show "ends_run (classify n slide st ui off s)"
    by (rule classify_ends_fuel [of N R st R]) (use s in \<open>simp_all add: fuelled_def unwraps_all\<close>)
  show "fuelled N R n st s'" if "classify n slide st ui off s = Inr (t, s')" for t s'
    using s classifying.cl_yields [OF _ that] by (simp add: fuelled_def yields_def evolves_def)
  show "good_store n st" by (rule good_storeI [of N R]) (use s in \<open>simp_all add: fuelled_def\<close>)
qed

interpretation ending: ending_classifier "classify n slide st" n st "fuelled N R n st" for n slide st N R
  by (rule classify_ending)

lemma classify_enough_fuel:
  assumes "chains_end N R st" and "ok_state s" and "N + (count_entries st + 1) * Suc R \<le> n"
  shows "ends_run (classify n slide st ui off s)"
proof (rule ending.cl_ends)
  have "card (keys st - dom (memo s)) \<le> count_entries st"
    using card_mono [of "keys st" "keys st - dom (memo s)"] card_keys [of st] by simp
  then have "card (keys st - dom (memo s)) * Suc R \<le> count_entries st * Suc R" by (rule mult_le_mono1)
  then show "fuelled N R n st s" using assms by (simp add: fuelled_def)
qed

text \<open>C10: \<^verbatim>\<open>classify\<close> terminates. On every store whose reference chains end after at most \<open>N\<close> links and whose transparent wrappers nest at most \<open>R\<close> deep, it returns or panics within a fuel that is linear in the number of entries, for every entry, however types refer to each other, because a type under construction is never entered again.\<close>

theorem classify_terminates:
  assumes "chains_end N R st" and "ok_state s" and "N + (count_entries st + 1) * Suc R \<le> n"
  shows "classify n slide st ui off s \<noteq> Inl OutOfFuel"
  using classify_enough_fuel [OF assms] by (simp add: ends_run_def)

theorem classify_terminates_witness: "classify 40 0 list_store 1 2 no_state \<noteq> Inl OutOfFuel"
proof -
  have c: "chains_end 2 1 list_store" by code_simp
  have "count_entries list_store = 7" by code_simp
  then show ?thesis using classify_terminates [OF c no_state_ok, of 40] by simp
qed

end
