(* ===== verification/Resolve_Props.thy ===== *)
theory Resolve_Props
  imports Resolve Classify_Ends
begin

text \<open>
  Properties of the two caches under every interleaving: the hot path always finds its entry, an
  entry never changes, every layout handed out is closed, no schedule deadlocks, and every thread
  ends after at most four steps. The contract of a thread's step is stated once, as an invariant.
\<close>

section \<open>The invariant\<close>

abbreviation quiet :: "cell_store \<Rightarrow> cstate" where
  "quiet cs \<equiv> \<lparr>memo = Map.empty, cells = cs\<rparr>"

definition phase_ok :: "shared \<Rightarrow> nat \<Rightarrow> phase \<Rightarrow> bool" where
  "phase_ok sh i p \<longleftrightarrow> (case p of
      Hot k \<Rightarrow> L2 sh k \<noteq> None \<and> L1_holder sh = Some i
    | Storing k t \<Rightarrow> L2 sh k = Some t
    | Done k t \<Rightarrow> L2 sh k = Some t
    | Missing \<Rightarrow> False
    | _ \<Rightarrow> True)"

definition shared_ok :: "shared \<Rightarrow> bool" where
  "shared_ok sh \<longleftrightarrow> (\<forall>pc k. L1 sh pc = Some k \<longrightarrow> L2 sh k \<noteq> None) \<and> ok_state (quiet (store_cells sh))
     \<and> (\<forall>t \<in> ran (L2 sh). grounded (quiet (store_cells sh)) t)"

definition caches_ok :: "config \<Rightarrow> bool" where
  "caches_ok c \<longleftrightarrow> shared_ok (fst c) \<and> (\<forall>i. phase_ok (fst c) i (snd c i))
     \<and> (\<forall>i. L1_holder (fst c) = Some i \<longrightarrow> (\<exists>k. snd c i = Hot k))"

text \<open>What a step of one thread promises to the others.\<close>

definition step_ok :: "nat \<Rightarrow> shared \<Rightarrow> phase \<Rightarrow> shared \<Rightarrow> phase \<Rightarrow> bool" where
  "step_ok i sh p sh' p' \<longleftrightarrow> shared_ok sh' \<and> phase_ok sh' i p' \<and> L2 sh \<subseteq>\<^sub>m L2 sh'
     \<and> (L1_holder sh' = L1_holder sh \<and> (\<forall>k. p' \<noteq> Hot k) \<and> (\<forall>k. p \<noteq> Hot k)
        \<or> L1_holder sh = None \<and> L1_holder sh' = Some i \<and> (\<exists>k. p' = Hot k)
        \<or> L1_holder sh = Some i \<and> L1_holder sh' = None \<and> (\<forall>k. p' \<noteq> Hot k))"

lemma shared_ok_new_type:
  assumes s: "shared_ok sh" and k: "L2 sh k = None" and c: "classify_key E k (store_cells sh) = Inr (t, s)"
  shows "shared_ok (sh\<lparr>L2 := (L2 sh)(k \<mapsto> t), store_cells := cells s\<rparr>)"
proof -
  have ok: "ok_state (quiet (store_cells sh))" using s by (simp add: shared_ok_def)
  have y: "yields (quiet (store_cells sh)) s [t]"
    by (rule classifying.cl_yields [OF ok c [unfolded classify_key_def]])
  then have q: "s = quiet (cells s)" by (cases s) (simp add: yields_def evolves_def)
  have "grounded s u" if "u \<in> ran (L2 sh)" for u
    using grounded_mono [OF ok] y s that by (auto simp: yields_def shared_ok_def)
  then have "\<forall>u \<in> ran ((L2 sh)(k \<mapsto> t)). grounded s u" using y k by (simp add: yields_def)
  then show ?thesis using s y k unfolding shared_ok_def by (subst (asm) q) (auto simp: yields_def simp flip: q)
qed

lemma step_phase_ok:
  assumes s: "shared_ok sh" and p: "phase_ok sh i p" and st: "step_phase E a i sh p = Some (sh', p')"
  shows "step_ok i sh p sh' p'"
proof (cases p)
  case (Keyed k)
  show ?thesis
  proof (cases "L2_poisoned sh \<or> L2 sh k \<noteq> None \<or> (\<exists>e. classify_key E k (store_cells sh) = Inl e)")
    case True
    then show ?thesis using s st Keyed
      by (auto simp: step_ok_def phase_ok_def shared_ok_def split: if_splits option.splits fault.splits)
  next
    case False
    then obtain t r where c: "classify_key E k (store_cells sh) = Inr (t, r)"
      by (cases "classify_key E k (store_cells sh)") auto
    from shared_ok_new_type [OF s _ c] show ?thesis using False c st Keyed
      by (auto simp: step_ok_def phase_ok_def map_le_def)
  qed
qed (use s p st in \<open>auto simp: step_ok_def phase_ok_def shared_ok_def
    split: if_splits option.splits sum.splits fault.splits\<close>)

lemma phase_ok_other:
  assumes "phase_ok sh j q" and "step_ok i sh p sh' p'" and "i \<noteq> j"
  shows "phase_ok sh' j q"
proof (cases q)
  case (Hot k)
  then show ?thesis using assms map_le_implies_dom_le [of "L2 sh" "L2 sh'"]
    by (auto simp: phase_ok_def step_ok_def)
qed (use assms in \<open>auto simp: phase_ok_def step_ok_def map_le_def dom_def\<close>)

lemma caches_ok_step:
  assumes ok: "caches_ok c" and "step E calls c c'"
  shows "caches_ok c' \<and> L2 (fst c) \<subseteq>\<^sub>m L2 (fst c')"
  using assms(2)
proof cases
  case (step i sh ph sh' p)
  have ok: "shared_ok sh" "\<And>j. phase_ok sh j (ph j)" "\<And>j. L1_holder sh = Some j \<Longrightarrow> \<exists>k. ph j = Hot k"
    using ok step(1) by (simp_all add: caches_ok_def)
  have so: "step_ok i sh (ph i) sh' p" by (rule step_phase_ok [OF ok(1,2) step(3)])
  have "phase_ok sh' j ((ph(i := p)) j)" for j
  proof (cases "i = j")
    case True
    then show ?thesis using so by (simp add: step_ok_def)
  next
    case False
    then show ?thesis using phase_ok_other [OF ok(2) so False] by simp
  qed
  moreover have "\<exists>k. (ph(i := p)) j = Hot k" if "L1_holder sh' = Some j" for j
    using so ok(3) [of j] ok(3) [of i] that by (auto simp: step_ok_def)
  ultimately show ?thesis using so step(1,2) by (simp add: caches_ok_def step_ok_def)
qed

lemma caches_ok_start: "caches_ok start"
  using no_state_ok by (auto simp: caches_ok_def start_def phase_ok_def shared_ok_def no_state_def)

lemma caches_ok_reachable: "reachable_config E calls c \<Longrightarrow> caches_ok c"
  by (induction rule: reachable_config.induct) (use caches_ok_start caches_ok_step in blast)+


section \<open>Progress\<close>

text \<open>Steps a thread has left at most.\<close>

fun steps_left :: "phase \<Rightarrow> nat" where
  "steps_left Start = 4"
| "steps_left Cold = 3"
| "steps_left (Keyed _) = 2"
| "steps_left (Hot _) = 1"
| "steps_left (Storing _ _) = 1"
| "steps_left _ = 0"

lemma step_phase_left: "step_phase E a i sh p = Some (sh', p') \<Longrightarrow> steps_left p' < steps_left p"
  by (cases p) (auto split: if_splits option.splits sum.splits fault.splits)


text \<open>The search for the local ends when the chains of references end.\<close>

lemma ends_sleb_loop: "ends_run (sleb_loop b r s i)"
proof (induction b r s i rule: sleb_loop.induct)
  case (1 b r s i)
  then show ?case
    by (subst sleb_loop.simps) (auto intro!: ending simp: Let_def shl64_def)
qed

lemma ends_sleb128 [simp, ending]: "ends_run (sleb128 b)"
  by (simp add: sleb128_def ends_sleb_loop)

lemma ends_eval_addr [simp, ending]: "ends_run (eval_addr P b r)"
  unfolding eval_addr_def by (auto intro!: ending simp: Let_def split: list.splits)

lemma ends_frame_base_of [simp, ending]: "ends_run (frame_base_of P e x y)"
  unfolding frame_base_of_def by (auto intro!: ending split: list.splits)

lemma ends_visit: "good_unit n (h_unit E) \<Longrightarrow> ends_run (visit n E off h)"
  unfolding visit_def type_name_def addr_of_def by (auto intro!: ending simp: Let_def)

lemma ends_scan_kids:
  assumes g: "good_unit n (h_unit E)" and sub: "\<And>off h. depth \<le> 32 \<Longrightarrow> ends_run (scan n E off (depth + 1) h)"
  shows "ends_run (scan_kids n E offs depth h)"
proof (induction offs arbitrary: h)
  case (Cons off offs)
  show ?case unfolding scan_kids.simps by (intro ending Cons.IH ends_visit [OF g]) (use sub in auto)
qed simp

lemma ends_scan:
  assumes g: "good_unit n (h_unit E)"
  shows "ends_run (scan n E off depth h)"
proof (induction "33 - depth" arbitrary: depth off h rule: less_induct)
  case less
  have sub: "ends_run (scan n E off (depth + 1) h)" if "depth \<le> 32" for off h
    by (rule less) (use that in simp)
  show ?case by (subst scan.simps) (intro ending ends_scan_kids [OF g sub]; assumption?)
qed

lemma ends_local_at_address: "good_unit n u \<Longrightarrow> ends_run (local_at_address n P u sub x y pc ptr)"
  unfolding local_at_address_def
  by (auto intro!: ending ends_scan simp: Let_def split: option.splits aval.splits)

text \<open>The fuel of an environment suffices for its store.\<close>

definition enough_fuel :: "env \<Rightarrow> bool" where
  "enough_fuel E \<longleftrightarrow> (\<exists>N R. chains_end N R (e_store E) \<and> N + (count_entries (e_store E) + 1) * Suc R \<le> e_fuel E)"

lemma find_key_ends:
  assumes "enough_fuel E"
  shows "find_key E c ptr \<noteq> Inl OutOfFuel"
proof -
  obtain N R where "chains_end N R (e_store E)" "N \<le> e_fuel E" using assms by (auto simp: enough_fuel_def)
  then have g: "good_store (e_fuel E) (e_store E)" by (rule good_storeI)
  have "ends_run (find_key E c ptr)"
    unfolding find_key_def by (auto intro!: ending ends_local_at_address good_idx [OF g])
  then show ?thesis by (simp add: ends_run_def)
qed

lemma classify_key_ends: "enough_fuel E \<Longrightarrow> ok_state (quiet cs) \<Longrightarrow> classify_key E k cs \<noteq> Inl OutOfFuel"
  unfolding classify_key_def enough_fuel_def using classify_enough_fuel by (metis ends_run_def)

lemma step_phase_free:
  assumes "enough_fuel E" and "shared_ok sh" and "steps_left p \<noteq> 0" and "L1_holder sh = None \<or> (\<exists>k. p = Hot k)"
  shows "step_phase E a i sh p \<noteq> None"
  using assms find_key_ends [OF assms(1)] classify_key_ends [OF assms(1)]
  by (cases p) (auto simp: shared_ok_def split: option.splits sum.splits fault.splits)

lemma done_closed:
  assumes "reachable_config E calls (sh, ph)" and "ph i = Done k t"
  shows "closed (cell_body (store_cells sh)) t"
proof -
  have ok: "caches_ok (sh, ph)" by (rule caches_ok_reachable [OF assms(1)])
  then have "L2 sh k = Some t" using assms(2) by (auto simp: caches_ok_def phase_ok_def dest: spec [of _ i])
  then have g: "grounded (quiet (store_cells sh)) t" and o: "ok_state (quiet (store_cells sh))"
    using ok ranI [of "L2 sh" k t] by (auto simp: caches_ok_def shared_ok_def)
  have "dom (cell_body (store_cells sh)) \<subseteq> {..<next_cell (store_cells sh)}" using o by (auto simp: ok_state_def)
  then have "finite (dom (cell_body (store_cells sh)))" by (rule finite_subset) simp
  then show ?thesis using g o by (auto simp: closed_def grounded_def ok_state_def live_cells_def)
qed

section \<open>A program\<close>

text \<open>
  \<^verbatim>\<open>struct Node { val: u64, next: Option<Box<Node>> }\<close> and a function with one local
  \<^verbatim>\<open>n: MaybeUninit<Node>\<close> at \<^verbatim>\<open>CFA + 24\<close>.
\<close>

definition node_layout :: ty where
  "node_layout = TStruct (ascii ''Node'')
     [Field (ascii ''val'') 0 (TU 8), Field (ascii ''next'') 8 (TOpt 0 8 0 None 0 8 (TBoxed (TRef 0) 16 8))]"

definition node_unit :: dunit where
  "node_unit =
     Die 1 (DW_TAG_other 17) [] []
       [Die 2 DW_TAG_base_type [(DW_AT_name, StrVal (ascii ''u64'')), (DW_AT_byte_size, Udata 8), (DW_AT_encoding, Encoding 7)] [] [],
        Die 3 DW_TAG_structure_type [(DW_AT_name, StrVal (ascii ''Node'')), (DW_AT_byte_size, Udata 16), (DW_AT_alignment, Udata 8)] []
          [Die 4 DW_TAG_member [(DW_AT_name, StrVal (ascii ''val'')), (DW_AT_type, UnitRef 2), (DW_AT_data_member_location, Udata 0)] [] [],
           Die 5 DW_TAG_member [(DW_AT_name, StrVal (ascii ''next'')), (DW_AT_type, UnitRef 6), (DW_AT_data_member_location, Udata 8)] [] []],
        Die 6 DW_TAG_structure_type [(DW_AT_name, StrVal (ascii ''Option'')), (DW_AT_byte_size, Udata 8)] []
          [Die 7 DW_TAG_variant_part [(DW_AT_discr, UnitRef 8)] []
             [Die 8 DW_TAG_member [(DW_AT_type, UnitRef 2), (DW_AT_data_member_location, Udata 0)] [] [],
              Die 9 DW_TAG_variant [(DW_AT_discr_value, Data 0)] [] [Die 10 DW_TAG_member [(DW_AT_type, UnitRef 13)] [] []],
              Die 11 DW_TAG_variant [] [] [Die 12 DW_TAG_member [(DW_AT_type, UnitRef 14)] [] []]],
           Die 13 DW_TAG_structure_type [(DW_AT_name, StrVal (ascii ''None''))] [] [],
           Die 14 DW_TAG_structure_type [(DW_AT_name, StrVal (ascii ''Some''))] []
             [Die 15 DW_TAG_member [(DW_AT_name, StrVal (ascii ''__0'')), (DW_AT_type, UnitRef 16),
                (DW_AT_data_member_location, Udata 0)] [] []]],
        Die 16 DW_TAG_pointer_type [(DW_AT_name, StrVal (ascii ''Box'')), (DW_AT_type, UnitRef 3)] [] [],
        Die 17 DW_TAG_subprogram [(DW_AT_name, StrVal (ascii ''main'')), (DW_AT_frame_base, Exprloc [0x9C])] [(100, 200)]
          [Die 18 DW_TAG_variable [(DW_AT_name, StrVal (ascii ''n'')), (DW_AT_type, UnitRef 19), (DW_AT_location, Exprloc [0x91, 24])] [] []],
        Die 19 DW_TAG_union_type [(DW_AT_name, StrVal (ascii ''MaybeUninit<Node>''))] []
          [Die 20 DW_TAG_template_type_parameter [(DW_AT_name, StrVal (ascii ''T'')), (DW_AT_type, UnitRef 3)] [] []]]"

definition node_env :: env where
  "node_env = \<lparr>e_fuel = 80, e_regs = linux_regs, e_slide = 0, e_store = [node_unit]\<rparr>"

definition node_calls :: "nat \<Rightarrow> call" where
  "node_calls = (\<lambda>_. \<lparr>c_pc = 150, c_caller = \<lparr>static_pc = 150, caller_fp = 0, caller_sp = 1000\<rparr>, c_ptr = 1024\<rparr>)"

lemma node_chains: "chains_end 3 2 [node_unit]"
  by code_simp

lemma node_fuel: "enough_fuel node_env"
proof -
  have "count_entries [node_unit] = 20" by code_simp
  then show ?thesis using node_chains unfolding enough_fuel_def node_env_def by (intro exI [of _ 3] exI [of _ 2]) simp
qed

lemma node_key: "find_key node_env \<lparr>static_pc = 150, caller_fp = 0, caller_sp = 1000\<rparr> 1024 = Inr (0, 19)"
  by code_simp

lemma node_view: "result_view (classify_key node_env (0, 19) no_cells) = Some (node_layout, [Some node_layout, None, None, None])"
  by code_simp

text \<open>One thread has run to its end; all others have not begun.\<close>

abbreviation node_done :: "cell_store \<Rightarrow> config" where
  "node_done cs \<equiv> (\<lparr>L1 = [150 \<mapsto> (0, 19)], L2 = [(0, 19) \<mapsto> node_layout], L1_holder = None, L1_poisoned = False,
     L2_poisoned = False, store_cells = cs\<rparr>, (\<lambda>_. Start)(0 := Done (0, 19) node_layout))"

lemma step_thread: "step_phase E (calls i) i sh (ph i) = Some (sh', p) \<Longrightarrow> ph' = ph(i := p) \<Longrightarrow> step E calls (sh, ph) (sh', ph')"
  by (simp add: step.intros)

lemma thread_step:
  assumes "reachable_config E calls (sh, ph)" and "step_phase E (calls i) i sh (ph i) = Some (sh', p)" and "ph' = ph(i := p)"
  shows "reachable_config E calls (sh', ph')"
  by (rule r_step [OF assms(1)]) (rule step_thread [where i = i and ph = ph], rule assms(2), rule assms(3))

lemma node_run:
  obtains cs where "reachable_config node_env node_calls (node_done cs)" "cell_body cs = [0 \<mapsto> node_layout]"
proof -
  obtain s' where s': "classify_key node_env (0, 19) no_cells = Inr (node_layout, s')"
    "map (cell_body (cells s')) [0..<next_cell (cells s')] = [Some node_layout, None, None, None]"
    using node_view by (auto simp: result_view_def split: sum.splits)
  let ?sh = "\<lparr>L1 = Map.empty, L2 = Map.empty, L1_holder = None, L1_poisoned = False, L2_poisoned = False, store_cells = no_cells\<rparr>"
  let ?sh' = "?sh\<lparr>L2 := [(0, 19) \<mapsto> node_layout], store_cells := cells s'\<rparr>"
  have "reachable_config node_env node_calls (?sh, \<lambda>_. Start)" using r_start by (simp add: start_def)
  then have "reachable_config node_env node_calls (?sh, (\<lambda>_. Start)(0 := Cold))"
    by (rule thread_step [where i = 0]) simp_all
  then have "reachable_config node_env node_calls (?sh, (\<lambda>_. Start)(0 := Keyed (0, 19)))"
    by (rule thread_step [where i = 0]) (simp_all add: node_calls_def node_key)
  then have "reachable_config node_env node_calls (?sh', (\<lambda>_. Start)(0 := Storing (0, 19) node_layout))"
    by (rule thread_step [where i = 0]) (simp_all add: s')
  then have r: "reachable_config node_env node_calls (node_done (cells s'))"
    by (rule thread_step [where i = 0]) (simp_all add: node_calls_def)
  have "ok_state (quiet (cells s'))"
    using caches_ok_reachable [OF r] by (simp add: caches_ok_def shared_ok_def)
  then have above: "cell_body (cells s') c = None" if "next_cell (cells s') \<le> c" for c
    using that by (cases "cell_body (cells s') c") (fastforce simp: ok_state_def)+
  have n: "next_cell (cells s') = 4" using arg_cong [OF s'(2), of length] by simp
  have low: "cell_body (cells s') 0 = Some node_layout" "cell_body (cells s') 1 = None" "cell_body (cells s') 2 = None"
    "cell_body (cells s') 3 = None"
    using s'(2) unfolding n by (simp_all add: upt_rec numeral_2_eq_2 numeral_3_eq_3)
  have "cell_body (cells s') c = [0 \<mapsto> node_layout] c" for c
  proof -
    consider "c = 0" | "c = 1" | "c = 2" | "c = 3" | "next_cell (cells s') \<le> c" using n by linarith
    then show ?thesis using low above by cases (auto simp: n)
  qed
  then show ?thesis using that [OF r] by blast
qed

section \<open>The properties\<close>

text \<open>C13: the hot path never misses: in no interleaving of calls from any number of threads does a call find its call site in the first cache and no entry for the type in the second (\<^verbatim>\<open>expect("L2 present")\<close>), even when other calls fail; whatever a call returns is the entry of its type in the second cache.\<close>

theorem hot_path_hits:
  assumes "reachable_config E calls (sh, ph)"
  shows "ph i \<noteq> Missing \<and> (\<forall>pc k. L1 sh pc = Some k \<longrightarrow> L2 sh k \<noteq> None) \<and> (\<forall>k t. ph i = Done k t \<longrightarrow> L2 sh k = Some t)"
  using caches_ok_reachable [OF assms] by (auto simp: caches_ok_def shared_ok_def phase_ok_def dest: spec [of _ i])

theorem hot_path_hits_witness:
  "\<exists>sh ph. reachable_config node_env node_calls (sh, ph) \<and> ph 0 = Done (0, 19) node_layout \<and> L1 sh 150 = Some (0, 19)
     \<and> L2 sh (0, 19) = Some node_layout"
proof -
  obtain cs where r: "reachable_config node_env node_calls (node_done cs)" by (rule node_run)
  have "L2 (fst (node_done cs)) (0, 19) = Some node_layout" using hot_path_hits [OF r, of 0] by simp
  then show ?thesis using r by (intro exI [of _ "fst (node_done cs)"] exI [of _ "snd (node_done cs)"]) simp
qed

text \<open>C14: a type is classified once: an entry of the second cache is never replaced or removed by any step of any thread, so two calls that agree on the type share its layout for the rest of the process.\<close>

theorem types_classified_once:
  assumes "reachable_config E calls c" and "(step E calls)\<^sup>*\<^sup>* c c'"
    and "L2 (fst c) k = Some t"
  shows "L2 (fst c') k = Some t \<and> (\<forall>i j u v. snd c' i = Done k u \<longrightarrow> snd c' j = Done k v \<longrightarrow> u = t \<and> v = t)"
proof -
  have "reachable_config E calls c' \<and> L2 (fst c) \<subseteq>\<^sub>m L2 (fst c')" using assms(2)
  proof (induction rule: rtranclp_induct)
    case base
    then show ?case using assms(1) by simp
  next
    case (step d e)
    then show ?case using caches_ok_step [OF caches_ok_reachable step(2)] r_step map_le_trans by blast
  qed
  then have "L2 (fst c') k = Some t" and ok: "caches_ok c'"
    using assms(3) caches_ok_reachable [of E calls c'] by (metis domI map_le_def, blast)
  moreover have "snd c' i = Done k u \<Longrightarrow> L2 (fst c') k = Some u" for i u
    using ok by (auto simp: caches_ok_def phase_ok_def dest: spec [of _ i])
  ultimately show ?thesis by auto
qed

theorem types_classified_once_witness:
  "\<exists>c :: config. snd c 1 = Done (0, 19) node_layout \<and> snd c 0 = Done (0, 19) node_layout \<and> L2 (fst c) (0, 19) = Some node_layout"
proof -
  obtain cs where r: "reachable_config node_env node_calls (node_done cs)" by (rule node_run)
  let ?sh = "fst (node_done cs)" and ?ph = "snd (node_done cs)"
  have "step node_env node_calls (node_done cs) (?sh\<lparr>L1_holder := Some 1\<rparr>, ?ph(1 := Hot (0, 19)))"
    by (rule step_thread [where i = 1]) (simp_all add: node_calls_def)
  moreover have "step node_env node_calls (?sh\<lparr>L1_holder := Some 1\<rparr>, ?ph(1 := Hot (0, 19)))
      (?sh, (?ph(1 := Hot (0, 19)))(1 := Done (0, 19) node_layout))"
    by (rule step_thread [where i = 1]) simp_all
  ultimately have "(step node_env node_calls)\<^sup>*\<^sup>* (node_done cs) (?sh, (?ph(1 := Hot (0, 19)))(1 := Done (0, 19) node_layout))"
    by (meson rtranclp.rtrancl_refl rtranclp.rtrancl_into_rtrancl)
  then have l: "L2 ?sh (0, 19) = Some node_layout"
    using types_classified_once [OF r, of _ "(0, 19)" node_layout] by simp
  show ?thesis
    by (rule exI [of _ "(?sh, (?ph(1 := Hot (0, 19)))(1 := Done (0, 19) node_layout))"]) (use l in simp)
qed

text \<open>C30: every layout that is handed out is closed: in every reachable state each type in the second cache mentions only cells that have a body, so the compiler's discovery of recursive cells ends on it and no later \<^verbatim>\<open>RecCell::get\<close> panics.\<close>

theorem resolved_closed:
  assumes "reachable_config E calls (sh, ph)" and "ph i = Done k t"
  shows "closed (cell_body (store_cells sh)) t"
  by (rule done_closed [OF assms])

theorem resolved_closed_witness:
  "\<exists>cs. reachable_config node_env node_calls (node_done cs) \<and> closed (cell_body cs) node_layout"
proof -
  obtain cs where r: "reachable_config node_env node_calls (node_done cs)" by (rule node_run)
  from resolved_closed [OF r, of 0] r show ?thesis by auto
qed

text \<open>C16: no deadlock and no livelock: if the chains of references in the debug information end, then in every reachable state in which some call has not ended some thread can take a step, although the hot path takes the second mutex while it holds the first; and each step brings its thread nearer to its end, of which it is never more than four steps away.\<close>

theorem resolve_progress:
  assumes "reachable_config E calls (sh, ph)" and "enough_fuel E" and "steps_left (ph i) \<noteq> 0"
  shows "(\<exists>j sh' p. step E calls (sh, ph) (sh', ph(j := p))) \<and> steps_left (ph i) \<le> 4
    \<and> (\<forall>sh' ph'. step E calls (sh, ph) (sh', ph') \<longrightarrow>
        (\<exists>j. steps_left (ph' j) < steps_left (ph j) \<and> (\<forall>l. l \<noteq> j \<longrightarrow> ph' l = ph l)))"
proof (intro conjI allI impI)
  have ok: "caches_ok (sh, ph)" by (rule caches_ok_reachable [OF assms(1)])
  obtain j where j: "steps_left (ph j) \<noteq> 0" "L1_holder sh = None \<or> (\<exists>k. ph j = Hot k)"
  proof (cases "L1_holder sh")
    case None
    then show ?thesis using that assms(3) by blast
  next
    case (Some a)
    then obtain k where "ph a = Hot k" using ok by (auto simp: caches_ok_def)
    then show ?thesis using that [of a] by auto
  qed
  obtain sh' p where "step_phase E (calls j) j sh (ph j) = Some (sh', p)"
    using step_phase_free [OF assms(2) _ j, of "calls j" j] ok by (auto simp: caches_ok_def)
  then show "\<exists>j sh' p. step E calls (sh, ph) (sh', ph(j := p))" using step.intros by blast
  show "steps_left (ph i) \<le> 4" by (cases "ph i") auto
  fix sh' ph' assume "step E calls (sh, ph) (sh', ph')"
  then show "\<exists>j. steps_left (ph' j) < steps_left (ph j) \<and> (\<forall>l. l \<noteq> j \<longrightarrow> ph' l = ph l)"
  proof (rule stepE)
    fix j s p assume "(sh', ph') = (s, ph(j := p))" "step_phase E (calls j) j sh (ph j) = Some (s, p)"
    then show ?thesis using step_phase_left by (metis fun_upd_apply prod.inject)
  qed
qed

theorem resolve_progress_witness:
  "\<exists>j sh' p. step node_env node_calls start (sh', (\<lambda>_. Start)(j := p))"
  using resolve_progress [OF r_start [unfolded start_def] node_fuel] by (simp add: start_def)



end
