(* ===== verification/Fuel_Stable.thy ===== *)
theory Fuel_Stable
  imports Classify_Ends
begin

text \<open>
  More fuel changes nothing: whatever a reader of the debug information returns with some fuel, it
  returns with the fuel that the longest chain of references needs. Facts about the entries can then
  be stated, and checked, at that one fuel.
\<close>

section \<open>Stable runs\<close>

text \<open>If the first run ends, the second one ends alike.\<close>

definition stable :: "'a res \<Rightarrow> 'a res \<Rightarrow> bool" where
  "stable r r' \<longleftrightarrow> (ends_run r \<longrightarrow> r' = r)"

named_theorems stably

lemma stable_refl [simp, stably]: "stable r r"
  by (simp add: stable_def)

lemma stable_bind [stably]:
  "stable r r' \<Longrightarrow> (\<And>x. r = Inr x \<Longrightarrow> stable (f x) (f' x)) \<Longrightarrow> stable (bindR r f) (bindR r' f')"
  by (cases r) (auto simp: stable_def ends_run_def)

lemma stable_if [stably]: "(b \<Longrightarrow> stable x x') \<Longrightarrow> (\<not> b \<Longrightarrow> stable y y') \<Longrightarrow> stable (if b then x else y) (if b then x' else y')"
  by simp

lemma stable_option [stably]:
  "(v = None \<Longrightarrow> stable x x') \<Longrightarrow> (\<And>z. v = Some z \<Longrightarrow> stable (f z) (f' z)) \<Longrightarrow>
   stable (case v of None \<Rightarrow> x | Some z \<Rightarrow> f z) (case v of None \<Rightarrow> x' | Some z \<Rightarrow> f' z)"
  by (cases v) auto

lemma stable_pair [stably]:
  "(\<And>a b. p = (a, b) \<Longrightarrow> stable (f a b) (f' a b)) \<Longrightarrow> stable (case p of (a, b) \<Rightarrow> f a b) (case p of (a, b) \<Rightarrow> f' a b)"
  by (cases p) auto

lemma stable_find_res [stably]: "(\<And>x. x \<in> set xs \<Longrightarrow> stable (p x) (p' x)) \<Longrightarrow> stable (find_res p xs) (find_res p' xs)"
  by (induction xs) (auto intro!: stably)

section \<open>The readers\<close>

lemma stable_chains [stably]:
  "n \<le> m \<Longrightarrow> stable (die_name n u off) (die_name m u off)"
  "n \<le> m \<Longrightarrow> stable (type_ref n u off) (type_ref m u off)"
  "n \<le> m \<Longrightarrow> stable (strip n u off) (strip m u off)"
  unfolding stable_def by (blast intro: die_name_more type_ref_more strip_more)+

lemma stable_name_or_empty [stably]: "n \<le> m \<Longrightarrow> stable (name_or_empty n u off) (name_or_empty m u off)"
  unfolding name_or_empty_def by (intro stably)

lemma stable_template_param [stably]: "n \<le> m \<Longrightarrow> stable (template_param n u off) (template_param m u off)"
  unfolding template_param_def by (intro stably)

lemma stable_template_named [stably]: "n \<le> m \<Longrightarrow> stable (template_named n u off want) (template_named m u off want)"
  unfolding template_named_def by (intro stably)

lemma stable_tramp_in:
  assumes "n \<le> m"
  shows "stable (tramp_in n slide u pre want match_v ds) (tramp_in m slide u pre want match_v ds)"
proof (induction ds)
  case (Cons d ds)
  have "stable (case z of Addr lo \<Rightarrow> f lo | _ \<Rightarrow> tramp_in n slide u pre want match_v ds)
      (case z of Addr lo \<Rightarrow> f lo | _ \<Rightarrow> tramp_in m slide u pre want match_v ds)" for z f
    using Cons.IH by (cases z) simp_all
  then show ?case unfolding tramp_in.simps Let_def by (intro stably assms Cons.IH)
qed simp

lemma stable_resolve_tramp [stably]:
  assumes "n \<le> m"
  shows "stable (resolve_tramp n slide st pre nm match_v) (resolve_tramp m slide st pre nm match_v)"
  unfolding resolve_tramp_def by (induction st) (auto intro!: stably stable_tramp_in assms)

lemma stable_def_site [stably]: "n \<le> m \<Longrightarrow> stable (def_site n st ui off) (def_site m st ui off)"
  unfolding def_site_def by (intro stably)

lemma stable_first_field [stably]: "n \<le> m \<Longrightarrow> stable (first_field n u ps) (first_field m u ps)"
  unfolding first_field_def by (intro stably)

lemma stable_walk_members:
  assumes n: "n \<le> m"
    and sub: "\<And>mt abs s. depth \<le> 16 \<Longrightarrow> stable (walk_seq n st ui mt abs s (depth + 1)) (walk_seq m st ui mt abs s (depth + 1))"
  shows "stable (walk_members n st ui ms base s depth) (walk_members m st ui ms base s depth)"
proof (induction ms arbitrary: s)
  case (Cons a ms)
  show ?case
    unfolding walk_members.simps by (intro stably n Cons.IH sub) simp
qed simp

lemma stable_walk_seq:
  assumes n: "n \<le> m"
  shows "stable (walk_seq n st ui off base s depth) (walk_seq m st ui off base s depth)"
proof (induction "17 - depth" arbitrary: depth ui off base s rule: less_induct)
  case less
  have sub: "stable (walk_seq n st ui mt abs s (depth + 1)) (walk_seq m st ui mt abs s (depth + 1))" if "depth \<le> 16" for ui mt abs s
    by (rule less) (use that in simp)
  show ?case
    unfolding walk_seq.simps [of n] walk_seq.simps [of m]
    by (intro stably n stable_walk_members [OF n sub])
qed

lemma stable_seq_layout [stably]: "n \<le> m \<Longrightarrow> stable (seq_layout n st ui off) (seq_layout m st ui off)"
  unfolding seq_layout_def by (intro stably stable_walk_seq)

lemma stable_str_members: "n \<le> m \<Longrightarrow> stable (str_members n u ms r) (str_members m u ms r)"
  by (induction ms arbitrary: r) (auto intro!: stably simp: Let_def)

lemma stable_str_ref_offsets [stably]: "n \<le> m \<Longrightarrow> stable (str_ref_offsets n u off) (str_ref_offsets m u off)"
  unfolding str_ref_offsets_def by (intro stably stable_str_members)

section \<open>One fuel for all\<close>

lemma settled:
  assumes "\<And>n m :: nat. n \<le> m \<Longrightarrow> stable (f n) (f m)" and "ends_run (f N)" and "f n = Inr x"
  shows "f N = Inr x"
proof (cases "n \<le> N")
  case True
  then show ?thesis using assms(1) [of n N] assms(3) by (simp add: stable_def)
next
  case False
  then have "N \<le> n" by simp
  then have "f n = f N" using assms(1) [of N n] assms(2) by (simp add: stable_def)
  then show ?thesis using assms(3) by simp
qed

lemma settled_unit:
  assumes "good_unit N u"
  shows "die_name n u off = Inr nm \<Longrightarrow> die_name N u off = Inr nm"
    and "type_ref n u off = Inr t \<Longrightarrow> type_ref N u off = Inr t"
    and "strip n u off = Inr x \<Longrightarrow> strip N u off = Inr x"
    and "name_or_empty n u off = Inr y \<Longrightarrow> name_or_empty N u off = Inr y"
    and "template_param n u off = Inr t \<Longrightarrow> template_param N u off = Inr t"
    and "first_field n u off = Inr t \<Longrightarrow> first_field N u off = Inr t"
    and "str_ref_offsets n u off = Inr w \<Longrightarrow> str_ref_offsets N u off = Inr w"
    and "template_named n u off want = Inr t \<Longrightarrow> template_named N u off want = Inr t"
  using assms
  by (auto intro: stably ending settled [where f = "\<lambda>n. die_name n u off"] settled [where f = "\<lambda>n. type_ref n u off"]
      settled [where f = "\<lambda>n. strip n u off"] settled [where f = "\<lambda>n. name_or_empty n u off"]
      settled [where f = "\<lambda>n. template_param n u off"] settled [where f = "\<lambda>n. first_field n u off"]
      settled [where f = "\<lambda>n. str_ref_offsets n u off"]
      settled [where f = "\<lambda>n. template_named n u off want"])

lemma settled_store:
  assumes "good_store N st"
  shows "def_site n st ui off = Inr k \<Longrightarrow> def_site N st ui off = Inr k"
    and "seq_layout n st ui off = Inr q \<Longrightarrow> seq_layout N st ui off = Inr q"
    and "resolve_tramp n slide st pre nm match_v = Inr r \<Longrightarrow> resolve_tramp N slide st pre nm match_v = Inr r"
  using assms
  by (auto intro: stably ending settled [where f = "\<lambda>n. def_site n st ui off"] settled [where f = "\<lambda>n. seq_layout n st ui off"]
      settled [where f = "\<lambda>n. resolve_tramp n slide st pre nm match_v"])

end
