(* ===== verification/Heap.thy ===== *)
theory Heap
  imports Plan
begin

text \<open>
  Raw memory and the global allocator, as both backends use them: a byte memory, the
  allocator's frontier \<open>brk\<close>, and the multiset of blocks handed out and not yet freed, each
  with the layout it was requested with (what \<^verbatim>\<open>Drop\<close> must give back). Addresses are
  naturals: every address the program computes lies inside an object, far below \<open>2 ^ 64\<close>.
  The allocator moves its frontier up and never reuses memory, one of the behaviours the
  documentation of \<^verbatim>\<open>GlobalAlloc\<close> allows; it does not run out.
\<close>

section \<open>Memory\<close>

type_synonym addr = nat
type_synonym block = "addr \<times> nat \<times> nat"
type_synonym memory = "addr \<Rightarrow> byte"

record heap =
  mem :: memory
  brk :: addr
  live :: "block multiset"

definition load :: "memory \<Rightarrow> addr \<Rightarrow> nat \<Rightarrow> bytes" where
  "load m a n = map m [a..<a + n]"

text \<open>\<^verbatim>\<open>write_bytes\<close> of the interpreter: \<^verbatim>\<open>copy_nonoverlapping\<close> of a slice.\<close>

definition write_bytes :: "addr \<Rightarrow> bytes \<Rightarrow> heap \<Rightarrow> heap" where
  "write_bytes a bs h =
     h\<lparr>mem := \<lambda>x. if a \<le> x \<and> x < a + length bs then bs ! (x - a) else mem h x\<rparr>"

text \<open>\<^verbatim>\<open>write_word\<close>: an unaligned 8-byte little-endian store.\<close>

definition write_word :: "addr \<Rightarrow> nat \<Rightarrow> heap \<Rightarrow> heap" where
  "write_word a v h = write_bytes a (le_bytes 8 v) h"

lemma load_0 [simp]: "load m a 0 = []"
  by (simp add: load_def)

lemma length_load [simp]: "length (load m a n) = n"
  by (simp add: load_def)

lemma nth_load [simp]: "i < n \<Longrightarrow> load m a n ! i = m (a + i)"
  by (simp add: load_def)

lemma load_eqI: "length bs = n \<Longrightarrow> (\<And>i. i < n \<Longrightarrow> m (a + i) = bs ! i) \<Longrightarrow> load m a n = bs"
  by (simp add: list_eq_iff_nth_eq)

lemma load_cong: "(\<And>i. i < n \<Longrightarrow> m (a + i) = m' (b + i)) \<Longrightarrow> load m a n = load m' b n"
  by (simp add: list_eq_iff_nth_eq)

lemma load_Suc: "load m a (Suc n) = m a # load m (Suc a) n"
  by (simp add: load_def upt_conv_Cons del: upt_Suc)

lemma write_bytes_simps [simp]:
  "brk (write_bytes a bs h) = brk h"
  "live (write_bytes a bs h) = live h"
  by (simp_all add: write_bytes_def)

lemma write_bytes_nil [simp]: "write_bytes a [] h = h"
  by (rule heap.equality) (auto simp: write_bytes_def fun_eq_iff)

lemma mem_write_bytes:
  "mem (write_bytes a bs h) x = (if a \<le> x \<and> x < a + length bs then bs ! (x - a) else mem h x)"
  by (simp add: write_bytes_def)

lemma mem_write_outside: "x < a \<or> a + length bs \<le> x \<Longrightarrow> mem (write_bytes a bs h) x = mem h x"
  by (auto simp: mem_write_bytes)

lemma load_write_same: "length bs = n \<Longrightarrow> load (mem (write_bytes a bs h)) a n = bs"
  by (auto intro!: load_eqI simp: mem_write_bytes)

lemma load_write_disjoint:
  "b + n \<le> a \<or> a + length bs \<le> b \<Longrightarrow> load (mem (write_bytes a bs h)) b n = load (mem h) b n"
  by (rule load_cong) (auto simp: mem_write_bytes)

lemma write_word_simps [simp]:
  "brk (write_word a v h) = brk h"
  "live (write_word a v h) = live h"
  by (simp_all add: write_word_def)

lemma mem_write_word_outside: "x < a \<or> a + 8 \<le> x \<Longrightarrow> mem (write_word a v h) x = mem h x"
  by (auto simp: write_word_def intro: mem_write_outside)

lemma load_write_word: "load (mem (write_word a v h)) a 8 = le_bytes 8 v"
  by (simp add: write_word_def load_write_same)

lemma load_write_word_disjoint:
  "b + n \<le> a \<or> a + 8 \<le> b \<Longrightarrow> load (mem (write_word a v h)) b n = load (mem h) b n"
  by (simp add: write_word_def load_write_disjoint)

section \<open>The allocator\<close>

text \<open>
  \<^verbatim>\<open>Layout::from_size_align(..).unwrap()\<close>: the alignment is a power of two, and the size
  rounded up to it does not exceed \<^verbatim>\<open>isize::MAX\<close>.
\<close>

definition is_pow2 :: "nat \<Rightarrow> bool" where
  "is_pow2 a \<longleftrightarrow> a \<noteq> 0 \<and> (\<exists>k \<le> 63. a = 2 ^ k)"

definition layout :: "nat \<Rightarrow> nat \<Rightarrow> unit res" where
  "layout sz al =
     (if is_pow2 al \<and> sz + (al - 1) \<le> 2 ^ 63 - 1 then Inr () else Inl (Panic ''LayoutError''))"

definition align_up :: "nat \<Rightarrow> nat \<Rightarrow> nat" where
  "align_up n al = (n + (al - 1)) div al * al"

text \<open>\<^verbatim>\<open>alloc\<close>: a zero-size layout is undefined behaviour.\<close>

definition alloc :: "nat \<Rightarrow> nat \<Rightarrow> heap \<Rightarrow> (addr \<times> heap) res" where
  "alloc sz al h =
     (if sz = 0 then Inl (Ub ''alloc with a zero-size layout'')
      else let p = align_up (brk h) al in
        Inr (p, h\<lparr>brk := p + sz, live := add_mset (p, sz, al) (live h)\<rparr>))"

text \<open>\<^verbatim>\<open>Layout::from_size_align(sz, al).unwrap()\<close>, \<^verbatim>\<open>alloc\<close> and the null check.\<close>

definition new_block :: "nat \<Rightarrow> nat \<Rightarrow> heap \<Rightarrow> (addr \<times> heap) res" where
  "new_block sz al h = bindR (layout sz al) (\<lambda>_. alloc sz al h)"

text \<open>
  \<^verbatim>\<open>realloc\<close>: the old block must be live with the given layout; its content moves to the
  new one, up to the smaller size.
\<close>

definition realloc :: "addr \<Rightarrow> nat \<Rightarrow> nat \<Rightarrow> nat \<Rightarrow> heap \<Rightarrow> (addr \<times> heap) res" where
  "realloc p old al new h =
     (if new = 0 then Inl (Ub ''realloc to a zero size'')
      else if new + (al - 1) > 2 ^ 63 - 1 then Inl (Ub ''realloc beyond isize::MAX'')
      else if (p, old, al) \<notin># live h then Inl (Ub ''realloc of a block that is not live'')
      else let q = align_up (brk h) al;
               h1 = h\<lparr>brk := q + new,
                      live := add_mset (q, new, al) (live h - {#(p, old, al)#})\<rparr> in
        Inr (q, write_bytes q (load (mem h) p (min old new)) h1))"

lemma align_up_ge: "0 < al \<Longrightarrow> n \<le> align_up n al"
proof -
  assume "0 < al"
  then have "n + (al - 1) < al + (n + (al - 1)) div al * al"
    using div_mult_mod_eq [of "n + (al - 1)" al] mod_less_divisor [of al "n + (al - 1)"] by linarith
  then show ?thesis using \<open>0 < al\<close> unfolding align_up_def by arith
qed

lemma align_up_dvd: "al dvd align_up n al"
  by (simp add: align_up_def)

lemma is_pow2_pos: "is_pow2 al \<Longrightarrow> 0 < al"
  by (simp add: is_pow2_def)

lemma is_pow2_code:
  "is_pow2 1" "is_pow2 2" "is_pow2 4" "is_pow2 8" "is_pow2 16"
  by (auto simp: is_pow2_def intro: exI [of _ 0] exI [of _ 1] exI [of _ 2] exI [of _ 3] exI [of _ 4])

section \<open>Well-formed heaps\<close>

text \<open>
  Every address is covered by at most one live block, and none at or above the frontier; the
  null address is never handed out.
\<close>

definition covers :: "addr \<Rightarrow> block \<Rightarrow> bool" where
  "covers x b = (case b of (p, s, _) \<Rightarrow> p \<le> x \<and> x < p + s)"

definition heap_ok :: "heap \<Rightarrow> bool" where
  "heap_ok h \<longleftrightarrow> 0 < brk h \<and> (\<forall>b \<in># live h. fst b + fst (snd b) \<le> brk h)
     \<and> (\<forall>x. size (filter_mset (covers x) (live h)) \<le> 1)"

text \<open>Blocks that lie between two frontiers: what an operation has newly allocated.\<close>

definition fresh :: "addr \<Rightarrow> addr \<Rightarrow> block multiset \<Rightarrow> bool" where
  "fresh lo hi B \<longleftrightarrow>
     (\<forall>b \<in># B. lo \<le> fst b \<and> fst b + fst (snd b) \<le> hi \<and> snd (snd b) dvd fst b)"

definition foot :: "block multiset \<Rightarrow> addr set" where
  "foot B = {x. \<exists>b \<in># B. covers x b}"

lemma fresh_empty [simp]: "fresh lo hi {#}"
  by (simp add: fresh_def)

lemma fresh_union [simp]: "fresh lo hi (A + B) \<longleftrightarrow> fresh lo hi A \<and> fresh lo hi B"
  by (auto simp: fresh_def)

lemma fresh_add [simp]:
  "fresh lo hi (add_mset (p, s, al) B) \<longleftrightarrow> lo \<le> p \<and> p + s \<le> hi \<and> al dvd p \<and> fresh lo hi B"
  by (auto simp: fresh_def)

lemma fresh_mono: "fresh lo hi B \<Longrightarrow> lo' \<le> lo \<Longrightarrow> hi \<le> hi' \<Longrightarrow> fresh lo' hi' B"
  by (force simp: fresh_def)

lemma foot_empty [simp]: "foot {#} = {}"
  by (simp add: foot_def)

lemma foot_union [simp]: "foot (A + B) = foot A \<union> foot B"
  by (auto simp: foot_def)

lemma foot_add [simp]: "foot (add_mset (p, s, al) B) = {p..<p + s} \<union> foot B"
  by (auto simp: foot_def covers_def)

lemma fresh_foot: "fresh lo hi B \<Longrightarrow> x \<in> foot B \<Longrightarrow> lo \<le> x \<and> x < hi"
  by (force simp: fresh_def foot_def covers_def)

lemma heap_ok_pos: "heap_ok h \<Longrightarrow> 0 < brk h"
  by (simp add: heap_ok_def)

lemma heap_ok_write [simp]: "heap_ok (write_bytes a bs h) \<longleftrightarrow> heap_ok h"
  by (simp add: heap_ok_def)

lemma heap_ok_write_word [simp]: "heap_ok (write_word a v h) \<longleftrightarrow> heap_ok h"
  by (simp add: write_word_def)

lemma covers_brk:
  assumes "heap_ok h" and "brk h \<le> x"
  shows "filter_mset (covers x) (live h) = {#}"
  using assms by (fastforce simp: heap_ok_def covers_def filter_mset_eq_mempty_iff)

lemma heap_ok_grow:
  assumes ok: "heap_ok h" and p: "brk h \<le> p"
  shows "heap_ok (h\<lparr>brk := p + s, live := add_mset (p, s, al) (live h)\<rparr>)"
proof -
  have "size (filter_mset (covers x) (add_mset (p, s, al) (live h))) \<le> 1" for x
  proof (cases "covers x (p, s, al)")
    case True
    then have "brk h \<le> x" using p by (simp add: covers_def)
    with covers_brk [OF ok] True show ?thesis by simp
  next
    case False
    then show ?thesis using ok by (simp add: heap_ok_def)
  qed
  moreover have "\<forall>b \<in># add_mset (p, s, al) (live h). fst b + fst (snd b) \<le> p + s"
    using ok p by (fastforce simp: heap_ok_def)
  ultimately show ?thesis using ok p by (simp add: heap_ok_def)
qed

lemma heap_ok_free: "heap_ok h \<Longrightarrow> heap_ok (h\<lparr>live := live h - A\<rparr>)"
proof -
  assume ok: "heap_ok h"
  have "size (filter_mset (covers x) (live h - A)) \<le> 1" for x
  proof -
    have "size (filter_mset (covers x) (live h - A)) \<le> size (filter_mset (covers x) (live h))"
      by (intro size_mset_mono multiset_filter_mono) simp
    also have "\<dots> \<le> 1" using ok by (simp add: heap_ok_def)
    finally show ?thesis .
  qed
  with ok show ?thesis by (auto simp: heap_ok_def dest: in_diffD)
qed

end
