(* ===== verification/Utf8.thy ===== *)
theory Utf8
  imports Prelude
begin

text \<open>
  The part of Rust's \<^verbatim>\<open>str\<close> and \<^verbatim>\<open>char\<close> the program uses: validity of UTF-8 (what
  \<^verbatim>\<open>String::from_utf8\<close> checks), \<^verbatim>\<open>char::from_u32\<close>, \<^verbatim>\<open>char::encode_utf8\<close>, and the first
  scalar value of a string (\<^verbatim>\<open>chars().next()\<close>). Code points are naturals.
\<close>

section \<open>Validity\<close>

definition cont :: "byte \<Rightarrow> bool" where
  "cont b \<longleftrightarrow> 0x80 \<le> b \<and> b \<le> 0xBF"

text \<open>
  \<open>utf8_head b0 bs\<close> is the number of continuation bytes of the sequence that \<open>b0\<close> starts,
  if that sequence is well formed with the bytes of \<open>bs\<close> behind it.
\<close>

definition utf8_head :: "byte \<Rightarrow> bytes \<Rightarrow> nat option" where
  "utf8_head b0 bs =
     (if b0 < 0x80 then Some 0
      else if 0xC2 \<le> b0 \<and> b0 \<le> 0xDF then
        (case bs of b1 # _ \<Rightarrow> if cont b1 then Some 1 else None | _ \<Rightarrow> None)
      else if 0xE0 \<le> b0 \<and> b0 \<le> 0xEF then
        (case bs of b1 # b2 # _ \<Rightarrow>
           if cont b1 \<and> cont b2 \<and> (b0 = 0xE0 \<longrightarrow> 0xA0 \<le> b1) \<and> (b0 = 0xED \<longrightarrow> b1 \<le> 0x9F)
           then Some 2 else None
         | _ \<Rightarrow> None)
      else if 0xF0 \<le> b0 \<and> b0 \<le> 0xF4 then
        (case bs of b1 # b2 # b3 # _ \<Rightarrow>
           if cont b1 \<and> cont b2 \<and> cont b3 \<and> (b0 = 0xF0 \<longrightarrow> 0x90 \<le> b1) \<and> (b0 = 0xF4 \<longrightarrow> b1 \<le> 0x8F)
           then Some 3 else None
         | _ \<Rightarrow> None)
      else None)"

fun utf8_valid :: "bytes \<Rightarrow> bool" where
  "utf8_valid [] = True"
| "utf8_valid (b0 # bs) =
     (case utf8_head b0 bs of None \<Rightarrow> False | Some n \<Rightarrow> utf8_valid (drop n bs))"

lemma utf8_head_length: "utf8_head b0 bs = Some n \<Longrightarrow> n \<le> length bs"
  by (auto simp: utf8_head_def split: if_splits list.splits)

lemma utf8_head_append: "utf8_head b0 bs = Some n \<Longrightarrow> utf8_head b0 (bs @ cs) = Some n"
  by (auto simp: utf8_head_def split: if_splits list.splits)

lemma not_cont_ascii: "b < 0x80 \<Longrightarrow> \<not> cont b"
  by (auto simp: cont_def)

text \<open>An ASCII byte never lies inside a multi-byte sequence.\<close>

lemma utf8_head_ascii_break:
  assumes "utf8_head b0 (xs @ a # ys) = Some n" and "a < 0x80"
  shows "n \<le> length xs" and "utf8_head b0 xs = Some n"
  using assms
  by (auto simp: utf8_head_def not_cont_ascii Cons_eq_append_conv append_eq_Cons_conv
      split: if_splits list.splits)

lemma utf8_head_prefix:
  "utf8_head b0 (xs @ ys) = Some n \<Longrightarrow> n \<le> length xs \<Longrightarrow> utf8_head b0 xs = Some n"
  by (auto simp: utf8_head_def Cons_eq_append_conv append_eq_Cons_conv
      split: if_splits list.splits)

lemma utf8_valid_append: "utf8_valid xs \<Longrightarrow> utf8_valid ys \<Longrightarrow> utf8_valid (xs @ ys)"
proof (induction xs rule: utf8_valid.induct)
  case (2 b0 bs)
  then obtain n where n: "utf8_head b0 bs = Some n" and v: "utf8_valid (drop n bs)"
    by (auto split: option.splits)
  have "utf8_head b0 (bs @ ys) = Some n" using n by (rule utf8_head_append)
  moreover have "drop n (bs @ ys) = drop n bs @ ys" using utf8_head_length [OF n] by simp
  ultimately show ?case using "2.IH" [OF n v "2.prems"(2)] by simp
qed simp

lemma utf8_valid_ascii [simp]: "a < 0x80 \<Longrightarrow> utf8_valid (a # ys) \<longleftrightarrow> utf8_valid ys"
  by (simp add: utf8_head_def)

lemma utf8_valid_split:
  "utf8_valid (xs @ a # ys) \<Longrightarrow> a < 0x80 \<Longrightarrow> utf8_valid xs \<and> utf8_valid ys"
proof (induction xs rule: utf8_valid.induct)
  case (2 b0 bs)
  then obtain n where n: "utf8_head b0 (bs @ a # ys) = Some n"
    and v: "utf8_valid (drop n (bs @ a # ys))"
    by (auto split: option.splits)
  note b = utf8_head_ascii_break [OF n \<open>a < 0x80\<close>]
  have "drop n (bs @ a # ys) = drop n bs @ a # ys" using b(1) by simp
  with v have "utf8_valid (drop n bs @ a # ys)" by simp
  with "2.IH" [OF b(2)] \<open>a < 0x80\<close> b(2) show ?case by simp
qed (simp add: utf8_head_def)

section \<open>Encoding and decoding one character\<close>

text \<open>\<^verbatim>\<open>char::from_u32\<close>: a scalar value, not a surrogate.\<close>

definition scalar :: "nat \<Rightarrow> bool" where
  "scalar c \<longleftrightarrow> c < 0xD800 \<or> (0xE000 \<le> c \<and> c < 0x110000)"

definition char_from_u32 :: "nat \<Rightarrow> nat option" where
  "char_from_u32 c = (if scalar c then Some c else None)"

definition encode_utf8 :: "nat \<Rightarrow> bytes" where
  "encode_utf8 c =
     (if c < 0x80 then [word_of_nat c]
      else if c < 0x800 then [word_of_nat (0xC0 + c div 64), word_of_nat (0x80 + c mod 64)]
      else if c < 0x10000 then
        [word_of_nat (0xE0 + c div 4096), word_of_nat (0x80 + c div 64 mod 64),
         word_of_nat (0x80 + c mod 64)]
      else
        [word_of_nat (0xF0 + c div 262144), word_of_nat (0x80 + c div 4096 mod 64),
         word_of_nat (0x80 + c div 64 mod 64), word_of_nat (0x80 + c mod 64)])"

text \<open>The first scalar value of a (valid) string, as \<^verbatim>\<open>chars().next()\<close> decodes it.\<close>

fun first_char :: "bytes \<Rightarrow> nat option" where
  "first_char [] = None"
| "first_char (b0 # bs) =
     (let x = unat b0; y = (\<lambda>k. if k < length bs then unat (bs ! k) mod 64 else 0) in
      if x < 0x80 then Some x
      else if x < 0xE0 then Some (x mod 32 * 64 + y 0)
      else if x < 0xF0 then Some (x mod 16 * 4096 + y 0 * 64 + y 1)
      else Some (x mod 8 * 262144 + y 0 * 4096 + y 1 * 64 + y 2))"

lemma byte_of_nat_le:
  "k < 256 \<Longrightarrow> (numeral w :: byte) \<le> word_of_nat k \<longleftrightarrow> numeral w mod 256 \<le> k"
  "k < 256 \<Longrightarrow> word_of_nat k \<le> (numeral w :: byte) \<longleftrightarrow> k \<le> numeral w mod 256"
  by (simp_all add: word_le_nat_alt unat_of_nat unsigned_numeral take_bit_eq_mod)

lemma byte_of_nat_less:
  "k < 256 \<Longrightarrow> word_of_nat k < (numeral w :: byte) \<longleftrightarrow> k < numeral w mod 256"
  by (simp add: word_less_nat_alt unat_of_nat unsigned_numeral take_bit_eq_mod)

lemma byte_of_nat_eq:
  "k < 256 \<Longrightarrow> word_of_nat k = (numeral w :: byte) \<longleftrightarrow> k = numeral w mod 256"
  by (simp add: word_unat_eq_iff unat_of_nat unsigned_numeral take_bit_eq_mod)

lemmas byte_of_nat_cmp = byte_of_nat_le byte_of_nat_less byte_of_nat_eq

text \<open>One lemma per sequence length, over the payload bits of each byte.\<close>

lemma payload_mod:
  "q < 32 \<Longrightarrow> (0xC0 + q) mod 32 = (q :: nat)" "q < 16 \<Longrightarrow> (0xE0 + q) mod 16 = q"
  "q < 8 \<Longrightarrow> (0xF0 + q) mod 8 = q" "r < 64 \<Longrightarrow> (0x80 + r) mod 64 = (r :: nat)"
  using mod_mult_self4 [of 32 6 q] mod_mult_self4 [of 16 14 q] mod_mult_self4 [of 8 30 q]
    mod_mult_self4 [of 64 2 r] by simp_all

lemma first_char_2:
  "q < 32 \<Longrightarrow> r < 64 \<Longrightarrow>
   first_char (word_of_nat (0xC0 + q) # word_of_nat (0x80 + r) # rest) = Some (q * 64 + r)"
  by (simp add: Let_def unat_of_nat payload_mod del: of_nat_add)

lemma first_char_3:
  "q < 16 \<Longrightarrow> r < 64 \<Longrightarrow> s < 64 \<Longrightarrow>
   first_char (word_of_nat (0xE0 + q) # word_of_nat (0x80 + r) # word_of_nat (0x80 + s) # rest) =
     Some (q * 4096 + r * 64 + s)"
  by (simp add: Let_def unat_of_nat payload_mod del: of_nat_add)

lemma first_char_4:
  "q < 8 \<Longrightarrow> r < 64 \<Longrightarrow> s < 64 \<Longrightarrow> t < 64 \<Longrightarrow>
   first_char (word_of_nat (0xF0 + q) # word_of_nat (0x80 + r) # word_of_nat (0x80 + s) #
     word_of_nat (0x80 + t) # rest) = Some (q * 262144 + r * 4096 + s * 64 + t)"
  by (simp add: Let_def unat_of_nat payload_mod del: of_nat_add)

lemma utf8_valid_2:
  "2 \<le> q \<Longrightarrow> q < 32 \<Longrightarrow> r < 64 \<Longrightarrow>
   utf8_valid [word_of_nat (0xC0 + q), word_of_nat (0x80 + r)]"
  by (simp add: utf8_head_def cont_def byte_of_nat_cmp del: of_nat_add)

lemma utf8_valid_3:
  "q < 16 \<Longrightarrow> r < 64 \<Longrightarrow> s < 64 \<Longrightarrow> (q = 0 \<longrightarrow> 32 \<le> r) \<Longrightarrow> (q = 13 \<longrightarrow> r < 32) \<Longrightarrow>
   utf8_valid [word_of_nat (0xE0 + q), word_of_nat (0x80 + r), word_of_nat (0x80 + s)]"
  by (simp add: utf8_head_def cont_def byte_of_nat_cmp del: of_nat_add) linarith

lemma utf8_valid_4:
  "q < 5 \<Longrightarrow> r < 64 \<Longrightarrow> s < 64 \<Longrightarrow> t < 64 \<Longrightarrow> (q = 0 \<longrightarrow> 16 \<le> r) \<Longrightarrow> (q = 4 \<longrightarrow> r < 16) \<Longrightarrow>
   utf8_valid [word_of_nat (0xF0 + q), word_of_nat (0x80 + r), word_of_nat (0x80 + s),
     word_of_nat (0x80 + t)]"
  by (simp add: utf8_head_def cont_def byte_of_nat_cmp del: of_nat_add) linarith

lemma split64:
  "c div 64 mod 64 * 64 + c mod 64 = c mod (4096 :: nat)"
  "c div 4096 mod 64 * 4096 + c mod 4096 = c mod (262144 :: nat)"
  using mod_mult2_eq [of c 64 64] mod_mult2_eq [of c 4096 64] by simp_all

lemma surrogate_gap:
  assumes "scalar c" and "c div 4096 = 13"
  shows "c div 64 mod 64 < 32"
proof -
  have "c = c div 4096 * 4096 + (c div 64 mod 64 * 64 + c mod 64)"
    using split64(1) [of c] by simp
  moreover have "c < 0xD800" using assms unfolding scalar_def by linarith
  ultimately show ?thesis using assms(2) by linarith
qed

lemma scalar_cases:
  assumes "scalar c"
  obtains "c < 0x80" | "0x80 \<le> c" "c < 0x800" | "0x800 \<le> c" "c < 0x10000"
    | "0x10000 \<le> c" "c < 0x110000"
  using assms unfolding scalar_def by linarith

lemma first_char_encode:
  assumes "scalar c"
  shows "first_char (encode_utf8 c @ rest) = Some c"
  using assms
proof (cases rule: scalar_cases)
  case 1
  then show ?thesis by (simp add: encode_utf8_def unat_of_nat)
next
  case 2
  then have "c div 64 < 32" by auto
  with 2 show ?thesis
    using first_char_2 [of "c div 64" "c mod 64" rest] by (simp add: encode_utf8_def del: first_char.simps of_nat_add)
next
  case 3
  then have "c div 4096 < 16" by auto
  with 3 show ?thesis
    using first_char_3 [of "c div 4096" "c div 64 mod 64" "c mod 64" rest] split64(1) [of c]
    by (simp add: encode_utf8_def add.assoc del: first_char.simps of_nat_add)
next
  case 4
  then have "c div 262144 < 8" by auto
  with 4 show ?thesis
    using first_char_4 [of "c div 262144" "c div 4096 mod 64" "c div 64 mod 64" "c mod 64" rest]
      split64 [of c]
    by (simp add: encode_utf8_def add.assoc del: first_char.simps of_nat_add)
qed

lemma utf8_valid_encode:
  assumes "scalar c"
  shows "utf8_valid (encode_utf8 c)"
  using assms
proof (cases rule: scalar_cases)
  case 1
  then show ?thesis by (simp add: encode_utf8_def utf8_head_def byte_of_nat_cmp)
next
  case 2
  then have "2 \<le> c div 64" "c div 64 < 32" by auto
  with 2 show ?thesis
    using utf8_valid_2 [of "c div 64" "c mod 64"]
    by (simp add: encode_utf8_def del: utf8_valid.simps of_nat_add)
next
  case 3
  then have "c div 4096 < 16" "c div 4096 = 0 \<longrightarrow> 32 \<le> c div 64 mod 64"
    "c div 4096 = 13 \<longrightarrow> c div 64 mod 64 < 32"
    using surrogate_gap [OF assms] by auto
  with 3 show ?thesis
    using utf8_valid_3 [of "c div 4096" "c div 64 mod 64" "c mod 64"]
    by (simp add: encode_utf8_def del: utf8_valid.simps of_nat_add)
next
  case 4
  then have "c div 262144 < 5" by auto
  moreover have "c div 262144 = 0 \<longrightarrow> 16 \<le> c div 4096 mod 64"
    using 4 by auto
  moreover have "c div 262144 = 4 \<longrightarrow> c div 4096 mod 64 < 16"
  proof
    assume "c div 262144 = 4"
    moreover have "c = c div 262144 * 262144 + (c div 4096 mod 64 * 4096 + c mod 4096)"
      using split64(2) [of c] by simp
    ultimately show "c div 4096 mod 64 < 16" using 4 by linarith
  qed
  ultimately show ?thesis using 4
    using utf8_valid_4 [of "c div 262144" "c div 4096 mod 64" "c div 64 mod 64" "c mod 64"]
    by (simp add: encode_utf8_def del: utf8_valid.simps of_nat_add)
qed

end
