(* ===== verification/Layout.thy ===== *)
theory Layout
  imports Heap Utf8
begin

text \<open>
  What a layout \<open>ty\<close> means: the values a Rust type with this layout has, and when the bytes at
  an address represent such a value (\<open>holds\<close>). It is the specification both backends are
  proved against, and does not mention JSON. \<open>lay_ok\<close> collects what the layouts recovered from
  debug information satisfy because the Rust compiler laid the type out: fields do not overlap,
  the words of a vector are distinct, a tag does not overlap the payload, a niche value is
  invalid for the payload. \<open>wf_ty\<close> is the same for types without maps, the ones that the interpreter
  can bind.
\<close>

section \<open>Values\<close>

text \<open>
  Of a map, whose memory is the standard library's business, the value is what its bytes and its
  blocks have to satisfy.
\<close>

datatype val =
    VBool bool
  | VChar nat
  | VU nat
  | VI int
  | VF32 "32 word"
  | VF64 u64
  | VStruct "val list"
  | VTuple "val list"
  | VStr bytes
  | VVec "val list"
  | VUnit
  | VBox val
  | VNone
  | VSome val
  | VMap "memory \<Rightarrow> bytes \<Rightarrow> block multiset \<Rightarrow> bool"

section \<open>Extents\<close>

text \<open>
  The bytes a value of the type occupies at its address (up to trailing padding). The shape of a
  type is a bound on its size with the niches that are relied upon: the numbers that the bytes at
  an offset never form (offset, width, number). \<open>S\<close> gives the shapes of the cells' types.
\<close>

type_synonym shape = "nat \<times> (nat \<times> nat \<times> nat) list"

definition seq_span :: "seq_layout \<Rightarrow> nat" where
  "seq_span q = max (ptr_off q) (max (cap_off q) (len_off q)) + 8"

fun span :: "(cell_id \<Rightarrow> shape) \<Rightarrow> ty \<Rightarrow> nat" where
  "span S TBool = 1"
| "span S TChar = 4"
| "span S (TU n) = n"
| "span S (TI n) = n"
| "span S TF32 = 4"
| "span S TF64 = 8"
| "span S (TStruct _ fs) = fold max (map (\<lambda>f. f_offset f + span S (f_ty f)) fs) 0"
| "span S (TTuple fs) = fold max (map (\<lambda>f. f_offset f + span S (f_ty f)) fs) 0"
| "span S (TStr q) = seq_span q"
| "span S (TVec _ _ _ q) = seq_span q"
| "span S (TStrRef p l) = max p l + 8"
| "span S TUnit = 0"
| "span S (TBoxed _ _ _) = 8"
| "span S (TOpt _ _ _ _ _ sz _) = sz"
| "span S (TMap _ _ _ _ _ _) = 24"
| "span S (TRef c) = fst (S c)"
| "span S (TUnknown _) = 0"

definition words_apart :: "nat \<Rightarrow> nat \<Rightarrow> bool" where
  "words_apart i j \<longleftrightarrow> i + 8 \<le> j \<or> j + 8 \<le> i"

definition seq_ok :: "seq_layout \<Rightarrow> bool" where
  "seq_ok q \<longleftrightarrow> words_apart (ptr_off q) (cap_off q) \<and> words_apart (ptr_off q) (len_off q)
     \<and> words_apart (cap_off q) (len_off q)"

definition fields_apart :: "(cell_id \<Rightarrow> shape) \<Rightarrow> field \<Rightarrow> field \<Rightarrow> bool" where
  "fields_apart S f g \<longleftrightarrow> f_offset f + span S (f_ty f) \<le> f_offset g
     \<or> f_offset g + span S (f_ty g) \<le> f_offset f"

section \<open>Niches\<close>

text \<open>
  \<open>niche S t off ds nd\<close>: the \<open>ds\<close> bytes at offset \<open>off\<close> of a valid value of type \<open>t\<close> are never
  the number \<open>nd\<close>: a \<^verbatim>\<open>bool\<close> other than 0 and 1, a \<^verbatim>\<open>char\<close> beyond the scalar values, a null
  pointer, a capacity beyond \<^verbatim>\<open>isize::MAX\<close>, a discriminant of a nested option that is not its own.
\<close>

definition seq_niche :: "seq_layout \<Rightarrow> nat \<Rightarrow> nat \<Rightarrow> nat \<Rightarrow> bool" where
  "seq_niche q off ds nd \<longleftrightarrow> ds = 8
     \<and> (off = ptr_off q \<and> nd = 0 \<or> off = cap_off q \<and> 2 ^ 63 \<le> nd \<and> nd < 2 ^ 64)"

fun niche :: "(cell_id \<Rightarrow> shape) \<Rightarrow> ty \<Rightarrow> nat \<Rightarrow> nat \<Rightarrow> nat \<Rightarrow> bool" where
  "niche S TBool off ds nd \<longleftrightarrow> off = 0 \<and> ds = 1 \<and> 2 \<le> nd \<and> nd < 256"
| "niche S TChar off ds nd \<longleftrightarrow> off = 0 \<and> ds = 4 \<and> 0x110000 \<le> nd \<and> nd < 256 ^ 4"
| "niche S (TStruct _ fs) off ds nd \<longleftrightarrow>
     (\<exists>f \<in> set fs. f_offset f \<le> off \<and> niche S (f_ty f) (off - f_offset f) ds nd)"
| "niche S (TTuple fs) off ds nd \<longleftrightarrow>
     (\<exists>f \<in> set fs. f_offset f \<le> off \<and> niche S (f_ty f) (off - f_offset f) ds nd)"
| "niche S (TStr q) off ds nd \<longleftrightarrow> seq_niche q off ds nd"
| "niche S (TVec _ _ _ q) off ds nd \<longleftrightarrow> seq_niche q off ds nd"
| "niche S (TStrRef p _) off ds nd \<longleftrightarrow> off = p \<and> ds = 8 \<and> nd = 0"
| "niche S (TBoxed _ _ _) off ds nd \<longleftrightarrow> off = 0 \<and> ds = 8 \<and> nd = 0"
| "niche S (TOpt disc_off ds' nd' sd' payload_off _ inner) off ds nd \<longleftrightarrow>
     off = disc_off \<and> ds = ds' \<and> nd < 256 ^ ds \<and> nd' < 256 ^ ds \<and> nd \<noteq> nd'
     \<and> (case sd' of
          Some sd \<Rightarrow> sd < 256 ^ ds \<and> nd \<noteq> sd
        | None \<Rightarrow> payload_off \<le> off \<and> niche S inner (off - payload_off) ds nd)"
| "niche S (TRef c) off ds nd \<longleftrightarrow> (off, ds, nd) \<in> set (snd (S c))"
| "niche S _ off ds nd \<longleftrightarrow> False"

section \<open>Well-formed layouts\<close>

definition int_width :: "nat \<Rightarrow> bool" where
  "int_width n \<longleftrightarrow> n = 1 \<or> n = 2 \<or> n = 4 \<or> n = 8 \<or> n = 16"

fun lay_ok :: "(cell_id \<Rightarrow> shape) \<Rightarrow> ty \<Rightarrow> bool" where
  "lay_ok S (TU n) \<longleftrightarrow> int_width n"
| "lay_ok S (TI n) \<longleftrightarrow> int_width n"
| "lay_ok S (TStruct _ fs) \<longleftrightarrow> (\<forall>f \<in> set fs. lay_ok S (f_ty f)) \<and> sorted_wrt (fields_apart S) fs
     \<and> distinct (map f_name fs)"
| "lay_ok S (TTuple fs) \<longleftrightarrow> (\<forall>f \<in> set fs. lay_ok S (f_ty f)) \<and> sorted_wrt (fields_apart S) fs"
| "lay_ok S (TStr q) \<longleftrightarrow> seq_ok q"
| "lay_ok S (TVec t esz al q) \<longleftrightarrow> lay_ok S t \<and> seq_ok q \<and> 0 < esz \<and> span S t \<le> esz \<and> is_pow2 (max 1 al)"
| "lay_ok S (TStrRef p l) \<longleftrightarrow> words_apart p l"
| "lay_ok S (TBoxed t sz al) \<longleftrightarrow> lay_ok S t \<and> span S t \<le> sz \<and> is_pow2 (max 1 al)
     \<and> sz + (max 1 al - 1) < 2 ^ 63"
| "lay_ok S (TOpt disc_off ds nd sd payload_off sz t) \<longleftrightarrow> lay_ok S t
     \<and> int_width ds \<and> disc_off + ds \<le> sz \<and> payload_off + span S t \<le> sz \<and> nd < 256 ^ ds
     \<and> (case sd of
          Some d \<Rightarrow> d < 256 ^ ds \<and> d \<noteq> nd
            \<and> (disc_off + ds \<le> payload_off \<or> payload_off + span S t \<le> disc_off)
        | None \<Rightarrow> payload_off \<le> disc_off \<and> niche S t (disc_off - payload_off) ds nd)"
| "lay_ok S (TMap k ks t vs _ _) \<longleftrightarrow> lay_ok S k \<and> span S k \<le> ks \<and> lay_ok S t \<and> span S t \<le> vs"
| "lay_ok S (TUnknown _) \<longleftrightarrow> False"
| "lay_ok S _ \<longleftrightarrow> True"

fun map_free :: "ty \<Rightarrow> bool" where
  "map_free (TStruct _ fs) \<longleftrightarrow> (\<forall>f \<in> set fs. map_free (f_ty f))"
| "map_free (TTuple fs) \<longleftrightarrow> (\<forall>f \<in> set fs. map_free (f_ty f))"
| "map_free (TVec t _ _ _) \<longleftrightarrow> map_free t"
| "map_free (TBoxed t _ _) \<longleftrightarrow> map_free t"
| "map_free (TOpt _ _ _ _ _ _ t) \<longleftrightarrow> map_free t"
| "map_free (TMap _ _ _ _ _ _) \<longleftrightarrow> False"
| "map_free _ \<longleftrightarrow> True"

definition wf_ty :: "(cell_id \<Rightarrow> shape) \<Rightarrow> ty \<Rightarrow> bool" where
  "wf_ty S t \<longleftrightarrow> lay_ok S t \<and> map_free t"

lemma wf_ty_simps [simp]:
  "wf_ty S (TU n) \<longleftrightarrow> int_width n"
  "wf_ty S (TI n) \<longleftrightarrow> int_width n"
  "wf_ty S (TStruct nm fs) \<longleftrightarrow> (\<forall>f \<in> set fs. wf_ty S (f_ty f)) \<and> sorted_wrt (fields_apart S) fs
    \<and> distinct (map f_name fs)"
  "wf_ty S (TTuple fs) \<longleftrightarrow> (\<forall>f \<in> set fs. wf_ty S (f_ty f)) \<and> sorted_wrt (fields_apart S) fs"
  "wf_ty S (TStr q) \<longleftrightarrow> seq_ok q"
  "wf_ty S (TVec t esz al q) \<longleftrightarrow> wf_ty S t \<and> seq_ok q \<and> 0 < esz \<and> span S t \<le> esz \<and> is_pow2 (max 1 al)"
  "wf_ty S (TStrRef p l) \<longleftrightarrow> words_apart p l"
  "wf_ty S (TBoxed t sz al) \<longleftrightarrow> wf_ty S t \<and> span S t \<le> sz \<and> is_pow2 (max 1 al)
    \<and> sz + (max 1 al - 1) < 2 ^ 63"
  "wf_ty S (TOpt disc_off ds nd sd payload_off sz t) \<longleftrightarrow> wf_ty S t
    \<and> int_width ds \<and> disc_off + ds \<le> sz \<and> payload_off + span S t \<le> sz \<and> nd < 256 ^ ds
    \<and> (case sd of
    Some d \<Rightarrow> d < 256 ^ ds \<and> d \<noteq> nd
    \<and> (disc_off + ds \<le> payload_off \<or> payload_off + span S t \<le> disc_off)
    | None \<Rightarrow> payload_off \<le> disc_off \<and> niche S t (disc_off - payload_off) ds nd)"
  "wf_ty S (TMap k ks t vs na ins) \<longleftrightarrow> False"
  "wf_ty S (TUnknown u) \<longleftrightarrow> False"
  "wf_ty S TBool"
  "wf_ty S TChar"
  "wf_ty S TF32"
  "wf_ty S TF64"
  "wf_ty S TUnit"
  "wf_ty S (TRef c)"
  by (auto simp: wf_ty_def)

lemma wf_ty_lay [simp]: "wf_ty S t \<Longrightarrow> lay_ok S t"
  by (simp add: wf_ty_def)

text \<open>A well-formed layout of the given shape.\<close>

definition shaped :: "(cell_id \<Rightarrow> shape) \<Rightarrow> ty \<Rightarrow> shape \<Rightarrow> bool" where
  "shaped S t sh \<longleftrightarrow> lay_ok S t \<and> span S t \<le> fst sh \<and> (\<forall>(off, ds, nd) \<in> set (snd sh). niche S t off ds nd)"

definition cells_ok :: "(cell_id \<rightharpoonup> ty) \<Rightarrow> (cell_id \<Rightarrow> shape) \<Rightarrow> bool" where
  "cells_ok C S \<longleftrightarrow> (\<forall>c t. C c = Some t \<longrightarrow> shaped S t (S c))"

definition free_cells :: "(cell_id \<rightharpoonup> ty) \<Rightarrow> bool" where
  "free_cells C \<longleftrightarrow> (\<forall>c t. C c = Some t \<longrightarrow> map_free t)"

definition wf_cells :: "(cell_id \<rightharpoonup> ty) \<Rightarrow> (cell_id \<Rightarrow> shape) \<Rightarrow> bool" where
  "wf_cells C S \<longleftrightarrow> cells_ok C S \<and> free_cells C"

lemma wf_cells_ok [simp]: "wf_cells C S \<Longrightarrow> cells_ok C S"
  by (simp add: wf_cells_def)

lemma wf_cellsD: "wf_cells C S \<Longrightarrow> C c = Some t \<Longrightarrow> wf_ty S t"
  by (auto simp: wf_cells_def cells_ok_def free_cells_def shaped_def wf_ty_def)

section \<open>Representation\<close>

text \<open>
  \<open>holds C m t a v B\<close>: in the memory \<open>m\<close> the bytes at \<open>a\<close> represent the value \<open>v\<close> of type \<open>t\<close>,
  and \<open>B\<close> is the multiset of the heap blocks reached from them, each with the layout its
  owner frees it with. A map depends on its bytes and its blocks only.
\<close>

definition block_of :: "addr \<Rightarrow> nat \<Rightarrow> nat \<Rightarrow> block multiset" where
  "block_of p s al = (if s = 0 then {#} else {#(p, s, al)#})"

inductive holds :: "(cell_id \<rightharpoonup> ty) \<Rightarrow> memory \<Rightarrow> ty \<Rightarrow> addr \<Rightarrow> val \<Rightarrow> block multiset \<Rightarrow> bool"
  and holds_fields :: "(cell_id \<rightharpoonup> ty) \<Rightarrow> memory \<Rightarrow> field list \<Rightarrow> addr \<Rightarrow> val list \<Rightarrow> block multiset \<Rightarrow> bool"
  and holds_elems :: "(cell_id \<rightharpoonup> ty) \<Rightarrow> memory \<Rightarrow> ty \<Rightarrow> nat \<Rightarrow> addr \<Rightarrow> val list \<Rightarrow> block multiset \<Rightarrow> bool"
  for C :: "cell_id \<rightharpoonup> ty" and m :: memory where
  h_bool: "m a = of_bool b \<Longrightarrow> holds C m TBool a (VBool b) {#}"
| h_char: "scalar c \<Longrightarrow> load m a 4 = le_bytes 4 c \<Longrightarrow> holds C m TChar a (VChar c) {#}"
| h_u: "k < 256 ^ n \<Longrightarrow> load m a n = le_bytes n k \<Longrightarrow> holds C m (TU n) a (VU k) {#}"
| h_i: "- (256 ^ n div 2) \<le> k \<Longrightarrow> k < 256 ^ n div 2 \<Longrightarrow> load m a n = le_bytes n (nat (k mod 256 ^ n)) \<Longrightarrow>
    holds C m (TI n) a (VI k) {#}"
| h_f32: "load m a 4 = le_bytes 4 (unat w) \<Longrightarrow> holds C m TF32 a (VF32 w) {#}"
| h_f64: "load m a 8 = le_bytes 8 (unat w) \<Longrightarrow> holds C m TF64 a (VF64 w) {#}"
| h_struct: "holds_fields C m fs a vs B \<Longrightarrow> holds C m (TStruct nm fs) a (VStruct vs) B"
| h_tuple: "holds_fields C m fs a vs B \<Longrightarrow> holds C m (TTuple fs) a (VTuple vs) B"
| h_str: "load m (a + ptr_off q) 8 = le_bytes 8 p \<Longrightarrow> load m (a + cap_off q) 8 = le_bytes 8 cap \<Longrightarrow>
    load m (a + len_off q) 8 = le_bytes 8 (length s) \<Longrightarrow> 0 < p \<Longrightarrow> p < 2 ^ 64 \<Longrightarrow>
    length s \<le> cap \<Longrightarrow> cap < 2 ^ 63 \<Longrightarrow> load m p (length s) = s \<Longrightarrow> utf8_valid s \<Longrightarrow>
    holds C m (TStr q) a (VStr s) (block_of p cap 1)"
| h_strref: "load m (a + po) 8 = le_bytes 8 p \<Longrightarrow> load m (a + lo) 8 = le_bytes 8 (length s) \<Longrightarrow>
    0 < p \<Longrightarrow> p < 2 ^ 64 \<Longrightarrow> length s < 2 ^ 63 \<Longrightarrow> load m p (length s) = s \<Longrightarrow> utf8_valid s \<Longrightarrow>
    holds C m (TStrRef po lo) a (VStr s) (block_of p (length s) 1)"
| h_vec: "load m (a + ptr_off q) 8 = le_bytes 8 p \<Longrightarrow> load m (a + cap_off q) 8 = le_bytes 8 cap \<Longrightarrow>
    load m (a + len_off q) 8 = le_bytes 8 (length vs) \<Longrightarrow> 0 < p \<Longrightarrow> p < 2 ^ 64 \<Longrightarrow>
    max 1 al dvd p \<Longrightarrow> length vs \<le> cap \<Longrightarrow> cap < 2 ^ 63 \<Longrightarrow> holds_elems C m t esz p vs B \<Longrightarrow>
    holds C m (TVec t esz al q) a (VVec vs) (block_of p (cap * esz) (max 1 al) + B)"
| h_unit: "holds C m TUnit a VUnit {#}"
| h_box: "load m a 8 = le_bytes 8 p \<Longrightarrow> 0 < p \<Longrightarrow> p < 2 ^ 64 \<Longrightarrow> max 1 al dvd p \<Longrightarrow> holds C m t p v B \<Longrightarrow>
    holds C m (TBoxed t sz al) a (VBox v) (block_of p sz (max 1 al) + B)"
| h_none: "load m (a + disc_off) ds = le_bytes ds nd \<Longrightarrow>
    holds C m (TOpt disc_off ds nd sd payload_off sz t) a VNone {#}"
| h_some: "holds C m t (a + payload_off) v B \<Longrightarrow>
    (case sd of Some d \<Rightarrow> load m (a + disc_off) ds = le_bytes ds d
     | None \<Rightarrow> load m (a + disc_off) ds \<noteq> le_bytes ds nd) \<Longrightarrow>
    holds C m (TOpt disc_off ds nd sd payload_off sz t) a (VSome v) B"
| h_ref: "C c = Some t \<Longrightarrow> holds C m t a v B \<Longrightarrow> holds C m (TRef c) a v B"
| h_fields_nil: "holds_fields C m [] a [] {#}"
| h_fields_cons: "holds C m (f_ty f) (a + f_offset f) v B \<Longrightarrow> holds_fields C m fs a vs B' \<Longrightarrow>
    holds_fields C m (f # fs) a (v # vs) (B + B')"
| h_elems_nil: "holds_elems C m t esz a [] {#}"
| h_elems_cons: "holds C m t a v B \<Longrightarrow> holds_elems C m t esz (a + esz) vs B' \<Longrightarrow>
    holds_elems C m t esz a (v # vs) (B + B')"
| h_map: "(\<And>m'. (\<forall>x \<in> foot B. m' x = m x) \<Longrightarrow> P m' (load m a 24) B) \<Longrightarrow>
    holds C m (TMap k ks t vs na ins) a (VMap P) B"

lemmas holds_intros = holds_holds_fields_holds_elems.intros
lemmas holds_induct = holds_holds_fields_holds_elems.inducts

inductive_cases holds_fieldsE: "holds_fields C m (f # fs) a vs B"
inductive_cases holds_elemsE: "holds_elems C m t esz a (v # vs) B"

lemma fold_max_le:
  fixes xs :: "nat list"
  shows "fold max xs k \<le> n \<longleftrightarrow> k \<le> n \<and> (\<forall>x \<in> set xs. x \<le> n)"
  by (induction xs arbitrary: k) auto

end
