(* ===== verification/Shapes.thy ===== *)
theory Shapes
  imports Fuel_Stable Layout
begin

text \<open>
  A checker of debug information: given a shape for every type a program binds (a size, and the
  niches that its users rely on), it decides entry by entry, from the attributes alone, that the
  compiler has laid the type out as the backends assume: fields apart and inside their struct,
  boxes, elements and the slots of map entries large enough for what is written into them, tags and niches where a value
  cannot reach them. What \<open>classify\<close> makes of an accepted entry is well formed (\<open>Shapes_Props\<close>).
\<close>

type_synonym shapes = "((nat \<times> nat) \<times> shape) list"

definition ensure :: "bool \<Rightarrow> unit res" where
  "ensure b = (if b then Inr () else Inl (Panic ''rejected''))"

text \<open>The shape of the type that a reference leads to; \<open>N\<close> bounds the chains of references.\<close>

definition shape_of :: "nat \<Rightarrow> dstore \<Rightarrow> shapes \<Rightarrow> nat \<Rightarrow> nat \<Rightarrow> shape res" where
  "shape_of N st A ui off =
     bindR (idx st ui) (\<lambda>u.
     bindR (strip N u off) (\<lambda>off.
     bindR (def_site N st ui off) (\<lambda>k. expect (map_of A k) ''no shape'')))"

text \<open>Primitive types, strings.\<close>

definition leaf_laid :: "ty \<Rightarrow> shape \<Rightarrow> bool" where
  "leaf_laid t sh \<longleftrightarrow> shaped (\<lambda>_. (0, [])) t sh"

definition pointer_laid :: "nat \<Rightarrow> dstore \<Rightarrow> shapes \<Rightarrow> dunit \<Rightarrow> nat \<Rightarrow> nat \<Rightarrow> shape \<Rightarrow> unit res" where
  "pointer_laid N st A u ui off sh =
     bindR (type_ref N u off) (\<lambda>p.
     bindR (expect p ''no pointee'') (\<lambda>p.
     bindR (shape_of N st A ui p) (\<lambda>inner.
     bindR (strip N u p) (\<lambda>p.
     let sz = udata_or u p DW_AT_byte_size 0 in
     bindR (align_of u p sz) (\<lambda>al.
       ensure (fst inner \<le> sz \<and> is_pow2 (max 1 al) \<and> sz + (max 1 al - 1) < 2 ^ 63
         \<and> 8 \<le> fst sh \<and> list_all (\<lambda>x. x = (0, 8, 0)) (snd sh)))))))"

definition vec_laid :: "nat \<Rightarrow> dstore \<Rightarrow> shapes \<Rightarrow> dunit \<Rightarrow> nat \<Rightarrow> nat \<Rightarrow> shape \<Rightarrow> unit res" where
  "vec_laid N st A u ui off sh =
     bindR (template_param N u off) (\<lambda>e.
     bindR (expect e ''no element'') (\<lambda>e.
     bindR (shape_of N st A ui e) (\<lambda>inner.
     bindR (strip N u e) (\<lambda>e.
     let esz = udata_or u e DW_AT_byte_size 1 in
     bindR (align_of u e esz) (\<lambda>al.
     bindR (seq_layout N st ui off) (\<lambda>q.
       ensure (fst inner \<le> esz \<and> 0 < esz \<and> is_pow2 (max 1 al) \<and> seq_ok q \<and> seq_span q \<le> fst sh
         \<and> list_all (\<lambda>(o', d, v). seq_niche q o' d v) (snd sh))))))))"

text \<open>A map: both trampolines must be found, and the slots of the keys and of the values large enough.\<close>

definition map_laid :: "nat \<Rightarrow> u64 \<Rightarrow> dstore \<Rightarrow> shapes \<Rightarrow> dunit \<Rightarrow> nat \<Rightarrow> nat \<Rightarrow> shape \<Rightarrow> unit res" where
  "map_laid N slide st A u ui off sh =
     bindR (template_named N u off (ascii ''K'')) (\<lambda>k.
     bindR (expect k ''no key'') (\<lambda>k.
     bindR (template_named N u off (ascii ''V'')) (\<lambda>v.
     bindR (expect v ''no value'') (\<lambda>v.
     bindR (name_or_empty N u v) (\<lambda>name.
     bindR (shape_of N st A ui k) (\<lambda>key.
     bindR (strip N u k) (\<lambda>k.
     bindR (shape_of N st A ui v) (\<lambda>val.
     bindR (strip N u v) (\<lambda>v.
     bindR (resolve_tramp N slide st (ascii ''map_new_at'') name False) (\<lambda>new_at.
     bindR (resolve_tramp N slide st (ascii ''map_insert'') name True) (\<lambda>insert_at.
       ensure (fst key \<le> udata_or u k DW_AT_byte_size 24 \<and> fst val \<le> udata_or u v DW_AT_byte_size 1
         \<and> new_at \<noteq> None \<and> insert_at \<noteq> None \<and> 24 \<le> fst sh \<and> snd sh = []))))))))))))"

text \<open>The variants of an option: one without payload, one with, entries that are neither.\<close>

datatype arm = No_Arm | Unit_Arm "nat option" | Some_Arm "nat option" nat shape

definition read_arm :: "nat \<Rightarrow> dstore \<Rightarrow> shapes \<Rightarrow> dunit \<Rightarrow> nat \<Rightarrow> nat \<Rightarrow> arm res" where
  "read_arm N st A u ui v =
     bindR (tag u v) (\<lambda>t.
     if t \<noteq> DW_TAG_variant then Inr No_Arm
     else
       let dv = attr_udata u v DW_AT_discr_value in
       bindR (child_with_tag u v DW_TAG_member) (\<lambda>pm.
       case pm of
         None \<Rightarrow> Inr No_Arm
       | Some pm \<Rightarrow>
           let pm_off = udata_or u pm DW_AT_data_member_location 0 in
           bindR (type_ref N u pm) (\<lambda>ps.
           case ps of
             None \<Rightarrow> Inr No_Arm
           | Some ps \<Rightarrow>
               bindR (strip N u ps) (\<lambda>ps.
               bindR (first_field N u ps) (\<lambda>f0.
               case f0 of
                 None \<Rightarrow> Inr (Unit_Arm dv)
               | Some f0 \<Rightarrow>
                   let foff = udata_or u f0 DW_AT_data_member_location 0 in
                   bindR (type_ref N u f0) (\<lambda>ft.
                   case ft of
                     None \<Rightarrow> Inr No_Arm
                   | Some t \<Rightarrow>
                       bindR (add_usize pm_off foff) (\<lambda>payload.
                       bindR (shape_of N st A ui t) (\<lambda>inner. Inr (Some_Arm dv payload inner)))))))))"

definition unit_arms :: "arm list \<Rightarrow> nat option list" where
  "unit_arms arms = concat (map (\<lambda>a. case a of Unit_Arm dv \<Rightarrow> [dv] | _ \<Rightarrow> []) arms)"

definition some_arms :: "arm list \<Rightarrow> (nat option \<times> nat \<times> shape) list" where
  "some_arms arms = concat (map (\<lambda>a. case a of Some_Arm dv po sh \<Rightarrow> [(dv, po, sh)] | _ \<Rightarrow> []) arms)"

text \<open>\<open>nd\<close> at \<open>disc_off\<close> means no payload, \<open>sd\<close> (or, in the niche encoding, any other value) means a payload.\<close>

definition arms_apart :: "nat \<Rightarrow> nat \<Rightarrow> nat \<Rightarrow> nat \<Rightarrow> nat option \<times> nat \<times> shape \<Rightarrow> bool" where
  "arms_apart sz disc_off ds nd some_arm =
     (let (sd, po, inner) = some_arm in
      nd < 256 ^ ds \<and> po + fst inner \<le> sz
      \<and> (case sd of
           Some d \<Rightarrow> d < 256 ^ ds \<and> d \<noteq> nd \<and> (disc_off + ds \<le> po \<or> po + fst inner \<le> disc_off)
         | None \<Rightarrow> po \<le> disc_off \<and> (disc_off - po, ds, nd) \<in> set (snd inner)))"

definition arms_niche :: "nat \<Rightarrow> nat \<Rightarrow> nat \<Rightarrow> nat option \<times> nat \<times> shape \<Rightarrow> nat \<times> nat \<times> nat \<Rightarrow> bool" where
  "arms_niche disc_off ds nd some_arm x =
     (let (sd, po, inner) = some_arm; (o', d, v) = x in
      o' = disc_off \<and> d = ds \<and> v < 256 ^ ds \<and> v \<noteq> nd
      \<and> (case sd of Some k \<Rightarrow> v \<noteq> k | None \<Rightarrow> po \<le> o' \<and> (o' - po, d, v) \<in> set (snd inner)))"

definition arms_laid :: "nat \<Rightarrow> nat \<Rightarrow> nat \<Rightarrow> arm list \<Rightarrow> shape \<Rightarrow> bool" where
  "arms_laid sz disc_off ds arms sh \<longleftrightarrow>
     int_width ds \<and> disc_off + ds \<le> sz \<and> sz \<le> fst sh \<and> unit_arms arms \<noteq> [] \<and> some_arms arms \<noteq> []
     \<and> list_all (\<lambda>dv. dv \<noteq> None) (unit_arms arms)
     \<and> list_all (\<lambda>dv. list_all (\<lambda>a. arms_apart sz disc_off ds (the dv) a
          \<and> list_all (arms_niche disc_off ds (the dv) a) (snd sh)) (some_arms arms)) (unit_arms arms)"

definition option_laid :: "nat \<Rightarrow> dstore \<Rightarrow> shapes \<Rightarrow> dunit \<Rightarrow> nat \<Rightarrow> nat \<Rightarrow> nat \<Rightarrow> shape \<Rightarrow> unit res" where
  "option_laid N st A u ui off vp sh =
     (case attr_of u vp DW_AT_discr of
        Some (UnitRef disc_m) \<Rightarrow>
          bindR (type_ref N u disc_m) (\<lambda>dt.
          bindR (case dt of None \<Rightarrow> Inr 8
                 | Some t \<Rightarrow> bindR (strip N u t) (\<lambda>t. Inr (udata_or u t DW_AT_byte_size 8))) (\<lambda>disc_size.
          bindR (child_offsets u vp) (\<lambda>vs.
          bindR (map_res (read_arm N st A u ui) vs) (\<lambda>arms.
            ensure (arms_laid (udata_or u off DW_AT_byte_size 0) (udata_or u disc_m DW_AT_data_member_location 0)
              (disc_size mod 256) arms sh)))))
      | _ \<Rightarrow> Inl (Panic ''no discriminant''))"

text \<open>Plain aggregates: name, offset and shape of each member.\<close>

fun read_members :: "nat \<Rightarrow> dstore \<Rightarrow> shapes \<Rightarrow> dunit \<Rightarrow> nat \<Rightarrow> nat list \<Rightarrow> (bytes \<times> nat \<times> shape) list res" where
  "read_members N st A u ui [] = Inr []"
| "read_members N st A u ui (m # ms) =
     bindR (tag u m) (\<lambda>t.
     if t \<noteq> DW_TAG_member then read_members N st A u ui ms
     else
       bindR (name_or_empty N u m) (\<lambda>fname.
       let foff = udata_or u m DW_AT_data_member_location 0 in
       bindR (type_ref N u m) (\<lambda>ft.
       bindR (expect ft ''no type'') (\<lambda>t.
       bindR (shape_of N st A ui t) (\<lambda>sh.
       bindR (read_members N st A u ui ms) (\<lambda>ps. Inr ((fname, foff, sh) # ps)))))))"

definition places_apart :: "bytes \<times> nat \<times> shape \<Rightarrow> bytes \<times> nat \<times> shape \<Rightarrow> bool" where
  "places_apart p q \<longleftrightarrow> fst (snd p) + fst (snd (snd p)) \<le> fst (snd q) \<or> fst (snd q) + fst (snd (snd q)) \<le> fst (snd p)"

definition members_laid :: "(bytes \<times> nat \<times> shape) list \<Rightarrow> shape \<Rightarrow> bool" where
  "members_laid ps sh \<longleftrightarrow>
     sorted_wrt places_apart ps \<and> distinct (map fst ps) \<and> list_all (\<lambda>p. fst (snd p) + fst (snd (snd p)) \<le> fst sh) ps
     \<and> list_all (\<lambda>(o', d, v). list_ex (\<lambda>p. fst (snd p) \<le> o' \<and> (o' - fst (snd p), d, v) \<in> set (snd (snd (snd p)))) ps) (snd sh)"

definition structure_laid :: "nat \<Rightarrow> u64 \<Rightarrow> dstore \<Rightarrow> shapes \<Rightarrow> dunit \<Rightarrow> nat \<Rightarrow> nat \<Rightarrow> bytes \<Rightarrow> shape \<Rightarrow> unit res" where
  "structure_laid N slide st A u ui off name sh =
     (if name = ascii ''String'' then bindR (seq_layout N st ui off) (\<lambda>q. ensure (leaf_laid (TStr q) sh))
      else if name = ascii ''&str'' then bindR (str_ref_offsets N u off) (\<lambda>(p, l). ensure (leaf_laid (TStrRef p l) sh))
      else if starts_with name (ascii ''Vec<'') then vec_laid N st A u ui off sh
      else if starts_with name (ascii ''BTreeMap<'') then map_laid N slide st A u ui off sh
      else bindR (child_with_tag u off DW_TAG_variant_part) (\<lambda>vp.
        case vp of
          Some vp \<Rightarrow> option_laid N st A u ui off vp sh
        | None \<Rightarrow> bindR (child_offsets u off) (\<lambda>ms.
            bindR (read_members N st A u ui ms) (\<lambda>ps. ensure (members_laid ps sh)))))"

definition body_laid :: "nat \<Rightarrow> u64 \<Rightarrow> dstore \<Rightarrow> shapes \<Rightarrow> dunit \<Rightarrow> nat \<Rightarrow> nat \<Rightarrow> dtag \<Rightarrow> bytes \<Rightarrow> shape \<Rightarrow> unit res" where
  "body_laid N slide st A u ui off t name sh =
     (if t = DW_TAG_base_type then ensure (leaf_laid (base_type u off name) sh)
      else if t = DW_TAG_pointer_type then pointer_laid N st A u ui off sh
      else if t = DW_TAG_structure_type then structure_laid N slide st A u ui off name sh
      else Inl (Panic ''no layout''))"

text \<open>One entry, all entries.\<close>

definition entry_laid :: "nat \<Rightarrow> u64 \<Rightarrow> dstore \<Rightarrow> shapes \<Rightarrow> nat \<Rightarrow> nat \<Rightarrow> shape \<Rightarrow> unit res" where
  "entry_laid N slide st A ui off sh =
     bindR (idx st ui) (\<lambda>u.
     bindR (tag u off) (\<lambda>t.
     bindR (name_or_empty N u off) (\<lambda>name.
       if is_transparent name then
         bindR (template_param N u off) (\<lambda>inner.
         bindR (expect inner ''no T parameter'') (\<lambda>inner.
         bindR (shape_of N st A ui inner) (\<lambda>isz.
           ensure (fst isz \<le> fst sh \<and> list_all (\<lambda>x. x \<in> set (snd isz)) (snd sh)))))
       else body_laid N slide st A u ui off t name sh)))"

definition laid_out :: "nat \<Rightarrow> nat \<Rightarrow> u64 \<Rightarrow> dstore \<Rightarrow> shapes \<Rightarrow> bool" where
  "laid_out N R slide st A \<longleftrightarrow> chains_end N R st \<and> list_all (\<lambda>((ui, off), sh). entry_laid N slide st A ui off sh = Inr ()) A"

text \<open>An accepted store keeps what the entries rely on.\<close>

lemma laid_entry: "laid_out N R slide st A \<Longrightarrow> map_of A (ui, off) = Some sh \<Longrightarrow> entry_laid N slide st A ui off sh = Inr ()"
  by (auto simp: laid_out_def list_all_iff dest!: map_of_SomeD)

lemma laid_good: "laid_out N R slide st A \<Longrightarrow> good_store N st"
  by (auto simp: laid_out_def intro: good_storeI)

lemma ensure_ok [simp]: "ensure b = Inr () \<longleftrightarrow> b"
  by (simp add: ensure_def)

end
