(* ===== verification/Shapes_Props.thy ===== *)
theory Shapes_Props
  imports Shapes
begin

text \<open>
  Type preservation: on debug information that the checker accepts, \<open>classify\<close> makes well-formed
  layouts of the recorded sizes and niches, for recursive types too. The shapes of the cells are a
  store typing: it grows with the cells, and never changes for a cell that exists.
\<close>

section \<open>Store typings\<close>

definition typed :: "shapes \<Rightarrow> (cell_id \<Rightarrow> shape) \<Rightarrow> cstate \<Rightarrow> bool" where
  "typed A S s \<longleftrightarrow> (\<forall>k c. memo s k = Some c \<longrightarrow> map_of A k = Some (S c)) \<and> cells_ok (cell_body (cells s)) S"

definition typed_step ::
  "shapes \<Rightarrow> (cell_id \<Rightarrow> shape) \<Rightarrow> cstate \<Rightarrow> (cell_id \<Rightarrow> shape) \<Rightarrow> cstate \<Rightarrow> (ty \<times> shape) list \<Rightarrow> bool" where
  "typed_step A S s S' s' ps \<longleftrightarrow> yields s s' (map fst ps) \<and> typed A S' s'
     \<and> (\<forall>c < next_cell (cells s). S' c = S c) \<and> (\<forall>(t, sh) \<in> set ps. shaped S' t sh)"

text \<open>A layout depends on the shapes of the cells it mentions only.\<close>

definition agree :: "(cell_id \<Rightarrow> shape) \<Rightarrow> (cell_id \<Rightarrow> shape) \<Rightarrow> ty \<Rightarrow> bool" where
  "agree S S' t \<longleftrightarrow> (\<forall>c \<in> set (ty_cells t). S' c = S c)"

lemma sub_agree: "agree S S' t \<Longrightarrow> u \<in> set (sub_tys t) \<Longrightarrow> agree S S' u"
  using ty_cells_sub unfolding agree_def by blast

lemma span_cong: "agree S S' t \<Longrightarrow> span S' t = span S t"
proof (induction S t rule: span.induct)
  case (7 S nm fs)
  have "span S' (f_ty f) = span S (f_ty f)" if "f \<in> set fs" for f
    using that 7(1) sub_agree [OF 7(2)] by auto
  then have "map (\<lambda>f. f_offset f + span S' (f_ty f)) fs = map (\<lambda>f. f_offset f + span S (f_ty f)) fs" by simp
  then show ?case unfolding span.simps by (rule arg_cong)
next
  case (8 S fs)
  have "span S' (f_ty f) = span S (f_ty f)" if "f \<in> set fs" for f
    using that 8(1) sub_agree [OF 8(2)] by auto
  then have "map (\<lambda>f. f_offset f + span S' (f_ty f)) fs = map (\<lambda>f. f_offset f + span S (f_ty f)) fs" by simp
  then show ?case unfolding span.simps by (rule arg_cong)
qed (simp_all add: agree_def)

lemma niche_cong: "agree S S' t \<Longrightarrow> niche S' t off ds nd = niche S t off ds nd"
proof (induction S t off ds nd rule: niche.induct)
  case (3 S nm fs off ds nd)
  then have "niche S' (f_ty f) (off - f_offset f) ds nd = niche S (f_ty f) (off - f_offset f) ds nd" if "f \<in> set fs" for f
    using that sub_agree [OF 3(2)] by auto
  then show ?case by auto
next
  case (4 S fs off ds nd)
  then have "niche S' (f_ty f) (off - f_offset f) ds nd = niche S (f_ty f) (off - f_offset f) ds nd" if "f \<in> set fs" for f
    using that sub_agree [OF 4(2)] by auto
  then show ?case by auto
next
  case (9 S disc_off ds' nd' sd' po sz inner off ds nd)
  then have "niche S' inner (off - po) ds nd = niche S inner (off - po) ds nd" if "sd' = None"
    using that sub_agree [OF 9(2)] by auto
  then show ?case by (auto split: option.splits)
qed (simp_all add: agree_def)

lemma apart_cong:
  "(\<And>f. f \<in> set fs \<Longrightarrow> span S' (f_ty f) = span S (f_ty f)) \<Longrightarrow>
   sorted_wrt (fields_apart S') fs = sorted_wrt (fields_apart S) fs"
  by (auto simp: sorted_wrt_iff_nth_less fields_apart_def)

lemma lay_cong: "agree S S' t \<Longrightarrow> lay_ok S' t = lay_ok S t"
proof (induction S t rule: lay_ok.induct)
  case (3 S nm fs)
  then have "lay_ok S' (f_ty f) = lay_ok S (f_ty f)" "span S' (f_ty f) = span S (f_ty f)" if "f \<in> set fs" for f
    using that sub_agree [OF 3(2)] span_cong by auto
  then show ?case using apart_cong [of fs S' S] by simp
next
  case (4 S fs)
  then have "lay_ok S' (f_ty f) = lay_ok S (f_ty f)" "span S' (f_ty f) = span S (f_ty f)" if "f \<in> set fs" for f
    using that sub_agree [OF 4(2)] span_cong by auto
  then show ?case using apart_cong [of fs S' S] by simp
next
  case (6 S t esz al q)
  have "agree S S' t" by (rule sub_agree [OF 6(2)]) simp
  then show ?case using 6(1) span_cong by simp
next
  case (8 S t sz al)
  have "agree S S' t" by (rule sub_agree [OF 8(2)]) simp
  then show ?case using 8(1) span_cong by simp
next
  case (9 S disc_off ds nd sd po sz t)
  have "agree S S' t" by (rule sub_agree [OF 9(2)]) simp
  then show ?case using 9(1) span_cong niche_cong by (simp split: option.splits)
next
  case (10 S k ks t vs na ins)
  have "agree S S' k" "agree S S' t" by (rule sub_agree [OF 10(3)]; simp)+
  then show ?case using 10(1,2) span_cong by simp
qed simp_all

lemma shaped_cong: "agree S S' t \<Longrightarrow> shaped S' t sh = shaped S t sh"
  using span_cong niche_cong lay_cong by (simp add: shaped_def)

lemma shaped_leaf: "ty_cells t = [] \<Longrightarrow> leaf_laid t sh \<Longrightarrow> shaped S t sh"
  unfolding leaf_laid_def using shaped_cong [of "\<lambda>_. (0, [])" S t sh] by (simp add: agree_def)

lemma shaped_weaken:
  "shaped S t sh' \<Longrightarrow> fst sh' \<le> fst sh \<Longrightarrow> set (snd sh) \<subseteq> set (snd sh') \<Longrightarrow> shaped S t sh"
  unfolding shaped_def by fastforce

section \<open>Steps of a typed walk\<close>

lemma typed_step_refl:
  "ok_state s \<Longrightarrow> typed A S s \<Longrightarrow> (\<And>t sh. (t, sh) \<in> set ps \<Longrightarrow> ty_cells t = [] \<and> shaped S t sh) \<Longrightarrow> typed_step A S s S s ps"
  unfolding typed_step_def by (auto intro!: yields_refl)

lemma typed_stepD:
  assumes "typed_step A S s S' s' ps"
  shows "ok_state s'" and "typed A S' s'" and "(t, sh) \<in> set ps \<Longrightarrow> shaped S' t sh"
  using assms by (auto simp: typed_step_def yields_def)

text \<open>What was grounded before a step keeps its shape.\<close>

lemma grounded_agree:
  assumes "ok_state s" and "grounded s t" and "\<forall>c < next_cell (cells s). S' c = S c"
  shows "agree S S' t"
proof -
  have "c < next_cell (cells s)" if "c \<in> live_cells s" for c
    using that assms(1) by (auto simp: live_cells_def ok_state_def)
  then show ?thesis using assms(2,3) by (auto simp: agree_def grounded_def)
qed

lemma typed_step_trans:
  assumes 1: "typed_step A S s S1 s1 ps" and 2: "typed_step A S1 s1 S2 s2 qs"
  shows "typed_step A S s S2 s2 (ps @ qs)"
proof -
  have y: "yields s s1 (map fst ps)" "yields s1 s2 (map fst qs)" using 1 2 by (simp_all add: typed_step_def)
  have old: "\<forall>c < next_cell (cells s1). S2 c = S1 c" using 2 by (simp add: typed_step_def)
  have "shaped S2 t sh" if "(t, sh) \<in> set ps" for t sh
  proof -
    have "grounded s1 t" using y(1) that by (force simp: yields_def)
    then have "agree S1 S2 t" using grounded_agree [OF _ _ old] y(1) by (simp add: yields_def)
    then show ?thesis using typed_stepD(3) [OF 1 that] by (simp add: shaped_cong)
  qed
  moreover have "next_cell (cells s) \<le> next_cell (cells s1)" using y(1) by (simp add: yields_def evolves_def)
  ultimately show ?thesis using 1 2 yields_trans [OF y] unfolding typed_step_def by auto
qed

text \<open>A step for the parts is one for the whole.\<close>

lemma typed_step_whole:
  "typed_step A S s S' s' ps \<Longrightarrow> yields s s' [t] \<Longrightarrow> shaped S' t sh \<Longrightarrow> typed_step A S s S' s' [(t, sh)]"
  by (simp add: typed_step_def)

section \<open>Entering and leaving a type\<close>

lemma typed_enter:
  assumes s: "ok_state s" "memo s key = None" "enter key s = (c, s1)" and ty: "typed A S s" "map_of A key = Some sh"
  shows "typed A (S(c := sh)) s1"
proof -
  note e = enter_ok [OF s]
  have ag: "agree S (S(c := sh)) b" if "cell_body (cells s) d = Some b" for d b
    by (rule grounded_agree [OF s(1)]) (use s(1) that e(3) in \<open>auto simp: ok_state_def grounded_def\<close>)
  have "d \<noteq> c" if "memo s k = Some d \<or> cell_body (cells s) d = Some b" for k d b
    using that s(1) ranI [of "memo s" k d] e(3) by (auto simp: ok_state_def)
  moreover have "shaped (S(c := sh)) b (S d)" if "cell_body (cells s) d = Some b" for d b
    using shaped_cong [OF ag [OF that]] ty(1) that by (simp add: typed_def cells_ok_def)
  ultimately show ?thesis
    using ty e(2,5) by (auto simp: typed_def cells_ok_def)
qed

lemma leave_cells:
  "cell_body (cells (leave key c body s)) = cell_body (cells s)
   \<or> cell_body (cells s) c = None \<and> cell_body (cells (leave key c body s)) = (cell_body (cells s))(c \<mapsto> body)"
  by (auto simp: leave_def cell_set_def split: option.splits)

lemma typed_leave:
  assumes s: "ok_state s" "memo s key = None" "enter key s = (c, s1)"
    and step: "typed_step A (S(c := sh)) s1 S' s2 [(body, sh)]"
  shows "typed_step A S s S' (leave key c body s2) [(body, sh)]"
proof -
  note e = enter_ok [OF s]
  let ?s = "leave key c body s2"
  have y: "yields s ?s [body]" using leave_yields [OF s] step by (simp add: typed_step_def)
  have S': "\<forall>d < next_cell (cells s1). S' d = (S(c := sh)) d" and ty: "typed A S' s2" and b: "shaped S' body sh"
    using step by (simp_all add: typed_step_def)
  then have c: "S' c = sh" using e(4) by simp
  have "memo ?s = (memo s2)(key := None)" by (simp add: leave_def)
  then have "typed A S' ?s"
    using ty b c leave_cells [of key c body s2] by (auto simp: typed_def cells_ok_def split: if_splits)
  moreover have "\<forall>d < next_cell (cells s). S' d = S d" using S' e(3,6) by auto
  ultimately show ?thesis using y b by (simp add: typed_step_def)
qed

section \<open>Aggregates\<close>

lemma span_struct_le: "span S (TStruct nm fs) \<le> k \<longleftrightarrow> (\<forall>f \<in> set fs. f_offset f + span S (f_ty f) \<le> k)"
  by (simp add: fold_max_le)

lemma sorted_wrt_perm:
  assumes "sorted_wrt P xs" and sym: "\<And>x y. P x y \<Longrightarrow> P y x" and "mset ys = mset xs"
  shows "sorted_wrt P ys"
  using assms(1,3)
proof (induction ys arbitrary: xs)
  case (Cons y ys)
  then have "y \<in> set xs" by (metis list.set_intros(1) set_mset_mset)
  then obtain us vs where xs: "xs = us @ y # vs" by (meson split_list)
  then have "P y x" if "x \<in> set (us @ vs)" for x
    using Cons.prems(1) that sym by (auto simp: sorted_wrt_append)
  moreover have m: "mset ys = mset (us @ vs)" using Cons.prems(2) xs by simp
  moreover have "sorted_wrt P (us @ vs)" using Cons.prems(1) xs by (simp add: sorted_wrt_append)
  ultimately show ?case using Cons.IH mset_eq_setD [OF m] by simp
qed simp

definition fits :: "field \<Rightarrow> bytes \<times> nat \<times> shape \<Rightarrow> bool" where
  "fits f p \<longleftrightarrow> f_name f = fst p \<and> f_offset f = fst (snd p)"

lemma fits_map: "list_all2 fits fs ps \<Longrightarrow> map f_name fs = map fst ps"
  by (induction rule: list_all2_induct) (simp_all add: fits_def)

lemma struct_shaped:
  assumes "list_all2 (\<lambda>f p. fits f p \<and> shaped S (f_ty f) (snd (snd p))) fs ps" and laid: "members_laid ps sh"
  shows "shaped S (TStruct nm fs) sh" and "mset gs = mset fs \<Longrightarrow> shaped S (TTuple gs) sh"
proof -
  have len: "length fs = length ps"
    and nth: "\<And>i. i < length ps \<Longrightarrow> fits (fs ! i) (ps ! i) \<and> shaped S (f_ty (fs ! i)) (snd (snd (ps ! i)))"
    using assms(1) by (simp_all add: list_all2_conv_all_nth)
  have sp: "f_offset (fs ! i) = fst (snd (ps ! i))" "span S (f_ty (fs ! i)) \<le> fst (snd (snd (ps ! i)))" if "i < length ps" for i
    using nth [OF that] by (simp_all add: fits_def shaped_def)
  have ap: "sorted_wrt (fields_apart S) fs"
    unfolding sorted_wrt_iff_nth_less
  proof (intro allI impI)
    fix i j assume ij: "i < j" "j < length fs"
    then have "places_apart (ps ! i) (ps ! j)" using laid len by (simp add: members_laid_def sorted_wrt_iff_nth_less)
    then show "fields_apart S (fs ! i) (fs ! j)"
      using ij len sp [of i] sp [of j] unfolding fields_apart_def places_apart_def by linarith
  qed
  have names: "distinct (map f_name fs)"
    using laid fits_map [OF list_all2_mono [OF assms(1)]] by (simp add: members_laid_def)
  have wf: "lay_ok S (f_ty f)" if "f \<in> set fs" for f
    using that nth len by (auto simp: in_set_conv_nth shaped_def)
  have le: "f_offset f + span S (f_ty f) \<le> fst sh" if f: "f \<in> set fs" for f
  proof -
    obtain i where i: "i < length ps" "f = fs ! i" using f len by (auto simp: in_set_conv_nth)
    then have "fst (snd (ps ! i)) + fst (snd (snd (ps ! i))) \<le> fst sh"
      using laid by (simp add: members_laid_def list_all_length)
    then show ?thesis using sp [OF i(1)] i(2) by simp
  qed
  have ni: "\<exists>f \<in> set fs. f_offset f \<le> o' \<and> niche S (f_ty f) (o' - f_offset f) d v" if x: "(o', d, v) \<in> set (snd sh)" for o' d v
  proof -
    obtain i where i: "i < length ps" "fst (snd (ps ! i)) \<le> o'" "(o' - fst (snd (ps ! i)), d, v) \<in> set (snd (snd (snd (ps ! i))))"
      using laid x by (fastforce simp: members_laid_def list_all_iff list_ex_length)
    then have "niche S (f_ty (fs ! i)) (o' - f_offset (fs ! i)) d v"
      using nth [OF i(1)] by (auto simp: shaped_def fits_def)
    then show ?thesis using i(1,2) sp(1) [OF i(1)] len by (intro bexI [of _ "fs ! i"]) simp_all
  qed
  show "shaped S (TStruct nm fs) sh"
    using wf ap names le ni by (auto simp: shaped_def span_struct_le simp del: span.simps)
  assume g: "mset gs = mset fs"
  then have "set gs = set fs" by (rule mset_eq_setD)
  moreover have "sorted_wrt (fields_apart S) gs"
    by (rule sorted_wrt_perm [OF ap _ g]) (auto simp: fields_apart_def)
  moreover have "span S (TTuple gs) = span S (TStruct nm gs)" by simp
  ultimately show "shaped S (TTuple gs) sh"
    using wf le ni by (auto simp: shaped_def span_struct_le simp del: span.simps)
qed

section \<open>Variants\<close>

text \<open>What the walk over the variants has found, after the variants \<open>arms\<close>.\<close>

definition found ::
  "shapes \<Rightarrow> (cell_id \<Rightarrow> shape) \<Rightarrow> cstate \<Rightarrow> (cell_id \<Rightarrow> shape) \<Rightarrow> cstate \<Rightarrow> arm list \<Rightarrow> variants \<Rightarrow> bool" where
  "found A S0 s0 S s arms r \<longleftrightarrow>
     (unit_arms arms = [] \<and> v_none r = None \<or> v_none r \<in> set (unit_arms arms))
     \<and> (case v_some r of
          None \<Rightarrow> some_arms arms = [] \<and> typed_step A S0 s0 S s []
        | Some (sd, po, t) \<Rightarrow> \<exists>sh. (sd, po, sh) \<in> set (some_arms arms) \<and> typed_step A S0 s0 S s [(t, sh)])"

lemma arms_append:
  "unit_arms (as @ bs) = unit_arms as @ unit_arms bs" "some_arms (as @ bs) = some_arms as @ some_arms bs"
  by (simp_all add: unit_arms_def some_arms_def)

lemma arms_single [simp]:
  "unit_arms [] = []" "unit_arms [No_Arm] = []" "unit_arms [Unit_Arm dv] = [dv]" "unit_arms [Some_Arm dv po sh] = []"
  "some_arms [] = []" "some_arms [No_Arm] = []" "some_arms [Unit_Arm dv] = []" "some_arms [Some_Arm dv po sh] = [(dv, po, sh)]"
  by (simp_all add: unit_arms_def some_arms_def)

lemma found_step: "found A S0 s0 S s arms r \<Longrightarrow> \<exists>ps. typed_step A S0 s0 S s ps"
  unfolding found_def by (cases "v_some r") auto

lemma typed_step_part: "typed_step A S s S' s' (ps @ qs) \<Longrightarrow> typed_step A S s S' s' qs"
  by (auto simp: typed_step_def yields_def)

lemma option_shaped:
  assumes f: "found A S0 s0 S s arms r" and laid: "arms_laid sz disc_off ds arms sh"
  obtains nd sd po t where "v_none r = Some nd" "v_some r = Some (sd, po, t)" "shaped S (TOpt disc_off ds nd sd po sz t) sh"
proof -
  from f laid obtain nd where nd: "v_none r = Some nd" "Some nd \<in> set (unit_arms arms)"
    by (auto simp: found_def arms_laid_def list_all_iff)
  obtain sd po t inner where sm: "v_some r = Some (sd, po, t)" "(sd, po, inner) \<in> set (some_arms arms)"
    "typed_step A S0 s0 S s [(t, inner)]"
    using f laid by (auto simp: found_def arms_laid_def split: option.splits)
  have i: "shaped S t inner" using typed_stepD(3) [OF sm(3)] by simp
  have a: "arms_apart sz disc_off ds nd (sd, po, inner)" "\<And>x. x \<in> set (snd sh) \<Longrightarrow> arms_niche disc_off ds nd (sd, po, inner) x"
    using laid nd(2) sm(2) by (fastforce simp: arms_laid_def list_all_iff)+
  have b: "int_width ds" "disc_off + ds \<le> sz" "sz \<le> fst sh" using laid by (simp_all add: arms_laid_def)
  have "lay_ok S (TOpt disc_off ds nd sd po sz t)"
    using a(1) b i by (auto simp: arms_apart_def shaped_def split: option.splits)
  moreover have "niche S (TOpt disc_off ds nd sd po sz t) o' d v" if "(o', d, v) \<in> set (snd sh)" for o' d v
    using a(1) a(2) [OF that] i by (auto simp: arms_niche_def arms_apart_def shaped_def split: option.splits)
  ultimately have "shaped S (TOpt disc_off ds nd sd po sz t) sh" using b(3) by (auto simp: shaped_def)
  then show thesis using that nd sm by blast
qed

section \<open>Maps\<close>

text \<open>What the checker has seen of a map, and what \<open>btree_map\<close> makes of it.\<close>

definition map_seen :: "nat \<Rightarrow> u64 \<Rightarrow> dstore \<Rightarrow> shapes \<Rightarrow> dunit \<Rightarrow> nat \<Rightarrow> nat \<Rightarrow> nat \<times> shape \<times> nat \<Rightarrow> nat \<times> shape \<times> nat \<Rightarrow> nat \<Rightarrow> nat \<Rightarrow> bool" where
  "map_seen N slide st A u ui off key val na ins \<longleftrightarrow> (case key of (k, ksh, ks) \<Rightarrow> case val of (v, vsh, vs) \<Rightarrow>
     \<exists>k' v' name. template_named N u off (ascii ''K'') = Inr (Some k) \<and> template_named N u off (ascii ''V'') = Inr (Some v)
       \<and> name_or_empty N u v = Inr name \<and> shape_of N st A ui k = Inr ksh \<and> strip N u k = Inr k'
       \<and> shape_of N st A ui v = Inr vsh \<and> strip N u v = Inr v'
       \<and> resolve_tramp N slide st (ascii ''map_new_at'') name False = Inr (Some na)
       \<and> resolve_tramp N slide st (ascii ''map_insert'') name True = Inr (Some ins)
       \<and> ks = udata_or u k' DW_AT_byte_size 24 \<and> vs = udata_or u v' DW_AT_byte_size 1)"

lemma map_laidE:
  assumes "map_laid N slide st A u ui off sh = Inr ()"
  obtains k ksh ks v vsh vs na ins where "map_seen N slide st A u ui off (k, ksh, ks) (v, vsh, vs) na ins"
    "fst ksh \<le> ks" "fst vsh \<le> vs" "24 \<le> fst sh" "snd sh = []"
  using assms by (auto simp: map_laid_def map_seen_def bindR_eq_Inr expect_def split: option.splits)

lemma btree_map_seen:
  assumes g: "good_unit N u" "good_store N st" and m: "map_seen N slide st A u ui off (k, ksh, ks) (v, vsh, vs) na ins"
    and r: "btree_map cl n slide st u ui off s = Inr (t, s')"
  obtains kt s1 vt where "cl ui k s = Inr (kt, s1)" "cl ui v s1 = Inr (vt, s')" "t = TMap kt ks vt vs na ins"
proof -
  from m obtain k' v' name where l: "template_named N u off (ascii ''K'') = Inr (Some k)" "template_named N u off (ascii ''V'') = Inr (Some v)"
    "name_or_empty N u v = Inr name" "strip N u k = Inr k'" "strip N u v = Inr v'"
    "resolve_tramp N slide st (ascii ''map_new_at'') name False = Inr (Some na)"
    "resolve_tramp N slide st (ascii ''map_insert'') name True = Inr (Some ins)"
    "ks = udata_or u k' DW_AT_byte_size 24" "vs = udata_or u v' DW_AT_byte_size 1"
    by (auto simp: map_seen_def)
  from r obtain k2 v2 name2 kt s1 k3 vt v3 na2 ins2 where f: "template_named n u off (ascii ''K'') = Inr (Some k2)"
    "template_named n u off (ascii ''V'') = Inr (Some v2)" "name_or_empty n u v2 = Inr name2" "cl ui k2 s = Inr (kt, s1)"
    "strip n u k2 = Inr k3" "cl ui v2 s1 = Inr (vt, s')" "strip n u v2 = Inr v3"
    "resolve_tramp n slide st (ascii ''map_new_at'') name2 False = Inr (Some na2)"
    "resolve_tramp n slide st (ascii ''map_insert'') name2 True = Inr (Some ins2)"
    "t = TMap kt (udata_or u k3 DW_AT_byte_size 24) vt (udata_or u v3 DW_AT_byte_size 1) na2 ins2"
    by (auto simp: btree_map_def bindR_eq_Inr Let_def expect_def split: option.splits)
  have e: "k2 = k" "v2 = v" using settled_unit(8) [OF g(1) f(1)] settled_unit(8) [OF g(1) f(2)] l(1,2) by simp_all
  then have e': "name2 = name" "k3 = k'" "v3 = v'"
    using settled_unit(4) [OF g(1) f(3)] settled_unit(3) [OF g(1) f(5)] settled_unit(3) [OF g(1) f(7)] l(3-5) by simp_all
  then have "na2 = na" "ins2 = ins" using settled_store(3) [OF g(2) f(8)] settled_store(3) [OF g(2) f(9)] l(6,7) by simp_all
  then show thesis using that f(4,6,10) e e' l(8,9) by simp
qed

section \<open>The contract of the recursive call\<close>

locale shaped_classifier = grounded_classifier cl for cl :: classifier +
  fixes N R :: nat and slide :: u64 and st :: dstore and A :: shapes
  assumes cl_shaped: "laid_out N R slide st A \<Longrightarrow> ok_state s \<Longrightarrow> typed A S s \<Longrightarrow> shape_of N st A ui off = Inr sh \<Longrightarrow> cl ui off s = Inr (t, s') \<Longrightarrow>
      \<exists>S'. typed_step A S s S' s' [(t, sh)]"
begin

lemma boxed_shaped:
  assumes s: "laid_out N R slide st A" "ok_state s" "typed A S s" and g: "good_unit N u"
    and laid: "pointer_laid N st A u ui off sh = Inr ()" and r: "boxed cl n u ui off name s = Inr (t, s')"
  shows "\<exists>S'. typed_step A S s S' s' [(t, sh)]"
proof -
  obtain p p' inner al where l: "type_ref N u off = Inr (Some p)" "shape_of N st A ui p = Inr inner" "strip N u p = Inr p'"
      "align_of u p' (udata_or u p' DW_AT_byte_size 0) = Inr al"
    and ok: "fst inner \<le> udata_or u p' DW_AT_byte_size 0" "is_pow2 (max 1 al)"
      "udata_or u p' DW_AT_byte_size 0 + (max 1 al - 1) < 2 ^ 63" "8 \<le> fst sh" "list_all (\<lambda>x. x = (0, 8, 0)) (snd sh)"
    using laid by (auto simp: pointer_laid_def bindR_eq_Inr Let_def expect_def split: option.splits)
  from r l(1) settled_unit(2) [OF g] obtain p1 x where r': "type_ref n u off = Inr p1" "p1 = Some p" "cl ui p s = Inr (x, s')"
      "\<exists>q. strip n u p = Inr q \<and> (\<exists>a. align_of u q (udata_or u q DW_AT_byte_size 0) = Inr a
        \<and> t = TBoxed x (udata_or u q DW_AT_byte_size 0) a)"
    by (fastforce simp: boxed_def bindR_eq_Inr Let_def split: option.splits)
  then have t: "t = TBoxed x (udata_or u p' DW_AT_byte_size 0) al"
    using settled_unit(3) [OF g] l(3,4) by fastforce
  obtain S' where S': "typed_step A S s S' s' [(x, inner)]" using cl_shaped [OF s l(2) r'(3)] by blast
  then have "shaped S' t sh" using ok t by (auto simp: typed_step_def shaped_def list_all_iff)
  then show ?thesis using typed_step_whole [OF S' boxed_yields [OF s(2) r]] by blast
qed

lemma vec_shaped:
  assumes s: "laid_out N R slide st A" "ok_state s" "typed A S s" and g: "good_unit N u"
    and laid: "vec_laid N st A u ui off sh = Inr ()" and r: "vec cl n st u ui off s = Inr (t, s')"
  shows "\<exists>S'. typed_step A S s S' s' [(t, sh)]"
proof -
  obtain e e' inner al q where l: "template_param N u off = Inr (Some e)" "shape_of N st A ui e = Inr inner" "strip N u e = Inr e'"
      "align_of u e' (udata_or u e' DW_AT_byte_size 1) = Inr al" "seq_layout N st ui off = Inr q"
    and ok: "fst inner \<le> udata_or u e' DW_AT_byte_size 1" "0 < udata_or u e' DW_AT_byte_size 1" "is_pow2 (max 1 al)" "seq_ok q"
      "seq_span q \<le> fst sh" "list_all (\<lambda>(o', d, v). seq_niche q o' d v) (snd sh)"
    using laid by (auto simp: vec_laid_def bindR_eq_Inr Let_def expect_def split: option.splits)
  from r obtain e1 x e2 al2 q2 where r': "template_param n u off = Inr (Some e1)" "cl ui e1 s = Inr (x, s')" "strip n u e1 = Inr e2"
      "align_of u e2 (udata_or u e2 DW_AT_byte_size 1) = Inr al2" "seq_layout n st ui off = Inr q2"
      "t = TVec x (udata_or u e2 DW_AT_byte_size 1) al2 q2"
    by (auto simp: vec_def bindR_eq_Inr Let_def expect_def split: option.splits)
  have "e1 = e" "q2 = q" using settled_unit(5) [OF g r'(1)] settled_store(2) [OF laid_good [OF s(1)] r'(5)] l(1,5) by simp_all
  moreover from this have "e2 = e'" using settled_unit(3) [OF g r'(3)] l(3) by simp
  ultimately have t: "t = TVec x (udata_or u e' DW_AT_byte_size 1) al q" and x: "cl ui e s = Inr (x, s')"
    using r' l(4) by simp_all
  obtain S' where S': "typed_step A S s S' s' [(x, inner)]" using cl_shaped [OF s l(2) x] by blast
  then have "shaped S' t sh" using ok t by (auto simp: typed_step_def shaped_def list_all_iff)
  then show ?thesis using typed_step_whole [OF S' vec_yields [OF s(2) r]] by blast
qed

lemma btree_map_shaped:
  assumes s: "laid_out N R slide st A" "ok_state s" "typed A S s" and g: "good_unit N u"
    and laid: "map_laid N slide st A u ui off sh = Inr ()" and r: "btree_map cl n slide st u ui off s = Inr (t, s')"
  shows "\<exists>S'. typed_step A S s S' s' [(t, sh)]"
proof -
  obtain k ksh ks v vsh vs na ins where m: "map_seen N slide st A u ui off (k, ksh, ks) (v, vsh, vs) na ins"
    and ok: "fst ksh \<le> ks" "fst vsh \<le> vs" "24 \<le> fst sh" "snd sh = []"
    by (rule map_laidE [OF laid])
  obtain kt s1 vt where f: "cl ui k s = Inr (kt, s1)" "cl ui v s1 = Inr (vt, s')" "t = TMap kt ks vt vs na ins"
    by (rule btree_map_seen [OF g laid_good [OF s(1)] m r])
  have sh: "shape_of N st A ui k = Inr ksh" "shape_of N st A ui v = Inr vsh" using m by (auto simp: map_seen_def)
  obtain S1 where S1: "typed_step A S s S1 s1 [(kt, ksh)]" using cl_shaped [OF s sh(1) f(1)] by blast
  obtain S' where S': "typed_step A S1 s1 S' s' [(vt, vsh)]"
    using cl_shaped [OF s(1) typed_stepD(1,2) [OF S1] sh(2) f(2)] by blast
  have both: "typed_step A S s S' s' ([(kt, ksh)] @ [(vt, vsh)])" by (rule typed_step_trans [OF S1 S'])
  then have "shaped S' kt ksh" "shaped S' vt vsh" using typed_stepD(3) [OF both] by simp_all
  then have "shaped S' t sh" using ok f(3) by (auto simp: shaped_def)
  then show ?thesis using typed_step_whole [OF both btree_map_yields [OF s(2) r]] by blast
qed

lemma members_shaped:
  "laid_out N R slide st A \<Longrightarrow> ok_state s \<Longrightarrow> typed A S s \<Longrightarrow> good_unit N u \<Longrightarrow> read_members N st A u ui ms = Inr ps \<Longrightarrow>
   members cl n u ui ms s = Inr (fs, s') \<Longrightarrow>
   \<exists>S'. typed_step A S s S' s' (zip (map f_ty fs) (map (snd \<circ> snd) ps)) \<and> list_all2 fits fs ps"
proof (induction ms arbitrary: s S fs ps)
  case Nil
  then show ?case by (auto intro!: exI [of _ S] typed_step_refl)
next
  case (Cons m ms)
  show ?case
  proof (cases "tag u m = Inr DW_TAG_member")
    case False
    then have "read_members N st A u ui ms = Inr ps" "members cl n u ui ms s = Inr (fs, s')"
      using Cons.prems(5,6) by (auto simp: bindR_eq_Inr)
    then show ?thesis using Cons.IH Cons.prems(1-4) by blast
  next
    case True
    let ?off = "udata_or u m DW_AT_data_member_location 0"
    obtain nm t sh ps1 where p: "name_or_empty N u m = Inr nm" "type_ref N u m = Inr (Some t)" "shape_of N st A ui t = Inr sh"
      "read_members N st A u ui ms = Inr ps1" "ps = (nm, ?off, sh) # ps1"
      using Cons.prems(5) True by (auto simp: bindR_eq_Inr Let_def expect_def split: option.splits)
    obtain nm' ft ty s1 fs1 where f: "name_or_empty n u m = Inr nm'" "type_ref n u m = Inr ft"
      "(case ft of Some t \<Rightarrow> cl ui t s | None \<Rightarrow> Inr (TUnknown ''?'', s)) = Inr (ty, s1)"
      "members cl n u ui ms s1 = Inr (fs1, s')" "fs = Field nm' ?off ty # fs1"
      using Cons.prems(6) True by (auto simp: bindR_eq_Inr Let_def)
    have "nm' = nm" "ft = Some t"
      using settled_unit(2,4) [OF Cons.prems(4), where n = n] f(1,2) p(1,2) by fastforce+
    then obtain S1 where S1: "typed_step A S s S1 s1 [(ty, sh)]"
      using cl_shaped [OF Cons.prems(1-3) p(3)] f(3) by auto
    then obtain S' where S': "typed_step A S1 s1 S' s' (zip (map f_ty fs1) (map (snd \<circ> snd) ps1))" "list_all2 fits fs1 ps1"
      using Cons.IH [OF Cons.prems(1) typed_stepD(1,2) [OF S1] Cons.prems(4) p(4) f(4)] by blast
    show ?thesis
      using typed_step_trans [OF S1 S'(1)] S'(2) p(5) f(5) \<open>nm' = nm\<close>
      by (intro exI [of _ S']) (simp add: comp_def fits_def [of "Field nm off' ty" for off'])
  qed
qed

lemma variant_read:
  assumes g: "good_unit N u" and a: "read_arm N st A u ui v = Inr a" and r: "variant_step cl n u ui v (r, s) = Inr (r', s')"
  shows "(case a of
      No_Arm \<Rightarrow> r' = r \<and> s' = s
    | Unit_Arm dv \<Rightarrow> r' = r\<lparr>v_none := dv\<rparr> \<and> s' = s
    | Some_Arm dv po sh \<Rightarrow> \<exists>t x. shape_of N st A ui x = Inr sh \<and> cl ui x s = Inr (t, s') \<and> r' = r\<lparr>v_some := Some (dv, po, t)\<rparr>)"
  using a r unfolding read_arm_def variant_step_def
  by (auto simp: bindR_eq_Inr Let_def split: if_splits option.splits
      dest!: settled_unit(2) [OF g, where n = n] settled_unit(3) [OF g, where n = n] settled_unit(6) [OF g, where n = n])
    metis+

lemma found_next:
  assumes s: "laid_out N R slide st A" "ok_state s" "typed A S s" "found A S0 s0 S s arms r" and g: "good_unit N u" and a: "read_arm N st A u ui v = Inr a"
    and r: "variant_step cl n u ui v (r, s) = Inr (r', s')"
  shows "\<exists>S'. ok_state s' \<and> typed A S' s' \<and> found A S0 s0 S' s' (arms @ [a]) r'"
proof (cases a)
  case (Some_Arm dv po sh)
  then obtain t x where x: "shape_of N st A ui x = Inr sh" "cl ui x s = Inr (t, s')" "r' = r\<lparr>v_some := Some (dv, po, t)\<rparr>"
    using variant_read [OF g a r] by auto
  obtain S' where S': "typed_step A S s S' s' [(t, sh)]" using cl_shaped [OF s(1,2,3) x(1,2)] by blast
  obtain ps where "typed_step A S0 s0 S s ps" using found_step [OF s(4)] by blast
  then have "typed_step A S0 s0 S' s' [(t, sh)]" using typed_step_part typed_step_trans S' by blast
  then have "found A S0 s0 S' s' (arms @ [a]) r'"
    using s(4) Some_Arm x(3) by (cases sh) (auto simp: found_def arms_append)
  then show ?thesis using typed_stepD(1,2) [OF S'] by blast
qed (use variant_read [OF g a r] s in \<open>fastforce simp: found_def arms_append split: option.splits\<close>)+

lemma variants_found:
  "laid_out N R slide st A \<Longrightarrow> ok_state s \<Longrightarrow> typed A S s \<Longrightarrow> found A S0 s0 S s done r \<Longrightarrow> good_unit N u \<Longrightarrow> map_res (read_arm N st A u ui) vs = Inr arms \<Longrightarrow>
   fold_res (variant_step cl n u ui) vs (r, s) = Inr (r', s') \<Longrightarrow> \<exists>S'. found A S0 s0 S' s' (done @ arms) r'"
proof (induction vs arbitrary: r s S arms "done")
  case (Cons v vs)
  from Cons.prems(6,7) obtain a arms1 r1 s1 where 1: "read_arm N st A u ui v = Inr a" "map_res (read_arm N st A u ui) vs = Inr arms1"
    "arms = a # arms1" "variant_step cl n u ui v (r, s) = Inr (r1, s1)" "fold_res (variant_step cl n u ui) vs (r1, s1) = Inr (r', s')"
    by (auto simp: bindR_eq_Inr)
  obtain S1 where "ok_state s1" "typed A S1 s1" "found A S0 s0 S1 s1 (done @ [a]) r1"
    using found_next [OF Cons.prems(1-5) 1(1,4)] by blast
  from Cons.IH [OF Cons.prems(1) this Cons.prems(5) 1(2,5)] show ?case using 1(3) by simp
qed auto

lemma parse_option_shaped:
  assumes s: "laid_out N R slide st A" "ok_state s" "typed A S s" and g: "good_unit N u"
    and laid: "option_laid N st A u ui off vp sh = Inr ()" and r: "parse_option cl n u ui off vp name s = Inr (t, s')"
  shows "\<exists>S'. typed_step A S s S' s' [(t, sh)]"
proof -
  let ?sz = "udata_or u off DW_AT_byte_size 0"
  obtain m where m: "attr_of u vp DW_AT_discr = Some (UnitRef m)"
    using laid by (auto simp: option_laid_def split: option.splits aval.splits)
  let ?doff = "udata_or u m DW_AT_data_member_location 0"
  let ?width = "\<lambda>n dt. case dt of None \<Rightarrow> Inr 8 | Some t \<Rightarrow> bindR (strip n u t) (\<lambda>t. Inr (udata_or u t DW_AT_byte_size 8))"
  obtain dt ds vs arms where l: "type_ref N u m = Inr dt" "?width N dt = Inr ds" "child_offsets u vp = Inr vs"
      "map_res (read_arm N st A u ui) vs = Inr arms" "arms_laid ?sz ?doff (ds mod 256) arms sh"
    using laid m by (auto simp: option_laid_def bindR_eq_Inr)
  obtain dt' ds' v where f: "type_ref n u m = Inr dt'" "?width n dt' = Inr ds'"
      "fold_res (variant_step cl n u ui) vs (\<lparr>v_none = None, v_some = None\<rparr>, s) = Inr (v, s')"
      "\<And>nd sd po x. v_none v = Some nd \<Longrightarrow> v_some v = Some (sd, po, x) \<Longrightarrow> t = TOpt ?doff (ds' mod 256) nd sd po ?sz x"
    using r m l(3) by (auto simp: parse_option_def bindR_eq_Inr Let_def)
  have "dt' = dt" using settled_unit(2) [OF g f(1)] l(1) by simp
  then have ds: "ds' = ds"
    using f(2) l(2) settled_unit(3) [OF g, where n = n] by (fastforce simp: bindR_eq_Inr split: option.splits)
  have "found A S s S s [] \<lparr>v_none = None, v_some = None\<rparr>"
    using s(2,3) by (auto simp: found_def intro: typed_step_refl)
  from variants_found [OF s this g l(4) f(3)] obtain S' where fo: "found A S s S' s' arms v" by auto
  from option_shaped [OF fo l(5)] obtain nd sd po x where x: "v_none v = Some nd" "v_some v = Some (sd, po, x)"
    "shaped S' (TOpt ?doff (ds mod 256) nd sd po ?sz x) sh" .
  obtain ps where "typed_step A S s S' s' ps" using found_step [OF fo] by blast
  moreover have "t = TOpt ?doff (ds mod 256) nd sd po ?sz x" using f(4) [OF x(1,2)] ds by simp
  ultimately show ?thesis
    using typed_step_whole [OF _ parse_option_yields [OF s(2) r]] x(3) by blast
qed

lemma aggregate_shaped:
  assumes s: "laid_out N R slide st A" "ok_state s" "typed A S s" and g: "good_unit N u"
    and laid: "read_members N st A u ui ms = Inr ps" "members_laid ps sh" and r: "members cl n u ui ms s = Inr (fs, s')"
  shows "\<exists>S'. typed_step A S s S' s' [(aggregate name fs, sh)]"
proof -
  obtain S' where S': "typed_step A S s S' s' (zip (map f_ty fs) (map (snd \<circ> snd) ps))" and fit: "list_all2 fits fs ps"
    using members_shaped [OF s g laid(1) r] by blast
  have len: "length fs = length ps" using fit by (rule list_all2_lengthD)
  have "shaped S' (f_ty (fs ! i)) (snd (snd (ps ! i)))" if "i < length ps" for i
    using typed_stepD(3) [OF S'] that len by (fastforce simp: in_set_zip)
  then have "list_all2 (\<lambda>f p. fits f p \<and> shaped S' (f_ty f) (snd (snd p))) fs ps"
    using fit by (simp add: list_all2_conv_all_nth)
  note sh = struct_shaped [OF this laid(2)]
  have "shaped S' (aggregate name fs) sh" using sh(1) sh(2) [of "sort_key position_key fs"] by (simp add: aggregate_def)
  moreover have "yields s s' [aggregate name fs]"
    using members_yields [OF s(2) r] by (simp add: yields_def grounded_parts aggregate_def)
  ultimately show ?thesis using typed_step_whole [OF S'] by blast
qed

lemma structure_shaped:
  assumes s: "laid_out N R slide st A" "ok_state s" "typed A S s" and g: "good_unit N u"
    and laid: "structure_laid N slide st A u ui off name sh = Inr ()" and r: "structure_ty cl n slide st u ui off name s = Inr (t, s')"
  shows "\<exists>S'. typed_step A S s S' s' [(t, sh)]"
proof -
  have leaf: "\<exists>S'. typed_step A S s S' s' [(t, sh)]" if "s' = s" "ty_cells t = []" "leaf_laid t sh"
    using that shaped_leaf typed_step_refl [OF s(2,3), of "[(t, sh)]"] by auto
  consider q where "seq_layout n st ui off = Inr q" "seq_layout N st ui off = Inr q" "t = TStr q" "s' = s" "leaf_laid (TStr q) sh"
    | p l where "t = TStrRef p l" "s' = s" "leaf_laid (TStrRef p l) sh"
    | "vec_laid N st A u ui off sh = Inr ()" "vec cl n st u ui off s = Inr (t, s')"
    | "map_laid N slide st A u ui off sh = Inr ()" "btree_map cl n slide st u ui off s = Inr (t, s')"
    | vp where "option_laid N st A u ui off vp sh = Inr ()" "parse_option cl n u ui off vp name s = Inr (t, s')"
    | ms ps fs where "read_members N st A u ui ms = Inr ps" "members_laid ps sh" "members cl n u ui ms s = Inr (fs, s')"
        "t = aggregate name fs"
    using laid r settled_unit(7) [OF g, where n = n] settled_store(2) [OF laid_good [OF s(1)], where n = n]
    by (fastforce simp: structure_laid_def structure_ty_def bindR_eq_Inr split: if_splits option.splits)
  then show ?thesis
  proof cases
    case 3
    then show ?thesis by (rule vec_shaped [OF s g])
  next
    case 4
    then show ?thesis by (rule btree_map_shaped [OF s g])
  next
    case 5
    then show ?thesis by (rule parse_option_shaped [OF s g])
  next
    case 6
    then show ?thesis using aggregate_shaped [OF s g] by blast
  qed (use leaf in simp_all)
qed

lemma type_body_shaped:
  assumes s: "laid_out N R slide st A" "ok_state s" "typed A S s" and g: "good_unit N u"
    and laid: "body_laid N slide st A u ui off tg name sh = Inr ()"
    and r: "type_body cl n slide st u ui off tg name s = Inr (t, s')"
  shows "\<exists>S'. typed_step A S s S' s' [(t, sh)]"
proof -
  consider "tg = DW_TAG_base_type" | "tg = DW_TAG_pointer_type" | "tg = DW_TAG_structure_type"
    using laid by (auto simp: body_laid_def split: if_splits)
  then show ?thesis
  proof cases
    case 1
    then have "t = base_type u off name" "s' = s" "leaf_laid t sh"
      using laid r by (simp_all add: body_laid_def type_body_def)
    then show ?thesis using shaped_leaf typed_step_refl [OF s(2,3), of "[(t, sh)]"] by auto
  next
    case 2
    then show ?thesis using boxed_shaped [OF s g] laid r by (simp add: body_laid_def type_body_def)
  next
    case 3
    then show ?thesis using structure_shaped [OF s g] laid r by (simp add: body_laid_def type_body_def)
  qed
qed

end

section \<open>\<open>classify\<close> keeps the contract\<close>

lemma classify_shaped: "shaped_classifier (classify n slide st) N R slide st A"
proof (induction n)
  case 0
  show ?case by unfold_locales simp_all
next
  case (Suc n)
  show ?case
  proof (intro shaped_classifier.intro shaped_classifier_axioms.intro classify_grounded)
    fix s S ui off sh t s'
    assume laid: "laid_out N R slide st A" and s: "ok_state s" "typed A S s" and of': "shape_of N st A ui off = Inr sh"
      and r: "classify (Suc n) slide st ui off s = Inr (t, s')"
    note g = good_idx [OF laid_good [OF laid]] and cl = Suc
    from of' obtain u off1 k where k: "idx st ui = Inr u" "strip N u off = Inr off1" "def_site N st ui off1 = Inr k"
      "map_of A k = Some sh"
      by (auto simp: shape_of_def bindR_eq_Inr expect_def split: option.splits)
    obtain ui' off' where kk: "k = (ui', off')" by (cases k)
    from r k(1) obtain off2 k' where k': "strip n u off = Inr off2" "def_site n st ui off2 = Inr k'"
      by (auto simp: bindR_eq_Inr)
    then have keq: "off2 = off1" "k' = k"
      using settled_unit(3) [OF g [OF k(1)]] settled_store(1) [OF laid_good [OF laid]] k(2,3) by fastforce+
    from r k' keq kk k(1) obtain u' tg name where e: "idx st ui' = Inr u'" "tag u' off' = Inr tg" "name_or_empty n u' off' = Inr name"
      by (auto simp: bindR_eq_Inr)
    have name: "name_or_empty N u' off' = Inr name" by (rule settled_unit(4) [OF g [OF e(1)] e(3)])
    have laid': "entry_laid N slide st A ui' off' sh = Inr ()" using laid_entry [OF laid] k(4) kk by simp
    show "\<exists>S'. typed_step A S s S' s' [(t, sh)]"
    proof (cases "is_transparent name")
      case True
      from laid' True e(1,2) name obtain i inner where i: "template_param N u' off' = Inr (Some i)" "shape_of N st A ui' i = Inr inner"
        "fst inner \<le> fst sh" "set (snd sh) \<subseteq> set (snd inner)"
        by (auto simp: entry_laid_def bindR_eq_Inr expect_def list_all_iff subset_iff split: option.splits)
      from r k' keq kk k(1) e True obtain j where j: "template_param n u' off' = Inr (Some j)" "classify n slide st ui' j s = Inr (t, s')"
        by (auto simp: bindR_eq_Inr expect_def split: option.splits)
      have "j = i" using settled_unit(5) [OF g [OF e(1)] j(1)] i(1) by simp
      then obtain S' where S': "typed_step A S s S' s' [(t, inner)]"
        using shaped_classifier.cl_shaped [OF cl laid s i(2)] j(2) by blast
      then have "shaped S' t sh" using shaped_weaken [of S' t inner sh] i(3,4) by (simp add: typed_step_def)
      then show ?thesis using S' by (auto simp: typed_step_def)
    next
      case False
      then have body: "body_laid N slide st A u' ui' off' tg name sh = Inr ()"
        using laid' e(1,2) name by (simp add: entry_laid_def)
      from r k' keq kk k(1) e False consider c where "memo s k = Some c" "t = TRef c" "s' = s"
        | c s1 s2 where "memo s k = None" "enter k s = (c, s1)"
            "type_body (classify n slide st) n slide st u' ui' off' tg name s1 = Inr (t, s2)" "s' = leave k c t s2"
        by (auto simp: bindR_eq_Inr split: option.splits prod.splits)
      then show ?thesis
      proof cases
        case 1
        then have "map_of A k = Some (S c)" using s(2) unfolding typed_def by blast
        then have "S c = sh" using k(4) by simp
        then have "shaped S t sh" using 1(2) by (auto simp: shaped_def)
        moreover have "yields s s [t]" using 1 s(1) ranI [of "memo s" k c] by (simp add: yields_def grounded_def live_cells_def)
        ultimately show ?thesis using 1(3) s(2) by (auto simp: typed_step_def)
      next
        case 2
        from shaped_classifier.type_body_shaped [OF cl laid enter_ok(1) [OF s(1) 2(1,2)] typed_enter [OF s(1) 2(1,2) s(2) k(4)] g [OF e(1)] body 2(3)]
        obtain S' where "typed_step A (S(c := sh)) s1 S' s2 [(t, sh)]" ..
        from typed_leave [OF s(1) 2(1,2) this] show ?thesis using 2(4) by blast
      qed
    qed
  qed
qed

interpretation shaping: shaped_classifier "classify n slide st" N R slide st A for n slide st N R A
  by (rule classify_shaped)

end
