(* ===== verification/Shapes_Sound.thy ===== *)
theory Shapes_Sound
  imports Shapes_Props
begin

text \<open>
  The other half of type soundness: on an accepted entry \<open>classify\<close> never panics. Every \<open>expect\<close>,
  every overflow check and every lookup on its way succeeds, so with enough fuel it returns.
\<close>

section \<open>Runs that only fuel can stop\<close>

definition only_fuel :: "'a res \<Rightarrow> bool" where
  "only_fuel r \<longleftrightarrow> (\<forall>e. r = Inl e \<longrightarrow> e = OutOfFuel)"

named_theorems fuelling

lemma only_fuel_Inr [simp, fuelling]: "only_fuel (Inr x)"
  by (simp add: only_fuel_def)

lemma only_fuel_OutOfFuel [simp, fuelling]: "only_fuel (Inl OutOfFuel)"
  by (simp add: only_fuel_def)

lemma only_fuel_bind [fuelling]: "only_fuel m \<Longrightarrow> (\<And>x. m = Inr x \<Longrightarrow> only_fuel (f x)) \<Longrightarrow> only_fuel (bindR m f)"
  by (cases m) (auto simp: only_fuel_def)

lemma only_fuel_returns: "only_fuel r \<Longrightarrow> ends_run r \<Longrightarrow> \<exists>x. r = Inr x"
  by (cases r) (auto simp: only_fuel_def ends_run_def)

text \<open>A reader that returns with the fuel \<open>N\<close> of the longest chain returns the same or runs out of fuel.\<close>

lemma settled_or:
  assumes "\<And>n m :: nat. n \<le> m \<Longrightarrow> stable (f n) (f m)" and "f N = Inr x"
  shows "f n = Inr x \<or> f n = Inl OutOfFuel"
proof (cases "n \<le> N")
  case True
  then show ?thesis using assms(1) [of n N] assms(2) by (cases "f n = Inl OutOfFuel") (simp_all add: stable_def ends_run_def)
next
  case False
  then have "N \<le> n" by simp
  then show ?thesis using assms(1) [of N n] assms(2) by (simp add: stable_def)
qed

lemma reads_or:
  "type_ref N u off = Inr t \<Longrightarrow> type_ref n u off = Inr t \<or> type_ref n u off = Inl OutOfFuel"
  "strip N u off = Inr x \<Longrightarrow> strip n u off = Inr x \<or> strip n u off = Inl OutOfFuel"
  "name_or_empty N u off = Inr y \<Longrightarrow> name_or_empty n u off = Inr y \<or> name_or_empty n u off = Inl OutOfFuel"
  "template_param N u off = Inr t \<Longrightarrow> template_param n u off = Inr t \<or> template_param n u off = Inl OutOfFuel"
  "first_field N u off = Inr t \<Longrightarrow> first_field n u off = Inr t \<or> first_field n u off = Inl OutOfFuel"
  "str_ref_offsets N u off = Inr w \<Longrightarrow> str_ref_offsets n u off = Inr w \<or> str_ref_offsets n u off = Inl OutOfFuel"
  "def_site N st ui off = Inr k \<Longrightarrow> def_site n st ui off = Inr k \<or> def_site n st ui off = Inl OutOfFuel"
  "seq_layout N st ui off = Inr q \<Longrightarrow> seq_layout n st ui off = Inr q \<or> seq_layout n st ui off = Inl OutOfFuel"
  "template_named N u off want = Inr t \<Longrightarrow> template_named n u off want = Inr t \<or> template_named n u off want = Inl OutOfFuel"
  "resolve_tramp N slide st pre nm mv = Inr r \<Longrightarrow>
     resolve_tramp n slide st pre nm mv = Inr r \<or> resolve_tramp n slide st pre nm mv = Inl OutOfFuel"
  by (rule settled_or [where f = "\<lambda>n. type_ref n u off"] settled_or [where f = "\<lambda>n. strip n u off"]
      settled_or [where f = "\<lambda>n. name_or_empty n u off"] settled_or [where f = "\<lambda>n. template_param n u off"]
      settled_or [where f = "\<lambda>n. first_field n u off"] settled_or [where f = "\<lambda>n. str_ref_offsets n u off"]
      settled_or [where f = "\<lambda>n. def_site n st ui off"] settled_or [where f = "\<lambda>n. seq_layout n st ui off"]
      settled_or [where f = "\<lambda>n. template_named n u off want"] settled_or [where f = "\<lambda>n. resolve_tramp n slide st pre nm mv"];
      (intro stably)?; assumption)+

text \<open>One step of such a run: what the reader returned is what the checker saw.\<close>

lemma fuel_step: "m = Inr x \<or> m = Inl OutOfFuel \<Longrightarrow> only_fuel (f x) \<Longrightarrow> only_fuel (bindR m f)"
  by auto

section \<open>The contract of the recursive call\<close>

locale sound_classifier = shaped_classifier +
  assumes cl_sound: "laid_out N R slide st A \<Longrightarrow> ok_state s \<Longrightarrow> typed A S s \<Longrightarrow> shape_of N st A ui off = Inr sh \<Longrightarrow>
    only_fuel (cl ui off s)"
begin

lemma boxed_sound:
  assumes s: "laid_out N R slide st A" "ok_state s" "typed A S s" and laid: "pointer_laid N st A u ui off sh = Inr ()"
  shows "only_fuel (boxed cl n u ui off name s)"
proof -
  obtain p p' inner al where l: "type_ref N u off = Inr (Some p)" "shape_of N st A ui p = Inr inner" "strip N u p = Inr p'"
      "align_of u p' (udata_or u p' DW_AT_byte_size 0) = Inr al"
    using laid by (auto simp: pointer_laid_def bindR_eq_Inr Let_def expect_def split: option.splits)
  have "only_fuel (cl ui p s)" by (rule cl_sound [OF s l(2)])
  then show ?thesis unfolding boxed_def
    by (intro fuel_step [OF reads_or(1) [OF l(1)]])
      (auto intro!: only_fuel_bind fuel_step [OF reads_or(2) [OF l(3)]] simp: Let_def l(4))
qed

lemma vec_sound:
  assumes s: "laid_out N R slide st A" "ok_state s" "typed A S s" and laid: "vec_laid N st A u ui off sh = Inr ()"
  shows "only_fuel (vec cl n st u ui off s)"
proof -
  obtain e e' inner al q where l: "template_param N u off = Inr (Some e)" "shape_of N st A ui e = Inr inner" "strip N u e = Inr e'"
      "align_of u e' (udata_or u e' DW_AT_byte_size 1) = Inr al" "seq_layout N st ui off = Inr q"
    using laid by (auto simp: vec_laid_def bindR_eq_Inr Let_def expect_def split: option.splits)
  have "only_fuel (cl ui e s)" by (rule cl_sound [OF s l(2)])
  then show ?thesis unfolding vec_def
    by (intro fuel_step [OF reads_or(4) [OF l(1)]])
      (auto intro!: only_fuel_bind fuel_step [OF reads_or(2) [OF l(3)]] fuel_step [OF reads_or(8) [OF l(5)]]
        simp: Let_def l(4) simp del: One_nat_def)
qed

lemma btree_map_sound:
  assumes s: "laid_out N R slide st A" "ok_state s" "typed A S s" and laid: "map_laid N slide st A u ui off sh = Inr ()"
  shows "only_fuel (btree_map cl n slide st u ui off s)"
proof -
  obtain k ksh ks v vsh vs na ins where m: "map_seen N slide st A u ui off (k, ksh, ks) (v, vsh, vs) na ins"
    by (rule map_laidE [OF laid])
  then obtain k' v' name where l: "template_named N u off (ascii ''K'') = Inr (Some k)" "template_named N u off (ascii ''V'') = Inr (Some v)"
    "name_or_empty N u v = Inr name" "strip N u k = Inr k'" "strip N u v = Inr v'"
    "resolve_tramp N slide st (ascii ''map_new_at'') name False = Inr (Some na)"
    "resolve_tramp N slide st (ascii ''map_insert'') name True = Inr (Some ins)"
    "shape_of N st A ui k = Inr ksh" "shape_of N st A ui v = Inr vsh"
    by (auto simp: map_seen_def)
  have k: "only_fuel (cl ui k s)" by (rule cl_sound [OF s l(8)])
  have v: "only_fuel (cl ui v s1)" if "\<exists>kt. cl ui k s = Inr (kt, s1)" for s1
    using cl_shaped [OF s l(8)] that cl_sound [OF s(1) _ _ l(9)] typed_stepD(1,2) by blast
  note steps = fuel_step [OF reads_or(9) [OF l(1)]] fuel_step [OF reads_or(9) [OF l(2)]] fuel_step [OF reads_or(3) [OF l(3)]]
    fuel_step [OF reads_or(2) [OF l(4)]] fuel_step [OF reads_or(2) [OF l(5)]]
    fuel_step [OF reads_or(10) [OF l(6)]] fuel_step [OF reads_or(10) [OF l(7)]]
  show ?thesis unfolding btree_map_def by (auto intro!: steps only_fuel_bind [OF k] only_fuel_bind [OF v] simp: Let_def)
qed

lemma members_sound:
  "laid_out N R slide st A \<Longrightarrow> ok_state s \<Longrightarrow> typed A S s \<Longrightarrow> good_unit N u \<Longrightarrow> read_members N st A u ui ms = Inr ps \<Longrightarrow>
   only_fuel (members cl n u ui ms s)"
proof (induction ms arbitrary: s S ps)
  case (Cons m ms)
  show ?case
  proof (cases "tag u m = Inr DW_TAG_member")
    case False
    then obtain t where "tag u m = Inr t" "t \<noteq> DW_TAG_member" "read_members N st A u ui ms = Inr ps"
      using Cons.prems(5) by (auto simp: bindR_eq_Inr)
    then show ?thesis using Cons.IH [OF Cons.prems(1-4)] by simp
  next
    case True
    obtain nm t sh ps1 where p: "name_or_empty N u m = Inr nm" "type_ref N u m = Inr (Some t)" "shape_of N st A ui t = Inr sh"
      "read_members N st A u ui ms = Inr ps1"
      using Cons.prems(5) True by (auto simp: bindR_eq_Inr Let_def expect_def split: option.splits)
    have "only_fuel (members cl n u ui ms s1)" if "cl ui t s = Inr (x, s1)" for x s1
      using cl_shaped [OF Cons.prems(1-3) p(3) that] Cons.IH [OF Cons.prems(1) _ _ Cons.prems(4) p(4)] typed_stepD(1,2) by blast
    then show ?thesis
      using True cl_sound [OF Cons.prems(1-3) p(3)]
      by (auto intro!: only_fuel_bind fuel_step [OF reads_or(3) [OF p(1)]] fuel_step [OF reads_or(1) [OF p(2)]] simp: Let_def)
  qed
qed simp

lemma variant_sound:
  assumes s: "laid_out N R slide st A" "ok_state s" "typed A S s" and a: "read_arm N st A u ui v = Inr a"
  shows "only_fuel (variant_step cl n u ui v (r, s))"
proof (cases "tag u v = Inr DW_TAG_variant")
  case True
  then obtain pm where pm: "child_with_tag u v DW_TAG_member = Inr pm" using a by (auto simp: read_arm_def bindR_eq_Inr Let_def)
  show ?thesis
  proof (cases pm)
    case (Some m)
    then obtain ps where ps: "type_ref N u m = Inr ps" using a True pm by (auto simp: read_arm_def bindR_eq_Inr Let_def)
    show ?thesis
    proof (cases ps)
      case (Some p)
      then obtain p' f0 where f0: "strip N u p = Inr p'" "first_field N u p' = Inr f0"
        using a True pm ps \<open>pm = Some m\<close> by (auto simp: read_arm_def bindR_eq_Inr Let_def)
      have "only_fuel (case f0 of
          None \<Rightarrow> Inr (r\<lparr>v_none := attr_udata u v DW_AT_discr_value\<rparr>, s)
        | Some f0 \<Rightarrow> bindR (type_ref n u f0) (\<lambda>ft. case ft of
            None \<Rightarrow> Inr (r, s)
          | Some t \<Rightarrow> bindR (add_usize (udata_or u m DW_AT_data_member_location 0) (udata_or u f0 DW_AT_data_member_location 0))
              (\<lambda>po. bindR (cl ui t s) (\<lambda>(inner, s). Inr (r\<lparr>v_some := Some (attr_udata u v DW_AT_discr_value, po, inner)\<rparr>, s)))))"
      proof (cases f0)
        case (Some f)
        then obtain ft where ft: "type_ref N u f = Inr ft"
          using a True pm ps \<open>pm = Some m\<close> \<open>ps = Some p\<close> f0 by (auto simp: read_arm_def bindR_eq_Inr Let_def)
        have "\<exists>po sh. add_usize (udata_or u m DW_AT_data_member_location 0) (udata_or u f DW_AT_data_member_location 0) = Inr po
            \<and> shape_of N st A ui t = Inr sh" if "ft = Some t" for t
          using a True pm ps \<open>pm = Some m\<close> \<open>ps = Some p\<close> f0 Some ft that by (auto simp: read_arm_def bindR_eq_Inr Let_def)
        then show ?thesis
          using Some cl_sound [OF s] by (auto intro!: fuel_step [OF reads_or(1) [OF ft]] only_fuel_bind split: option.split)
      qed simp
      then show ?thesis unfolding variant_step_def
        using True pm \<open>pm = Some m\<close> \<open>ps = Some p\<close>
        by (auto simp: Let_def intro!: fuel_step [OF reads_or(1) [OF ps]] fuel_step [OF reads_or(2) [OF f0(1)]]
            fuel_step [OF reads_or(5) [OF f0(2)]])
    qed (use True pm \<open>pm = Some m\<close> in \<open>auto simp: variant_step_def Let_def intro!: fuel_step [OF reads_or(1) [OF ps]]\<close>)
  qed (use True pm in \<open>simp add: variant_step_def\<close>)
qed (use a in \<open>auto simp: variant_step_def read_arm_def bindR_eq_Inr\<close>)

lemma variants_sound:
  "laid_out N R slide st A \<Longrightarrow> ok_state s \<Longrightarrow> typed A S s \<Longrightarrow> found A S0 s0 S s done r \<Longrightarrow> good_unit N u \<Longrightarrow>
   map_res (read_arm N st A u ui) vs = Inr arms \<Longrightarrow> only_fuel (fold_res (variant_step cl n u ui) vs (r, s))"
proof (induction vs arbitrary: r s S arms "done")
  case (Cons v vs)
  from Cons.prems(6) obtain a arms1 where 1: "read_arm N st A u ui v = Inr a" "map_res (read_arm N st A u ui) vs = Inr arms1"
    by (auto simp: bindR_eq_Inr)
  have "only_fuel (fold_res (variant_step cl n u ui) vs y)" if y: "variant_step cl n u ui v (r, s) = Inr y" for y
  proof -
    obtain r1 s1 where "y = (r1, s1)" by (cases y)
    then show ?thesis
      using found_next [OF Cons.prems(1-5) 1(1), of n r1 s1] y Cons.IH [OF Cons.prems(1) _ _ _ Cons.prems(5) 1(2)] by blast
  qed
  then show ?case using variant_sound [OF Cons.prems(1-3) 1(1)] by (auto intro!: only_fuel_bind)
qed simp

lemma parse_option_sound:
  assumes s: "laid_out N R slide st A" "ok_state s" "typed A S s" and g: "good_unit N u"
    and laid: "option_laid N st A u ui off vp sh = Inr ()"
  shows "only_fuel (parse_option cl n u ui off vp name s)"
proof -
  obtain m where m: "attr_of u vp DW_AT_discr = Some (UnitRef m)"
    using laid by (auto simp: option_laid_def split: option.splits aval.splits)
  let ?width = "\<lambda>n dt. case dt of None \<Rightarrow> Inr 8 | Some t \<Rightarrow> bindR (strip n u t) (\<lambda>t. Inr (udata_or u t DW_AT_byte_size 8))"
  obtain dt ds vs arms where l: "type_ref N u m = Inr dt" "?width N dt = Inr ds" "child_offsets u vp = Inr vs"
      "map_res (read_arm N st A u ui) vs = Inr arms"
    using laid m by (auto simp: option_laid_def bindR_eq_Inr)
  have "?width n dt = Inr ds \<or> ?width n dt = Inl OutOfFuel"
  proof (cases dt)
    case (Some t)
    then obtain x where x: "strip N u t = Inr x" using l(2) by (auto simp: bindR_eq_Inr)
    then show ?thesis using reads_or(2) [OF x, of n] l(2) Some by auto
  qed (use l(2) in simp)
  moreover have "found A S s S s [] \<lparr>v_none = None, v_some = None\<rparr>"
    using s(2,3) by (auto simp: found_def intro: typed_step_refl)
  then have "only_fuel (fold_res (variant_step cl n u ui) vs (\<lparr>v_none = None, v_some = None\<rparr>, s))"
    by (rule variants_sound [OF s _ g l(4)])
  ultimately show ?thesis
    unfolding parse_option_def by (simp add: m l(3) Let_def) (auto intro!: only_fuel_bind fuel_step [OF reads_or(1) [OF l(1)]])
qed

lemma structure_sound:
  assumes s: "laid_out N R slide st A" "ok_state s" "typed A S s" and g: "good_unit N u"
    and laid: "structure_laid N slide st A u ui off name sh = Inr ()"
  shows "only_fuel (structure_ty cl n slide st u ui off name s)"
proof -
  consider q where "name = ascii ''String''" "seq_layout N st ui off = Inr q"
    | w where "name = ascii ''&str''" "name \<noteq> ascii ''String''" "str_ref_offsets N u off = Inr w"
    | "name \<noteq> ascii ''String''" "name \<noteq> ascii ''&str''" "starts_with name (ascii ''Vec<'')" "vec_laid N st A u ui off sh = Inr ()"
    | "name \<noteq> ascii ''String''" "name \<noteq> ascii ''&str''" "\<not> starts_with name (ascii ''Vec<'')" "starts_with name (ascii ''BTreeMap<'')"
        "map_laid N slide st A u ui off sh = Inr ()"
    | vp where "name \<noteq> ascii ''String''" "name \<noteq> ascii ''&str''" "\<not> starts_with name (ascii ''Vec<'')" "\<not> starts_with name (ascii ''BTreeMap<'')"
        "child_with_tag u off DW_TAG_variant_part = Inr (Some vp)" "option_laid N st A u ui off vp sh = Inr ()"
    | ms ps where "name \<noteq> ascii ''String''" "name \<noteq> ascii ''&str''" "\<not> starts_with name (ascii ''Vec<'')" "\<not> starts_with name (ascii ''BTreeMap<'')"
        "child_with_tag u off DW_TAG_variant_part = Inr None" "child_offsets u off = Inr ms" "read_members N st A u ui ms = Inr ps"
    using laid by (auto simp: structure_laid_def bindR_eq_Inr split: if_splits option.splits) (metis not_None_eq)
  then show ?thesis
  proof cases
    case 1
    then show ?thesis by (auto simp: structure_ty_def intro!: fuel_step [OF reads_or(8) [OF 1(2)]])
  next
    case 2
    then show ?thesis by (auto simp: structure_ty_def case_prod_unfold intro!: fuel_step [OF reads_or(6) [OF 2(3)]])
  next
    case 3
    then show ?thesis using vec_sound [OF s 3(4)] by (simp add: structure_ty_def)
  next
    case 4
    then show ?thesis using btree_map_sound [OF s 4(5)] by (simp add: structure_ty_def)
  next
    case 5
    then show ?thesis using parse_option_sound [OF s g 5(6)] by (simp add: structure_ty_def)
  next
    case 6
    then show ?thesis
      using members_sound [OF s g 6(7)] by (auto simp: structure_ty_def intro!: only_fuel_bind)
  qed
qed

lemma type_body_sound:
  assumes s: "laid_out N R slide st A" "ok_state s" "typed A S s" and g: "good_unit N u"
    and laid: "body_laid N slide st A u ui off tg name sh = Inr ()"
  shows "only_fuel (type_body cl n slide st u ui off tg name s)"
  using laid boxed_sound [OF s] structure_sound [OF s g] by (auto simp: body_laid_def type_body_def split: if_splits)

end

section \<open>\<open>classify\<close> keeps the contract\<close>

lemma classify_sound: "sound_classifier (classify n slide st) N R slide st A"
proof (induction n)
  case 0
  show ?case by (intro sound_classifier.intro sound_classifier_axioms.intro classify_shaped) simp
next
  case (Suc n)
  show ?case
  proof (intro sound_classifier.intro sound_classifier_axioms.intro classify_shaped)
    fix s S ui off sh
    assume laid: "laid_out N R slide st A" and s: "ok_state s" "typed A S s" and of': "shape_of N st A ui off = Inr sh"
    note g = good_idx [OF laid_good [OF laid]] and cl = Suc
    from of' obtain u off1 ui' off' where k: "idx st ui = Inr u" "strip N u off = Inr off1" "def_site N st ui off1 = Inr (ui', off')"
      "map_of A (ui', off') = Some sh"
      by (auto simp: shape_of_def bindR_eq_Inr expect_def split: option.splits)
    have laid': "entry_laid N slide st A ui' off' sh = Inr ()" using laid_entry [OF laid] k(4) by simp
    then obtain u' tg name where e: "idx st ui' = Inr u'" "tag u' off' = Inr tg" "name_or_empty N u' off' = Inr name"
      by (auto simp: entry_laid_def bindR_eq_Inr)
    have body: "only_fuel (if is_transparent name then
         bindR (template_param n u' off') (\<lambda>inner.
         bindR (expect inner ''no T parameter'') (\<lambda>inner. classify n slide st ui' inner s))
       else
         case memo s (ui', off') of
           Some c \<Rightarrow> Inr (TRef c, s)
         | None \<Rightarrow>
             let (c, s) = enter (ui', off') s in
             bindR (type_body (classify n slide st) n slide st u' ui' off' tg name s) (\<lambda>(body, s).
               Inr (body, leave (ui', off') c body s)))"
    proof (cases "is_transparent name")
      case True
      from laid' True e obtain i inner where i: "template_param N u' off' = Inr (Some i)" "shape_of N st A ui' i = Inr inner"
        by (auto simp: entry_laid_def bindR_eq_Inr expect_def split: option.splits)
      have "only_fuel (classify n slide st ui' i s)" by (rule sound_classifier.cl_sound [OF cl laid s i(2)])
      then show ?thesis using True by (auto intro!: fuel_step [OF reads_or(4) [OF i(1)]])
    next
      case False
      then have b: "body_laid N slide st A u' ui' off' tg name sh = Inr ()" using laid' e by (simp add: entry_laid_def)
      show ?thesis
      proof (cases "memo s (ui', off')")
        case None
        obtain c s1 where en: "enter (ui', off') s = (c, s1)" by (cases "enter (ui', off') s")
        have "only_fuel (type_body (classify n slide st) n slide st u' ui' off' tg name s1)"
          by (rule sound_classifier.type_body_sound [OF cl laid enter_ok(1) [OF s(1) None en]
                typed_enter [OF s(1) None en s(2) k(4)] g [OF e(1)] b])
        then show ?thesis using False None en by (auto intro!: only_fuel_bind)
      qed (use False in simp)
    qed
    show "only_fuel (classify (Suc n) slide st ui off s)"
      using body k(1) e(1,2)
      by (auto intro!: fuel_step [OF reads_or(2) [OF k(2)]] fuel_step [OF reads_or(7) [OF k(3)]] fuel_step [OF reads_or(3) [OF e(3)]])
  qed
qed

interpretation sounding: sound_classifier "classify n slide st" N R slide st A for n slide st N R A
  by (rule classify_sound)

end
