(* ===== verification/Resolve_Shapes.thy ===== *)
theory Resolve_Shapes
  imports Resolve_Props Shapes_Sound
begin

text \<open>
  Type preservation for the caches: if the checker accepts the types of all locals that are asked
  for, every layout in the second cache is well formed and has the recorded shape, in every
  interleaving.
\<close>

section \<open>The invariant\<close>

abbreviation key_shape :: "nat \<Rightarrow> shapes \<Rightarrow> env \<Rightarrow> key \<Rightarrow> shape res" where
  "key_shape N A E k \<equiv> shape_of N (e_store E) A (fst k) (snd k)"

definition covers :: "nat \<Rightarrow> nat \<Rightarrow> shapes \<Rightarrow> env \<Rightarrow> (nat \<Rightarrow> call) \<Rightarrow> bool" where
  "covers N R A E calls \<longleftrightarrow> laid_out N R (e_slide E) (e_store E) A
     \<and> (\<forall>i k. find_key E (c_caller (calls i)) (c_ptr (calls i)) = Inr k \<longrightarrow> (\<exists>sh. key_shape N A E k = Inr sh))"

definition shared_typed :: "nat \<Rightarrow> shapes \<Rightarrow> env \<Rightarrow> (cell_id \<Rightarrow> shape) \<Rightarrow> shared \<Rightarrow> bool" where
  "shared_typed N A E S sh \<longleftrightarrow> cells_ok (cell_body (store_cells sh)) S
     \<and> (\<forall>k t. L2 sh k = Some t \<longrightarrow> (\<exists>x. key_shape N A E k = Inr x \<and> shaped S t x))"

definition config_typed :: "nat \<Rightarrow> shapes \<Rightarrow> env \<Rightarrow> config \<Rightarrow> bool" where
  "config_typed N A E c \<longleftrightarrow> (\<exists>S. shared_typed N A E S (fst c))
     \<and> (\<forall>i k. snd c i = Keyed k \<longrightarrow> (\<exists>x. key_shape N A E k = Inr x))"

lemma shared_typed_new:
  assumes laid: "laid_out N R (e_slide E) (e_store E) A" and ok: "shared_ok sh" and ty: "shared_typed N A E S sh"
    and k: "key_shape N A E k = Inr x" and c: "classify_key E k (store_cells sh) = Inr (t, s)"
  shows "\<exists>S'. shared_typed N A E S' (sh\<lparr>L2 := (L2 sh)(k \<mapsto> t), store_cells := cells s\<rparr>)"
proof -
  let ?q = "quiet (store_cells sh)"
  have q: "ok_state ?q" "typed A S ?q" using ok ty by (simp_all add: shared_ok_def shared_typed_def typed_def)
  obtain S' where S': "typed_step A S ?q S' s [(t, x)]"
    using shaping.cl_shaped [OF laid q k c [unfolded classify_key_def]] by blast
  have old: "shaped S' u y" if "L2 sh j = Some u" "shaped S u y" for j u y
  proof -
    have "grounded ?q u" using ok that(1) ranI [of "L2 sh" j u] by (simp add: shared_ok_def)
    then have "agree S S' u" using grounded_agree [OF q(1)] S' by (simp add: typed_step_def)
    then show ?thesis using that(2) by (simp add: shaped_cong)
  qed
  have "\<exists>y. key_shape N A E j = Inr y \<and> shaped S' u y" if "((L2 sh)(k \<mapsto> t)) j = Some u" for j u
  proof (cases "j = k")
    case True
    then show ?thesis using that k typed_stepD(3) [OF S'] by simp
  next
    case False
    then have j: "L2 sh j = Some u" using that by simp
    then obtain y where y: "key_shape N A E j = Inr y" "shaped S u y"
      using ty unfolding shared_typed_def by blast
    from old [OF j y(2)] y(1) show ?thesis by blast
  qed
  then show ?thesis using typed_stepD(2) [OF S'] by (intro exI [of _ S']) (simp add: shared_typed_def typed_def)
qed

lemma step_phase_new:
  "step_phase E a i sh p = Some (sh', p') \<Longrightarrow>
     L2 sh' = L2 sh \<and> store_cells sh' = store_cells sh \<and> (\<forall>k. p' = Keyed k \<longrightarrow> find_key E (c_caller a) (c_ptr a) = Inr k)
   \<or> (\<exists>k t s. p = Keyed k \<and> classify_key E k (store_cells sh) = Inr (t, s)
       \<and> sh' = sh\<lparr>L2 := (L2 sh)(k \<mapsto> t), store_cells := cells s\<rparr> \<and> p' = Storing k t)"
  by (cases p) (auto split: if_splits option.splits sum.splits fault.splits)

lemma config_typed_step:
  assumes cov: "covers N R A E calls" and ok: "caches_ok c" and ty: "config_typed N A E c" and "step E calls c c'"
  shows "config_typed N A E c'"
  using assms(4)
proof cases
  case (step i sh ph sh' p)
  have ok': "shared_ok sh" using ok step(1) by (simp add: caches_ok_def)
  obtain S where S: "shared_typed N A E S sh" using ty step(1) by (auto simp: config_typed_def)
  have keyed: "\<exists>x. key_shape N A E k = Inr x" if "ph j = Keyed k" for j k
    using ty step(1) that by (simp add: config_typed_def)
  from step_phase_new [OF step(3)] consider "L2 sh' = L2 sh" "store_cells sh' = store_cells sh"
      "\<forall>k. p = Keyed k \<longrightarrow> find_key E (c_caller (calls i)) (c_ptr (calls i)) = Inr k"
    | k t s where "ph i = Keyed k" "classify_key E k (store_cells sh) = Inr (t, s)"
        "sh' = sh\<lparr>L2 := (L2 sh)(k \<mapsto> t), store_cells := cells s\<rparr>" "p = Storing k t"
    by blast
  then show ?thesis
  proof cases
    case 1
    have "shared_typed N A E S sh'" using S 1(1,2) by (simp add: shared_typed_def)
    moreover have "\<exists>x. key_shape N A E k = Inr x" if "(ph(i := p)) j = Keyed k" for j k
    proof (cases "j = i")
      case True
      then show ?thesis using that 1(3) cov unfolding covers_def by simp
    qed (use that keyed in simp)
    ultimately show ?thesis using step(2) by (auto simp: config_typed_def)
  next
    case (2 k t s)
    obtain x where "key_shape N A E k = Inr x" using keyed 2(1) by blast
    moreover have "laid_out N R (e_slide E) (e_store E) A" using cov by (simp add: covers_def)
    ultimately obtain S' where "shared_typed N A E S' sh'"
      using shared_typed_new [OF _ ok' S _ 2(2)] 2(3) by blast
    moreover have "\<exists>x. key_shape N A E k = Inr x" if "(ph(i := p)) j = Keyed k" for j k
      using that 2(4) keyed by (auto split: if_splits)
    ultimately show ?thesis using step(2) by (auto simp: config_typed_def)
  qed
qed

lemma config_typed_reachable:
  assumes cov: "covers N R A E calls"
  shows "reachable_config E calls c \<Longrightarrow> config_typed N A E c"
proof (induction rule: reachable_config.induct)
  case r_start
  then show ?case by (auto simp: config_typed_def start_def shared_typed_def no_cells_def cells_ok_def)
next
  case (r_step c c')
  then show ?case using config_typed_step [OF cov caches_ok_reachable] by blast
qed

lemma done_shaped:
  assumes "covers N R A E calls" and "reachable_config E calls (sh, ph)" and "ph i = Done k t"
  obtains S x where "key_shape N A E k = Inr x" "shaped S t x" "cells_ok (cell_body (store_cells sh)) S"
proof -
  have "caches_ok (sh, ph)" by (rule caches_ok_reachable [OF assms(2)])
  then have "L2 sh k = Some t" using assms(3) by (auto simp: caches_ok_def phase_ok_def dest: spec [of _ i])
  moreover obtain S where "shared_typed N A E S sh"
    using config_typed_reachable [OF assms(1,2)] by (auto simp: config_typed_def)
  ultimately show thesis using that unfolding shared_typed_def by blast
qed

section \<open>The program of \<open>Resolve_Props\<close>\<close>

text \<open>The shapes of \<^verbatim>\<open>u64\<close>, \<^verbatim>\<open>Node\<close>, \<^verbatim>\<open>Option<Box<Node>>\<close>, \<^verbatim>\<open>Box<Node>\<close> and \<^verbatim>\<open>MaybeUninit<Node>\<close>.\<close>

definition node_shapes :: shapes where
  "node_shapes = [((0, 2), 8, []), ((0, 3), 16, []), ((0, 6), 8, []), ((0, 16), 8, [(0, 8, 0)]), ((0, 19), 16, [])]"

lemma node_laid: "laid_out 3 2 0 [node_unit] node_shapes"
proof -
  have "entry_laid 3 0 [node_unit] node_shapes 0 2 (8, []) = Inr ()" by code_simp
  moreover have "entry_laid 3 0 [node_unit] node_shapes 0 3 (16, []) = Inr ()" by code_simp
  moreover have "entry_laid 3 0 [node_unit] node_shapes 0 6 (8, []) = Inr ()" by code_simp
  moreover have "entry_laid 3 0 [node_unit] node_shapes 0 16 (8, [(0, 8, 0)]) = Inr ()" by code_simp
  moreover have "entry_laid 3 0 [node_unit] node_shapes 0 19 (16, []) = Inr ()" by code_simp
  ultimately show ?thesis using node_chains unfolding laid_out_def by (simp add: node_shapes_def)
qed

lemma node_key_shape: "key_shape 3 node_shapes node_env (0, 19) = Inr (16, [])"
proof -
  have "shape_of 3 [node_unit] node_shapes 0 19 = Inr (16, [])" by code_simp
  then show ?thesis by (simp add: node_env_def)
qed

lemma node_covers: "covers 3 2 node_shapes node_env node_calls"
proof -
  have "covers 3 2 node_shapes node_env node_calls \<longleftrightarrow> (\<exists>sh. key_shape 3 node_shapes node_env (0, 19) = Inr sh)"
    using node_laid node_key by (simp add: covers_def node_calls_def) (simp add: node_env_def)
  then show ?thesis using node_key_shape by blast
qed

section \<open>A map\<close>

text \<open>\<^verbatim>\<open>BTreeMap<String, u64>\<close> with its two trampolines, at the addresses 16 and 32.\<close>

definition map_unit :: dunit where
  "map_unit =
     Die 1 (DW_TAG_other 17) [] []
       [Die 2 DW_TAG_base_type [(DW_AT_name, StrVal (ascii ''u64'')), (DW_AT_byte_size, Udata 8), (DW_AT_encoding, Encoding 7)] [] [],
        Die 3 DW_TAG_structure_type [(DW_AT_name, StrVal (ascii ''String'')), (DW_AT_byte_size, Udata 24)] []
          [Die 4 DW_TAG_member [(DW_AT_name, StrVal (ascii ''buf'')), (DW_AT_type, UnitRef 6), (DW_AT_data_member_location, Udata 0)] [] [],
           Die 5 DW_TAG_member [(DW_AT_name, StrVal (ascii ''len'')), (DW_AT_type, UnitRef 9), (DW_AT_data_member_location, Udata 16)] [] []],
        Die 6 DW_TAG_structure_type [(DW_AT_name, StrVal (ascii ''RawVec''))] []
          [Die 7 DW_TAG_member [(DW_AT_name, StrVal (ascii ''cap'')), (DW_AT_type, UnitRef 9), (DW_AT_data_member_location, Udata 0)] [] [],
           Die 8 DW_TAG_member [(DW_AT_name, StrVal (ascii ''ptr'')), (DW_AT_type, UnitRef 10), (DW_AT_data_member_location, Udata 8)] [] []],
        Die 9 DW_TAG_base_type [(DW_AT_name, StrVal (ascii ''usize''))] [] [],
        Die 10 DW_TAG_pointer_type [] [] [],
        Die 11 DW_TAG_structure_type [(DW_AT_name, StrVal (ascii ''BTreeMap<String, u64, Global>'')), (DW_AT_byte_size, Udata 24)] []
          [Die 12 DW_TAG_template_type_parameter [(DW_AT_name, StrVal (ascii ''K'')), (DW_AT_type, UnitRef 3)] [] [],
           Die 13 DW_TAG_template_type_parameter [(DW_AT_name, StrVal (ascii ''V'')), (DW_AT_type, UnitRef 2)] [] []],
        Die 14 DW_TAG_subprogram [(DW_AT_name, StrVal (ascii ''map_new_at<u64>'')), (DW_AT_low_pc, Addr 16)] [] [],
        Die 15 DW_TAG_subprogram [(DW_AT_name, StrVal (ascii ''map_insert<u64>'')), (DW_AT_low_pc, Addr 32)] [] []]"

definition map_shapes :: shapes where
  "map_shapes = [((0, 2), 8, []), ((0, 3), 24, []), ((0, 11), 24, [])]"

lemma map_laid_out: "laid_out 3 2 0 [map_unit] map_shapes"
proof -
  have "entry_laid 3 0 [map_unit] map_shapes 0 2 (8, []) = Inr ()" by code_simp
  moreover have "entry_laid 3 0 [map_unit] map_shapes 0 3 (24, []) = Inr ()" by code_simp
  moreover have "entry_laid 3 0 [map_unit] map_shapes 0 11 (24, []) = Inr ()" by code_simp
  moreover have "chains_end 3 2 [map_unit]" by code_simp
  ultimately show ?thesis unfolding laid_out_def by (simp add: map_shapes_def)
qed

text \<open>What \<open>classify\<close> makes of it.\<close>

lemma map_classified:
  "\<exists>s'. classify 80 0 [map_unit] 0 11 no_state
     = Inr (TMap (TStr \<lparr>ptr_off = 8, cap_off = 0, len_off = 16\<rparr>) 24 (TU 8) 8 16 32, s')"
proof -
  have "(case classify 80 0 [map_unit] 0 11 no_state of Inr (t, s') \<Rightarrow> Some t | Inl e \<Rightarrow> None)
      = Some (TMap (TStr \<lparr>ptr_off = 8, cap_off = 0, len_off = 16\<rparr>) 24 (TU 8) 8 16 32)" by code_simp
  then show ?thesis by (auto split: sum.splits)
qed

section \<open>No accepted type is refused\<close>

text \<open>Neither mutex is poisoned, and a call fails only if the search for its local does.\<close>

definition healthy :: "env \<Rightarrow> (nat \<Rightarrow> call) \<Rightarrow> config \<Rightarrow> bool" where
  "healthy E calls c \<longleftrightarrow> \<not> L1_poisoned (fst c) \<and> \<not> L2_poisoned (fst c)
     \<and> (\<forall>i e. snd c i = Failed e \<longrightarrow> find_key E (c_caller (calls i)) (c_ptr (calls i)) = Inl e)"

lemma classify_key_sound:
  assumes "laid_out N R (e_slide E) (e_store E) A" and "shared_ok sh" and "shared_typed N A E S sh" and "key_shape N A E k = Inr x"
  shows "only_fuel (classify_key E k (store_cells sh))"
  unfolding classify_key_def
  by (rule sounding.cl_sound [OF assms(1) _ _ assms(4), where S = S])
    (use assms(2,3) in \<open>simp_all add: shared_ok_def shared_typed_def typed_def\<close>)

lemma step_phase_healthy:
  assumes "step_phase E a i sh p = Some (sh', p')" and "\<not> L1_poisoned sh" and "\<not> L2_poisoned sh"
    and "\<And>k. p = Keyed k \<Longrightarrow> only_fuel (classify_key E k (store_cells sh))" and "\<And>k. p = Hot k \<Longrightarrow> L2 sh k \<noteq> None"
  shows "\<not> L1_poisoned sh' \<and> \<not> L2_poisoned sh' \<and> (\<forall>e. p' = Failed e \<longrightarrow> find_key E (c_caller a) (c_ptr a) = Inl e)"
  using assms by (cases p) (auto simp: only_fuel_def split: if_splits option.splits sum.splits fault.splits)

lemma healthy_step:
  assumes cov: "covers N R A E calls" and ok: "caches_ok c" and ty: "config_typed N A E c" and h: "healthy E calls c"
    and "step E calls c c'"
  shows "healthy E calls c'"
  using assms(5)
proof cases
  case (step i sh ph sh' p)
  obtain S where S: "shared_typed N A E S sh" using ty step(1) by (auto simp: config_typed_def)
  have "only_fuel (classify_key E k (store_cells sh))" if "ph i = Keyed k" for k
  proof -
    have "\<exists>x. key_shape N A E k = Inr x" using ty step(1) that by (simp add: config_typed_def)
    then obtain x where x: "key_shape N A E k = Inr x" ..
    have "laid_out N R (e_slide E) (e_store E) A" "shared_ok sh" using cov ok step(1) by (simp_all add: covers_def caches_ok_def)
    from classify_key_sound [OF this S x] show ?thesis .
  qed
  moreover have "L2 sh k \<noteq> None" if "ph i = Hot k" for k
  proof -
    have "phase_ok sh i (ph i)" using ok step(1) by (simp add: caches_ok_def)
    then show ?thesis using that by (simp add: phase_ok_def)
  qed
  ultimately show ?thesis
    using step_phase_healthy [OF step(3)] h step(1,2) by (auto simp: healthy_def split: if_splits)
qed

lemma healthy_reachable:
  assumes cov: "covers N R A E calls"
  shows "reachable_config E calls c \<Longrightarrow> healthy E calls c"
proof (induction rule: reachable_config.induct)
  case r_start
  then show ?case by (simp add: healthy_def start_def)
next
  case (r_step c c')
  then show ?case using healthy_step [OF cov caches_ok_reachable config_typed_reachable [OF cov]] by blast
qed

section \<open>The properties\<close>

text \<open>C5: type soundness of \<^verbatim>\<open>classify\<close>: on debug information that the checker accepts, \<^verbatim>\<open>classify\<close> of a type with a recorded shape, started with no type under construction, does not panic and does not run for ever; the layout it returns is well formed (fields apart, tags and niches where no value can reach them, boxes and elements large enough), no larger than the size recorded and with the niches recorded, and so is the body of every cell, tied now or before.\<close>

theorem classify_sound_typing:
  assumes "laid_out N R slide st A" and "ok_state s" and "memo s = Map.empty" and "cells_ok (cell_body (cells s)) S"
    and "shape_of N st A ui off = Inr sh" and "N + (count_entries st + 1) * Suc R \<le> n"
  shows "\<exists>t s' S'. classify n slide st ui off s = Inr (t, s') \<and> shaped S' t sh \<and> cells_ok (cell_body (cells s')) S'
    \<and> (\<forall>c < next_cell (cells s). S' c = S c)"
proof -
  have ty: "typed A S s" using assms(3,4) by (simp add: typed_def)
  have "chains_end N R st" using assms(1) by (simp add: laid_out_def)
  then have "ends_run (classify n slide st ui off s)" by (rule classify_enough_fuel [OF _ assms(2,6)])
  with sounding.cl_sound [OF assms(1,2) ty assms(5)]
  obtain t s' where r: "classify n slide st ui off s = Inr (t, s')" using only_fuel_returns by (metis surj_pair)
  from shaping.cl_shaped [OF assms(1,2) ty assms(5) r] r show ?thesis
    by (auto simp: typed_step_def typed_def)
qed

theorem classify_sound_typing_witness:
  "\<exists>t s' S'. classify 80 0 [map_unit] 0 11 no_state = Inr (t, s') \<and> shaped S' t (24, []) \<and> cells_ok (cell_body (cells s')) S'"
proof -
  have "count_entries [map_unit] = 15" by code_simp
  moreover have "shape_of 3 [map_unit] map_shapes 0 11 = Inr (24, [])" by code_simp
  moreover have "cells_ok (cell_body (cells no_state)) (\<lambda>_. (0, []))" "memo no_state = Map.empty"
    by (simp_all add: no_state_def no_cells_def cells_ok_def)
  ultimately show ?thesis using classify_sound_typing [OF map_laid_out no_state_ok, where n = 80] by fastforce
qed

text \<open>C15: no accepted type is refused: if the checker accepts the types of all locals that are asked for, no interleaving ever poisons a cache, and a call of \<^verbatim>\<open>resolved\<close> fails only with the failure of its own search for the local.\<close>

theorem accepted_never_poisoned:
  assumes "covers N R A E calls" and "reachable_config E calls (sh, ph)"
  shows "\<not> L1_poisoned sh \<and> \<not> L2_poisoned sh
    \<and> (\<forall>i e. ph i = Failed e \<longrightarrow> find_key E (c_caller (calls i)) (c_ptr (calls i)) = Inl e)"
  using healthy_reachable [OF assms] by (simp add: healthy_def)

theorem accepted_never_poisoned_witness:
  "\<exists>sh ph. reachable_config node_env node_calls (sh, ph) \<and> L2 sh (0, 19) \<noteq> None \<and> \<not> L2_poisoned sh"
proof -
  obtain cs where r: "reachable_config node_env node_calls (node_done cs)" by (rule node_run)
  obtain sh ph where c: "node_done cs = (sh, ph)" by (cases "node_done cs")
  have "L2 sh (0, 19) \<noteq> None" using c by auto
  moreover have "\<not> L2_poisoned sh" using accepted_never_poisoned [OF node_covers r [unfolded c]] by simp
  ultimately show ?thesis using r unfolding c by blast
qed

end
