(* ===== verification/Json.thy ===== *)
theory Json
  imports Plan Utf8
begin

text \<open>
  The lenient JSON parser of \<^verbatim>\<open>crates/bilbo-json/src/json.rs\<close>. The input \<open>b\<close> is the byte
  slice, the cursor \<open>i\<close> the \<^verbatim>\<open>&mut usize\<close> threaded through the functions. Indexing past the
  end panics, as in the source; the loops of \<^verbatim>\<open>parse_value\<close>, \<^verbatim>\<open>parse_object\<close> and
  \<^verbatim>\<open>parse_array\<close>, which need not advance, take fuel.
\<close>

section \<open>Values and their accessors\<close>

datatype json =
    Str bytes
  | Num bytes
  | Bool bool
  | Null
  | Array "json list"
  | Object "(bytes \<times> json) list"

definition is_digit :: "byte \<Rightarrow> bool" where
  "is_digit c \<longleftrightarrow> 0x30 \<le> c \<and> c \<le> 0x39"

fun digits_val :: "nat \<Rightarrow> bytes \<Rightarrow> nat option" where
  "digits_val acc [] = Some acc"
| "digits_val acc (c # cs) =
     (if is_digit c then digits_val (10 * acc + (unat c - 0x30)) cs else None)"

text \<open>
  \<^verbatim>\<open>str::parse::<u128>()\<close>: one optional \<^verbatim>\<open>+\<close>, at least one digit, nothing else, no overflow.
  \<^verbatim>\<open>str::parse::<i128>()\<close> takes a sign \<^verbatim>\<open>-\<close> too.
\<close>

definition parse_u128 :: "bytes \<Rightarrow> nat option" where
  "parse_u128 s =
     (let ds = (case s of c # cs \<Rightarrow> if c = PLUS then cs else s | [] \<Rightarrow> []) in
      if ds = [] then None
      else case digits_val 0 ds of
          None \<Rightarrow> None
        | Some v \<Rightarrow> if v < 2 ^ 128 then Some v else None)"

definition parse_i128 :: "bytes \<Rightarrow> int option" where
  "parse_i128 s =
     (let neg = (case s of c # _ \<Rightarrow> c = MINUS | [] \<Rightarrow> False);
          ds = (case s of c # cs \<Rightarrow> if c = PLUS \<or> c = MINUS then cs else s | [] \<Rightarrow> []) in
      if ds = [] then None
      else case digits_val 0 ds of
          None \<Rightarrow> None
        | Some v \<Rightarrow> (let k = (if neg then - int v else int v) in
            if - (2 ^ 127) \<le> k \<and> k < 2 ^ 127 then Some k else None))"

definition as_u128 :: "json \<Rightarrow> nat res" where
  "as_u128 v = (case v of
      Num s \<Rightarrow> expect (parse_u128 s) ''uint''
    | Str s \<Rightarrow> expect (parse_u128 s) ''uint''
    | Bool b \<Rightarrow> Inr (of_bool b)
    | _ \<Rightarrow> Inl (Panic ''expected integer''))"

definition as_i128 :: "json \<Rightarrow> int res" where
  "as_i128 v = (case v of
      Num s \<Rightarrow> expect (parse_i128 s) ''int''
    | Str s \<Rightarrow> expect (parse_i128 s) ''int''
    | _ \<Rightarrow> Inl (Panic ''expected integer''))"

text \<open>
  Decimal to binary floating point is the standard library's correctly rounded conversion;
  the model takes it as a parameter, from the bytes of the token to the bits of the
  \<^verbatim>\<open>f64\<close>.
\<close>

definition as_f64 :: "(bytes \<Rightarrow> u64 option) \<Rightarrow> json \<Rightarrow> u64 res" where
  "as_f64 std_f64 v = (case v of
      Num s \<Rightarrow> expect (std_f64 s) ''float''
    | _ \<Rightarrow> Inl (Panic ''expected number''))"

definition as_str :: "json \<Rightarrow> bytes res" where
  "as_str v = (case v of Str s \<Rightarrow> Inr s | _ \<Rightarrow> Inl (Panic ''expected string''))"

text \<open>\<^verbatim>\<open>kvs.iter().find\<close>: the first member with the key.\<close>

definition get :: "json \<Rightarrow> bytes \<Rightarrow> json option" where
  "get v key = (case v of Object kvs \<Rightarrow> map_of kvs key | _ \<Rightarrow> None)"

section \<open>Scanning\<close>

text \<open>\<^verbatim>\<open>u8::is_ascii_whitespace\<close>: space, tab, line feed, form feed, carriage return.\<close>

definition is_ascii_whitespace :: "byte \<Rightarrow> bool" where
  "is_ascii_whitespace c \<longleftrightarrow> c = 0x20 \<or> c = 0x09 \<or> c = 0x0A \<or> c = 0x0C \<or> c = 0x0D"

function skip_ws :: "bytes \<Rightarrow> nat \<Rightarrow> nat" where
  "skip_ws b i =
     (if i < length b \<and> is_ascii_whitespace (b ! i) then skip_ws b (Suc i) else i)"
  by pat_completeness auto
termination
  by (relation "measure (\<lambda>(b, i). length b - i)") auto

declare skip_ws.simps [simp del]

definition num_char :: "byte \<Rightarrow> bool" where
  "num_char c \<longleftrightarrow> is_digit c \<or> c = MINUS \<or> c = PLUS \<or> c = DOT \<or> c = 0x65 \<or> c = 0x45"

function num_end :: "bytes \<Rightarrow> nat \<Rightarrow> nat" where
  "num_end b i = (if i < length b \<and> num_char (b ! i) then num_end b (Suc i) else i)"
  by pat_completeness auto
termination
  by (relation "measure (\<lambda>(b, i). length b - i)") auto

declare num_end.simps [simp del]

definition from_utf8 :: "bytes \<Rightarrow> bytes res" where
  "from_utf8 bs = (if utf8_valid bs then Inr bs else Inl (Panic ''valid UTF-8 in JSON string''))"

text \<open>The escapes of \<^verbatim>\<open>parse_string\<close>: any other escaped byte stands for itself.\<close>

definition unescape_byte :: "byte \<Rightarrow> byte" where
  "unescape_byte c =
     (if c = 0x6E then 0x0A
      else if c = 0x74 then 0x09
      else if c = QUOTE then QUOTE
      else if c = BACKSLASH then BACKSLASH
      else c)"

function string_loop :: "bytes \<Rightarrow> nat \<Rightarrow> bytes \<Rightarrow> (bytes \<times> nat) res" where
  "string_loop b i out =
     bindR (idx b i) (\<lambda>c.
       if c = QUOTE then Inr (out, i)
       else if c = BACKSLASH then
         bindR (idx b (Suc i)) (\<lambda>e. string_loop b (Suc (Suc i)) (out @ [unescape_byte e]))
       else string_loop b (Suc i) (out @ [c]))"
  by pat_completeness auto
termination
  by (relation "measure (\<lambda>(b, i, out). length b - i)") (auto simp: idx_def split: if_splits)

declare string_loop.simps [simp del]

definition parse_string :: "bytes \<Rightarrow> nat \<Rightarrow> (bytes \<times> nat) res" where
  "parse_string b i =
     bindR (idx b i) (\<lambda>c.
       if c \<noteq> QUOTE then Inl (Panic ''expected string'')
       else bindR (string_loop b (Suc i) []) (\<lambda>(out, j).
         bindR (from_utf8 out) (\<lambda>s. Inr (s, Suc j))))"

section \<open>Values, arrays, objects\<close>

text \<open>
  The loops of \<^verbatim>\<open>parse_array\<close> and \<^verbatim>\<open>parse_object\<close> call \<^verbatim>\<open>parse_value\<close>, which is passed to
  them as \<open>pv\<close>; they have fuel of their own, one unit per iteration.
\<close>

fun array_loop ::
  "nat \<Rightarrow> (nat \<Rightarrow> (json \<times> nat) res) \<Rightarrow> bytes \<Rightarrow> nat \<Rightarrow> json list \<Rightarrow> (json list \<times> nat) res" where
  "array_loop 0 pv b i out = Inl OutOfFuel"
| "array_loop (Suc n) pv b i out =
     (let i = skip_ws b i in
      bindR (idx b i) (\<lambda>c.
        if c = RBRACKET then Inr (out, Suc i)
        else bindR (pv i) (\<lambda>(v, i).
          let i = skip_ws b i in
          bindR (idx b i) (\<lambda>c.
            array_loop n pv b (if c = COMMA then Suc i else i) (out @ [v])))))"

fun object_loop ::
  "nat \<Rightarrow> (nat \<Rightarrow> (json \<times> nat) res) \<Rightarrow> bytes \<Rightarrow> nat \<Rightarrow> (bytes \<times> json) list \<Rightarrow>
   ((bytes \<times> json) list \<times> nat) res" where
  "object_loop 0 pv b i out = Inl OutOfFuel"
| "object_loop (Suc n) pv b i out =
     (let i = skip_ws b i in
      bindR (idx b i) (\<lambda>c.
        if c = RBRACE then Inr (out, Suc i)
        else bindR (parse_string b i) (\<lambda>(key, i).
          let i = skip_ws b i in
          bindR (idx b i) (\<lambda>c.
            if c \<noteq> COLON then Inl (Panic ''expected colon'')
            else bindR (pv (Suc i)) (\<lambda>(v, i).
              let i = skip_ws b i in
              bindR (idx b i) (\<lambda>c.
                object_loop n pv b (if c = COMMA then Suc i else i) (out @ [(key, v)])))))))"

definition parse_array ::
  "nat \<Rightarrow> (nat \<Rightarrow> (json \<times> nat) res) \<Rightarrow> bytes \<Rightarrow> nat \<Rightarrow> (json \<times> nat) res" where
  "parse_array n pv b i = bindR (array_loop n pv b (Suc i) []) (\<lambda>(vs, j). Inr (Array vs, j))"

definition parse_object ::
  "nat \<Rightarrow> (nat \<Rightarrow> (json \<times> nat) res) \<Rightarrow> bytes \<Rightarrow> nat \<Rightarrow> (json \<times> nat) res" where
  "parse_object n pv b i = bindR (object_loop n pv b (Suc i) []) (\<lambda>(kvs, j). Inr (Object kvs, j))"

definition parse_number :: "bytes \<Rightarrow> nat \<Rightarrow> (json \<times> nat) res" where
  "parse_number b i =
     (let j = num_end b i; s = take (j - i) (drop i b) in
      if utf8_valid s then Inr (Num s, j) else Inl (Panic ''called unwrap on an Err value''))"

fun parse_value :: "nat \<Rightarrow> bytes \<Rightarrow> nat \<Rightarrow> (json \<times> nat) res" where
  "parse_value 0 b i = Inl OutOfFuel"
| "parse_value (Suc n) b i =
     (let i = skip_ws b i in
      bindR (idx b i) (\<lambda>c.
        if c = LBRACE then parse_object n (parse_value n b) b i
        else if c = LBRACKET then parse_array n (parse_value n b) b i
        else if c = QUOTE then bindR (parse_string b i) (\<lambda>(s, j). Inr (Str s, j))
        else if c = 0x74 then Inr (Bool True, i + 4)
        else if c = 0x66 then Inr (Bool False, i + 5)
        else if c = 0x6E then Inr (Null, i + 4)
        else parse_number b i))"

declare array_loop.simps(2) [simp del] object_loop.simps(2) [simp del] parse_value.simps(2) [simp del]

definition parse :: "nat \<Rightarrow> bytes \<Rightarrow> json res" where
  "parse n s = bindR (parse_value n s 0) (\<lambda>(v, _). Inr v)"

end
