(* ===== verification/Json_Text.thy ===== *)
theory Json_Text
  imports Json
begin

text \<open>
  A grammar of JSON texts, as a relation between values and the byte strings that denote
  them: arbitrary whitespace between tokens, a trailing comma allowed in arrays and objects
  (the lenience both backends share), string bodies with the escapes on which they agree,
  keys without escapes. It is the specification side of both parsers: \<open>parse_value\<close> is
  proved to return the value of any such text, and the compiled parser to bind it.
\<close>

section \<open>Tokens\<close>

definition ws_byte :: "byte \<Rightarrow> bool" where
  "ws_byte c \<longleftrightarrow> c = 0x20 \<or> c = 0x09 \<or> c = 0x0A \<or> c = 0x0D"

definition raw_char :: "byte \<Rightarrow> bool" where
  "raw_char c \<longleftrightarrow> c \<noteq> QUOTE \<and> c \<noteq> BACKSLASH"

definition num_tok :: "bytes \<Rightarrow> bool" where
  "num_tok s \<longleftrightarrow> s \<noteq> [] \<and> list_all num_char s"

definition simple_escape :: "byte \<Rightarrow> bool" where
  "simple_escape e \<longleftrightarrow> e = 0x6E \<or> e = 0x74 \<or> e = QUOTE \<or> e = BACKSLASH \<or> e = SLASH"

text \<open>The content of a string body (the bytes between the quotes), \<open>None\<close> if it is not one.\<close>

fun body_val :: "bytes \<Rightarrow> bytes option" where
  "body_val [] = Some []"
| "body_val (c # cs) =
     (if c = QUOTE then None
      else if c = BACKSLASH then
        (case cs of
           [] \<Rightarrow> None
         | e # es \<Rightarrow> if simple_escape e then map_option (Cons (unescape_byte e)) (body_val es) else None)
      else map_option (Cons c) (body_val cs))"

text \<open>What may follow a number: the end of the input or a byte that is not part of a number.\<close>

definition stops :: "bytes \<Rightarrow> bool" where
  "stops rest \<longleftrightarrow> (case rest of [] \<Rightarrow> True | c # _ \<Rightarrow> \<not> num_char c)"

section \<open>The grammar\<close>

inductive value_text :: "json \<Rightarrow> bytes \<Rightarrow> bool"
  and elems_text :: "json list \<Rightarrow> bytes \<Rightarrow> bool"
  and members_text :: "(bytes \<times> json) list \<Rightarrow> bytes \<Rightarrow> bool" where
  text_num: "num_tok s \<Longrightarrow> value_text (Num s) s"
| text_str: "body_val bd = Some s \<Longrightarrow> utf8_valid s \<Longrightarrow> value_text (Str s) (QUOTE # bd @ [QUOTE])"
| text_true: "value_text (Bool True) [0x74, 0x72, 0x75, 0x65]"
| text_false: "value_text (Bool False) [0x66, 0x61, 0x6C, 0x73, 0x65]"
| text_null: "value_text Null [0x6E, 0x75, 0x6C, 0x6C]"
| text_array: "elems_text js t \<Longrightarrow> value_text (Array js) (LBRACKET # t)"
| text_object: "members_text ms t \<Longrightarrow> value_text (Object ms) (LBRACE # t)"
| elems_end: "list_all ws_byte w \<Longrightarrow> elems_text [] (w @ [RBRACKET])"
| elems_last: "list_all ws_byte w \<Longrightarrow> value_text j t \<Longrightarrow> list_all ws_byte w' \<Longrightarrow>
    elems_text [j] (w @ t @ w' @ [RBRACKET])"
| elems_more: "list_all ws_byte w \<Longrightarrow> value_text j t \<Longrightarrow> list_all ws_byte w' \<Longrightarrow>
    elems_text js t' \<Longrightarrow> elems_text (j # js) (w @ t @ w' @ COMMA # t')"
| members_end: "list_all ws_byte w \<Longrightarrow> members_text [] (w @ [RBRACE])"
| members_last: "list_all ws_byte w \<Longrightarrow> list_all raw_char k \<Longrightarrow> utf8_valid k \<Longrightarrow>
    list_all ws_byte w1 \<Longrightarrow> list_all ws_byte w2 \<Longrightarrow> value_text j t \<Longrightarrow> list_all ws_byte w' \<Longrightarrow>
    members_text [(k, j)] (w @ QUOTE # k @ QUOTE # w1 @ COLON # w2 @ t @ w' @ [RBRACE])"
| members_more: "list_all ws_byte w \<Longrightarrow> list_all raw_char k \<Longrightarrow> utf8_valid k \<Longrightarrow>
    list_all ws_byte w1 \<Longrightarrow> list_all ws_byte w2 \<Longrightarrow> value_text j t \<Longrightarrow> list_all ws_byte w' \<Longrightarrow>
    members_text ms t' \<Longrightarrow>
    members_text ((k, j) # ms) (w @ QUOTE # k @ QUOTE # w1 @ COLON # w2 @ t @ w' @ COMMA # t')"

lemmas text_intros = value_text_elems_text_members_text.intros
lemmas text_induct = value_text_elems_text_members_text.inducts

text \<open>The first byte of a value text.\<close>

definition value_start :: "byte \<Rightarrow> bool" where
  "value_start c \<longleftrightarrow>
     c = LBRACE \<or> c = LBRACKET \<or> c = QUOTE \<or> c = 0x74 \<or> c = 0x66 \<or> c = 0x6E \<or> num_char c"

lemma value_text_start:
  assumes "value_text j t"
  obtains c cs where "t = c # cs" and "value_start c"
proof -
  have "\<exists>c cs. t = c # cs \<and> value_start c"
    using assms
  proof (cases rule: value_text.cases)
    case text_num
    then show ?thesis by (cases t) (auto simp: num_tok_def value_start_def)
  qed (auto simp: value_start_def)
  then show thesis using that by blast
qed

lemma ws_byte_ascii: "ws_byte c \<Longrightarrow> is_ascii_whitespace c"
  by (auto simp: ws_byte_def is_ascii_whitespace_def)

lemma ws_not_num: "is_ascii_whitespace c \<Longrightarrow> \<not> num_char c"
  by (auto simp: is_ascii_whitespace_def num_char_def is_digit_def)

lemma value_start_not_ws: "value_start c \<Longrightarrow> \<not> is_ascii_whitespace c"
  by (auto simp: value_start_def is_ascii_whitespace_def num_char_def is_digit_def)

lemma value_start_delims [simp]:
  "\<not> value_start RBRACKET" "\<not> value_start RBRACE" "\<not> value_start COMMA" "\<not> value_start COLON"
  by (auto simp: value_start_def num_char_def is_digit_def)

lemma stops_ws: "list_all ws_byte w \<Longrightarrow> \<not> num_char c \<Longrightarrow> stops (w @ c # r)"
  by (cases w) (auto simp: stops_def dest: ws_byte_ascii ws_not_num)

lemma not_num_delims [simp]:
  "\<not> num_char RBRACKET" "\<not> num_char RBRACE" "\<not> num_char COMMA" "\<not> num_char COLON" "\<not> num_char QUOTE"
  by (auto simp: num_char_def is_digit_def)

lemma not_ws_delims [simp]:
  "\<not> is_ascii_whitespace RBRACKET" "\<not> is_ascii_whitespace RBRACE" "\<not> is_ascii_whitespace COMMA"
  "\<not> is_ascii_whitespace COLON" "\<not> is_ascii_whitespace QUOTE"
  "\<not> is_ascii_whitespace LBRACKET" "\<not> is_ascii_whitespace LBRACE"
  by (auto simp: is_ascii_whitespace_def)

section \<open>A printer\<close>

text \<open>Compact texts, with the escapes a body needs; \<open>printable\<close> values have such a text.\<close>

fun escape_body :: "bytes \<Rightarrow> bytes" where
  "escape_body [] = []"
| "escape_body (c # cs) =
     (if c = QUOTE \<or> c = BACKSLASH then [BACKSLASH, c]
      else if c = 0x0A then [BACKSLASH, 0x6E]
      else if c = 0x09 then [BACKSLASH, 0x74]
      else [c]) @ escape_body cs"

lemma body_val_escape: "body_val (escape_body s) = Some s"
  by (induction s) (auto simp: simple_escape_def unescape_byte_def)

fun join :: "byte \<Rightarrow> bytes list \<Rightarrow> bytes" where
  "join sep [] = []"
| "join sep [t] = t"
| "join sep (t # ts) = t @ sep # join sep ts"

fun print :: "json \<Rightarrow> bytes" where
  "print (Num s) = s"
| "print (Str s) = QUOTE # escape_body s @ [QUOTE]"
| "print (Bool b) = (if b then [0x74, 0x72, 0x75, 0x65] else [0x66, 0x61, 0x6C, 0x73, 0x65])"
| "print Null = [0x6E, 0x75, 0x6C, 0x6C]"
| "print (Array js) = LBRACKET # join COMMA (map print js) @ [RBRACKET]"
| "print (Object ms) =
     LBRACE # join COMMA (map (\<lambda>(k, j). QUOTE # k @ QUOTE # COLON # print j) ms) @ [RBRACE]"

fun printable :: "json \<Rightarrow> bool" where
  "printable (Num s) \<longleftrightarrow> num_tok s"
| "printable (Str s) \<longleftrightarrow> utf8_valid s"
| "printable (Array js) \<longleftrightarrow> list_all printable js"
| "printable (Object ms) \<longleftrightarrow>
     list_all (\<lambda>(k, j). list_all raw_char k \<and> utf8_valid k \<and> printable j) ms"
| "printable _ \<longleftrightarrow> True"

lemma elems_text_join:
  "(\<And>j. j \<in> set js \<Longrightarrow> value_text j (f j)) \<Longrightarrow> elems_text js (join COMMA (map f js) @ [RBRACKET])"
proof (induction js rule: induct_list012)
  case 1
  show ?case using elems_end [of "[]"] by simp
next
  case (2 j)
  then show ?case using elems_last [of "[]" j "f j" "[]"] by simp
next
  case (3 j j' js)
  then have "elems_text (j' # js) (join COMMA (map f (j' # js)) @ [RBRACKET])" by simp
  with 3 show ?case using elems_more [of "[]" j "f j" "[]" "j' # js"] by simp
qed

lemma members_text_join:
  "(\<And>k j. (k, j) \<in> set ms \<Longrightarrow> list_all raw_char k \<and> utf8_valid k \<and> value_text j (f j)) \<Longrightarrow>
   members_text ms
     (join COMMA (map (\<lambda>(k, j). QUOTE # k @ QUOTE # COLON # f j) ms) @ [RBRACE])"
proof (induction ms rule: induct_list012)
  case 1
  show ?case using members_end [of "[]"] by simp
next
  case (2 m)
  then show ?case using members_last [of "[]" "fst m" "[]" "[]" "snd m" "f (snd m)" "[]"]
    by (cases m) simp
next
  case (3 m m' ms)
  let ?p = "\<lambda>(k, j). QUOTE # k @ QUOTE # COLON # f j"
  have "members_text (m' # ms) (join COMMA (map ?p (m' # ms)) @ [RBRACE])"
    by (rule "3.IH"(2)) (use "3.prems" in auto)
  with "3.prems" show ?case
    using members_more [of "[]" "fst m" "[]" "[]" "snd m" "f (snd m)" "[]" "m' # ms"]
    by (cases m) auto
qed

lemma value_text_print: "printable j \<Longrightarrow> value_text j (print j)"
proof (induction j)
  case (Array js)
  then have "elems_text js (join COMMA (map print js) @ [RBRACKET])"
    by (intro elems_text_join) (auto simp: list_all_iff)
  then show ?case by (simp add: text_array)
next
  case (Object ms)
  then have "members_text ms
      (join COMMA (map (\<lambda>(k, j). QUOTE # k @ QUOTE # COLON # print j) ms) @ [RBRACE])"
    by (intro members_text_join) (fastforce simp: list_all_iff)
  then show ?case by (simp add: text_object)
next
  case (Bool b)
  then show ?case by (cases b) (auto intro: text_intros)
qed (auto intro: text_intros body_val_escape)

end
