(* ===== verification/Json_Props.thy ===== *)
theory Json_Props
  imports Json_Text
begin

text \<open>
  Correctness of the lenient parser: it returns the value of every text of the grammar
  (whatever whitespace, whatever follows), it inverts printing, it never fails a UTF-8 check
  on a valid \<^verbatim>\<open>str\<close>, and it does not end on an array that holds a byte no value starts
  with.
\<close>

section \<open>Scanning lemmas\<close>

lemma skip_ws_text:
  "drop i b = w @ c # r \<Longrightarrow> list_all ws_byte w \<Longrightarrow> \<not> is_ascii_whitespace c \<Longrightarrow>
   skip_ws b i = i + length w"
proof (induction w arbitrary: i)
  case Nil
  then show ?case by (auto simp: skip_ws.simps [of b i] dest: drop_ConsD)
next
  case (Cons x w)
  then have d: "i < length b" "b ! i = x" "drop (Suc i) b = w @ c # r"
    using drop_ConsD [of i b x "w @ c # r"] by auto
  then show ?case using Cons by (simp add: skip_ws.simps [of b i] ws_byte_ascii)
qed

lemma idx_drop: "drop i b = c # r \<Longrightarrow> idx b i = Inr c"
  using drop_ConsD [of i b c r] by simp

lemma num_end_text:
  "drop i b = s @ r \<Longrightarrow> list_all num_char s \<Longrightarrow> stops r \<Longrightarrow> num_end b i = i + length s"
proof (induction s arbitrary: i)
  case Nil
  show ?case
  proof (cases r)
    case Nil
    with \<open>drop i b = [] @ r\<close> show ?thesis by (simp add: num_end.simps [of b i])
  next
    case (Cons c cs)
    with Nil.prems show ?thesis
      by (auto simp: num_end.simps [of b i] stops_def dest: drop_ConsD)
  qed
next
  case (Cons x s)
  then have d: "i < length b" "b ! i = x" "drop (Suc i) b = s @ r"
    using drop_ConsD [of i b x "s @ r"] by auto
  then show ?case using Cons by (simp add: num_end.simps [of b i])
qed

lemma num_char_ascii: "num_char c \<Longrightarrow> c < 0x80"
  by (auto simp: num_char_def is_digit_def elim: order_le_less_trans)

lemma utf8_valid_num: "list_all num_char s \<Longrightarrow> utf8_valid s"
  by (induction s) (auto dest: num_char_ascii simp del: utf8_valid.simps(2))

lemma string_loop_text:
  "drop i b = bd @ QUOTE # r \<Longrightarrow> body_val bd = Some s \<Longrightarrow>
   string_loop b i out = Inr (out @ s, i + length bd)"
proof (induction bd arbitrary: i out s rule: body_val.induct)
  case 1
  then show ?case by (simp add: string_loop.simps [of b i] idx_drop)
next
  case (2 c cs)
  have c: "idx b i = Inr c" and d: "drop (Suc i) b = cs @ QUOTE # r" "c \<noteq> QUOTE"
    using "2.prems" drop_ConsD [of i b c "cs @ QUOTE # r"]
    by (auto simp: idx_drop split: if_splits)
  show ?case
  proof (cases "c = BACKSLASH")
    case False
    with "2.prems" d obtain s' where "body_val cs = Some s'" "s = c # s'" by auto
    with False d c show ?thesis
      using "2.IH"(2) [OF d(2) False d(1)] by (simp add: string_loop.simps [of b i])
  next
    case True
    with "2.prems" obtain e es s' where cs: "cs = e # es" and e: "simple_escape e"
      and s: "body_val es = Some s'" "s = unescape_byte e # s'"
      by (auto split: list.splits if_splits)
    have "idx b (Suc i) = Inr e" and d': "drop (Suc (Suc i)) b = es @ QUOTE # r"
      using d(1) drop_ConsD [of "Suc i" b e "es @ QUOTE # r"] by (simp_all add: cs idx_drop)
    with True c s show ?thesis
      using "2.IH"(1) [OF d(2) True cs e d'] by (simp add: string_loop.simps [of b i] cs)
  qed
qed

lemma parse_string_text:
  assumes "drop i b = QUOTE # bd @ QUOTE # r" and "body_val bd = Some s" and "utf8_valid s"
  shows "parse_string b i = Inr (s, i + length bd + 2)"
proof -
  have "drop (Suc i) b = bd @ QUOTE # r" using assms(1) by (auto dest: drop_ConsD)
  then show ?thesis
    using string_loop_text [of "Suc i" b bd r s "[]"] assms
    by (simp add: parse_string_def idx_drop from_utf8_def)
qed

lemma body_val_raw: "list_all raw_char k \<Longrightarrow> body_val k = Some k"
  by (induction k) (auto simp: raw_char_def)

section \<open>Every text is parsed to its value\<close>

text \<open>The three loops, stated over the rest \<open>r\<close> of the input behind the text.\<close>

definition value_parsed :: "json \<Rightarrow> bytes \<Rightarrow> bool" where
  "value_parsed j t \<longleftrightarrow> (\<forall>b i w r. drop i b = w @ t @ r \<longrightarrow> list_all ws_byte w \<longrightarrow> stops r \<longrightarrow>
     returns (\<lambda>n. parse_value n b i) (j, i + length w + length t))"

definition elems_parsed :: "json list \<Rightarrow> bytes \<Rightarrow> bool" where
  "elems_parsed js t \<longleftrightarrow> (\<forall>b i r out. drop i b = t @ r \<longrightarrow>
     returns2 (\<lambda>k n. array_loop k (parse_value n b) b i out) (out @ js, i + length t))"

definition members_parsed :: "(bytes \<times> json) list \<Rightarrow> bytes \<Rightarrow> bool" where
  "members_parsed ms t \<longleftrightarrow> (\<forall>b i r out. drop i b = t @ r \<longrightarrow>
     returns2 (\<lambda>k n. object_loop k (parse_value n b) b i out) (out @ ms, i + length t))"

text \<open>The dispatch of \<open>parse_value\<close> on the first byte behind the whitespace.\<close>

lemma parse_value_at:
  assumes "drop i b = w @ c # r" and "list_all ws_byte w" and "\<not> is_ascii_whitespace c"
  shows "parse_value (Suc n) b i =
    (if c = LBRACE then parse_object n (parse_value n b) b (i + length w)
     else if c = LBRACKET then parse_array n (parse_value n b) b (i + length w)
     else if c = QUOTE then
       bindR (parse_string b (i + length w)) (\<lambda>(s, j). Inr (Str s, j))
     else if c = 0x74 then Inr (Bool True, i + length w + 4)
     else if c = 0x66 then Inr (Bool False, i + length w + 5)
     else if c = 0x6E then Inr (Null, i + length w + 4)
     else parse_number b (i + length w))"
proof -
  have "idx b (i + length w) = Inr c" using drop_appendD [OF assms(1)] by (rule idx_drop)
  then show ?thesis
    by (simp only: parse_value.simps Let_def skip_ws_text [OF assms] bindR_Inr)
qed

lemma value_parsedI:
  assumes "\<And>b i w r. drop i b = w @ t @ r \<Longrightarrow> list_all ws_byte w \<Longrightarrow> stops r \<Longrightarrow>
    returns (\<lambda>n. parse_value (Suc n) b i) (j, i + length w + length t)"
  shows "value_parsed j t"
  unfolding value_parsed_def using assms by (blast intro: returns_Suc)

lemma value_parsedD:
  "value_parsed j t \<Longrightarrow> drop i b = w @ t @ r \<Longrightarrow> list_all ws_byte w \<Longrightarrow> stops r \<Longrightarrow>
   returns (\<lambda>n. parse_value n b i) (j, i + length w + length t)"
  unfolding value_parsed_def by blast

lemma value_parsed_num:
  assumes "num_tok s"
  shows "value_parsed (Num s) s"
proof (rule value_parsedI)
  fix b i w r
  assume d: "drop i b = w @ s @ r" and w: "list_all ws_byte w" and r: "stops r"
  from assms obtain c cs where s: "s = c # cs" and c: "num_char c" and all: "list_all num_char s"
    by (cases s) (auto simp: num_tok_def)
  have nc: "c \<noteq> LBRACE" "c \<noteq> LBRACKET" "c \<noteq> QUOTE" "c \<noteq> 0x74" "c \<noteq> 0x66" "c \<noteq> 0x6E"
    using c by (auto simp: num_char_def is_digit_def)
  have d': "drop (i + length w) b = s @ r" using drop_appendD [OF d] .
  have "parse_number b (i + length w) = Inr (Num s, i + length w + length s)"
    using num_end_text [OF d' all r] utf8_valid_num [OF all] d'
    by (simp add: parse_number_def Let_def)
  moreover have "\<not> is_ascii_whitespace c" using c ws_not_num by blast
  ultimately show "returns (\<lambda>n. parse_value (Suc n) b i) (Num s, i + length w + length s)"
    using parse_value_at [of i b w c "cs @ r"] d w nc by (simp add: s)
qed

lemma value_parsed_word:
  "value_parsed (Bool True) [0x74, 0x72, 0x75, 0x65]"
  "value_parsed (Bool False) [0x66, 0x61, 0x6C, 0x73, 0x65]"
  "value_parsed Null [0x6E, 0x75, 0x6C, 0x6C]"
  by (rule value_parsedI, rule returnsI [of 0],
      simp add: parse_value_at is_ascii_whitespace_def)+

lemma value_parsed_str:
  assumes "body_val bd = Some s" and "utf8_valid s"
  shows "value_parsed (Str s) (QUOTE # bd @ [QUOTE])"
proof (rule value_parsedI)
  fix b i w r
  assume d: "drop i b = w @ (QUOTE # bd @ [QUOTE]) @ r" and w: "list_all ws_byte w"
  have "parse_string b (i + length w) = Inr (s, i + length w + length bd + 2)"
    using drop_appendD [OF d] assms by (intro parse_string_text) auto
  then show "returns (\<lambda>n. parse_value (Suc n) b i)
      (Str s, i + length w + length (QUOTE # bd @ [QUOTE]))"
    using parse_value_at [of i b w QUOTE "bd @ [QUOTE] @ r"] d w by simp
qed

text \<open>Arrays: one iteration of the loop, then the closing bracket.\<close>

lemma array_loop_end:
  assumes "drop i b = w @ RBRACKET # r" and "list_all ws_byte w"
  shows "array_loop (Suc k) pv b i out = Inr (out, i + length w + 1)"
  using skip_ws_text [OF assms] drop_appendD [OF assms(1)]
  by (simp add: idx_drop array_loop.simps)

lemma array_loop_elem:
  assumes v: "value_parsed j t" "value_text j t"
    and d: "drop i b = w @ t @ w' @ c # r" and w: "list_all ws_byte w" "list_all ws_byte w'"
    and c: "\<not> is_ascii_whitespace c" "\<not> num_char c"
    and rest: "returns2 (\<lambda>k n. array_loop k (parse_value n b) b
      (if c = COMMA then i + length w + length t + length w' + 1
       else i + length w + length t + length w') (out @ [j])) res"
  shows "returns2 (\<lambda>k n. array_loop k (parse_value n b) b i out) res"
proof (rule returns2_Suc)
  obtain a as where t: "t = a # as" and a: "value_start a" using v(2) by (rule value_text_start)
  have i: "skip_ws b i = i + length w"
    using d w(1) t a value_start_not_ws by (intro skip_ws_text [of i b w a]) auto
  have d1: "drop (i + length w) b = t @ w' @ c # r" using drop_appendD [OF d] .
  have ia: "idx b (i + length w) = Inr a" using d1 by (simp add: t idx_drop)
  have d2: "drop (i + length w + length t) b = w' @ c # r" using drop_appendD [OF d1] .
  have j: "skip_ws b (i + length w + length t) = i + length w + length t + length w'"
    using d2 w(2) c(1) by (rule skip_ws_text)
  have ic: "idx b (i + length w + length t + length w') = Inr c"
    using drop_appendD [OF d2] by (rule idx_drop)
  have na: "a \<noteq> RBRACKET" using a by auto
  have pv: "returns (\<lambda>n. parse_value n b (i + length w)) (j, i + length w + length t)"
    using value_parsedD [OF v(1), of "i + length w" b "[]" "w' @ c # r"] d1 stops_ws [OF w(2) c(2)]
    by simp
  show "returns2 (\<lambda>k n. array_loop (Suc k) (parse_value n b) b i out) res"
    unfolding array_loop.simps Let_def i ia bindR_Inr if_not_P [OF na]
    by (rule returns2_bind [OF returns2_lift [OF pv]]) (use rest in \<open>auto simp: j ic\<close>)
qed

lemma elems_parsedI:
  assumes "\<And>b i r out. drop i b = t @ r \<Longrightarrow>
    returns2 (\<lambda>k n. array_loop k (parse_value n b) b i out) (out @ js, i + length t)"
  shows "elems_parsed js t"
  unfolding elems_parsed_def using assms by blast

lemma elems_parsed_end:
  assumes "list_all ws_byte w"
  shows "elems_parsed [] (w @ [RBRACKET])"
proof (rule elems_parsedI, rule returns2_Suc)
  fix b i r out
  assume "drop i b = (w @ [RBRACKET]) @ r"
  then have "array_loop (Suc k) (parse_value n b) b i out = Inr (out, i + length w + 1)" for k n
    using assms by (intro array_loop_end) auto
  then show "returns2 (\<lambda>k n. array_loop (Suc k) (parse_value n b) b i out)
      (out @ [], i + length (w @ [RBRACKET]))"
    by simp
qed

lemma elems_parsed_last:
  assumes "list_all ws_byte w" and v: "value_text j t" "value_parsed j t"
    and w': "list_all ws_byte w'"
  shows "elems_parsed [j] (w @ t @ w' @ [RBRACKET])"
proof (rule elems_parsedI)
  fix b i r out
  let ?i = "i + length w + length t + length w'"
  assume "drop i b = (w @ t @ w' @ [RBRACKET]) @ r"
  then have d: "drop i b = w @ t @ w' @ RBRACKET # r" by simp
  have "drop ?i b = RBRACKET # r"
    using drop_appendD [OF drop_appendD [OF drop_appendD [OF d]]] .
  then have "array_loop (Suc k) (parse_value n b) b ?i (out @ [j]) = Inr (out @ [j], ?i + 0 + 1)"
    for k n using array_loop_end [of ?i b "[]" r] by simp
  then have "returns2 (\<lambda>k n. array_loop k (parse_value n b) b ?i (out @ [j])) (out @ [j], ?i + 1)"
    by - (rule returns2_Suc, simp)
  then show "returns2 (\<lambda>k n. array_loop k (parse_value n b) b i out)
      (out @ [j], i + length (w @ t @ w' @ [RBRACKET]))"
    using assms by (intro array_loop_elem [OF v(2,1) d]) (auto simp: add.assoc)
qed

lemma elems_parsed_more:
  assumes "list_all ws_byte w" and v: "value_text j t" "value_parsed j t"
    and w': "list_all ws_byte w'" and rest: "elems_parsed js t'"
  shows "elems_parsed (j # js) (w @ t @ w' @ COMMA # t')"
proof (rule elems_parsedI)
  fix b i r out
  let ?i = "i + length w + length t + length w'"
  assume "drop i b = (w @ t @ w' @ COMMA # t') @ r"
  then have d: "drop i b = w @ t @ w' @ COMMA # t' @ r" by simp
  have "drop ?i b = COMMA # t' @ r"
    using drop_appendD [OF drop_appendD [OF drop_appendD [OF d]]] .
  then have "drop (Suc ?i) b = t' @ r" by (auto dest: drop_ConsD)
  then have "returns2 (\<lambda>k n. array_loop k (parse_value n b) b (Suc ?i) (out @ [j]))
      ((out @ [j]) @ js, Suc ?i + length t')"
    using rest unfolding elems_parsed_def by blast
  then show "returns2 (\<lambda>k n. array_loop k (parse_value n b) b i out)
      (out @ j # js, i + length (w @ t @ w' @ COMMA # t'))"
    using assms by (intro array_loop_elem [OF v(2,1) d]) (auto simp: add.assoc)
qed

lemma value_parsed_array:
  assumes "elems_parsed js t"
  shows "value_parsed (Array js) (LBRACKET # t)"
proof (rule value_parsedI)
  fix b i w r
  assume d: "drop i b = w @ (LBRACKET # t) @ r" and w: "list_all ws_byte w"
  have "drop (Suc (i + length w)) b = t @ r"
    using drop_appendD [OF d] by (auto dest: drop_ConsD)
  then have "returns2 (\<lambda>k n. array_loop k (parse_value n b) b (Suc (i + length w)) [])
      ([] @ js, Suc (i + length w) + length t)"
    using assms unfolding elems_parsed_def by blast
  then have "returns (\<lambda>n. parse_array n (parse_value n b) b (i + length w))
      (Array js, i + length w + length (LBRACKET # t))"
    unfolding parse_array_def by (intro returns_bind [OF returns2_diag]) auto
  then show "returns (\<lambda>n. parse_value (Suc n) b i) (Array js, i + length w + length (LBRACKET # t))"
    using parse_value_at [of i b w LBRACKET "t @ r"] d w by simp
qed

text \<open>Objects: the same with a key and a colon in front of each value.\<close>

lemma object_loop_end:
  assumes "drop i b = w @ RBRACE # r" and "list_all ws_byte w"
  shows "object_loop (Suc k) pv b i out = Inr (out, i + length w + 1)"
  using skip_ws_text [OF assms] drop_appendD [OF assms(1)]
  by (simp add: idx_drop object_loop.simps)

lemma object_loop_member:
  assumes v: "value_parsed j t" "value_text j t"
    and key: "list_all raw_char key" "utf8_valid key"
    and d: "drop i b = w @ QUOTE # key @ QUOTE # w1 @ COLON # w2 @ t @ w' @ c # r"
    and w: "list_all ws_byte w" "list_all ws_byte w1" "list_all ws_byte w2" "list_all ws_byte w'"
    and c: "\<not> is_ascii_whitespace c" "\<not> num_char c"
    and i': "i' = i + length w + length key + 2 + length w1 + 1 + length w2 + length t + length w'"
    and rest: "returns2 (\<lambda>k n. object_loop k (parse_value n b) b
      (if c = COMMA then i' + 1 else i') (out @ [(key, j)])) res"
  shows "returns2 (\<lambda>k n. object_loop k (parse_value n b) b i out) res"
proof (rule returns2_Suc)
  let ?i1 = "i + length w" and ?i2 = "i + length w + length key + 2"
  let ?i3 = "i + length w + length key + 2 + length w1"
  have i: "skip_ws b i = ?i1" using d w(1) by (intro skip_ws_text) auto
  have d1: "drop ?i1 b = QUOTE # key @ QUOTE # w1 @ COLON # w2 @ t @ w' @ c # r"
    using drop_appendD [OF d] .
  have i1: "idx b ?i1 = Inr QUOTE" using d1 by (rule idx_drop)
  have ps: "parse_string b ?i1 = Inr (key, ?i2)"
    using d1 key by (intro parse_string_text) (auto simp: body_val_raw)
  have d2: "drop ?i2 b = w1 @ COLON # w2 @ t @ w' @ c # r"
    using drop_appendD [of ?i1 b "QUOTE # key @ [QUOTE]"] d1 by simp
  have j2: "skip_ws b ?i2 = ?i3" using d2 w(2) by (intro skip_ws_text) auto
  have d3: "drop ?i3 b = COLON # w2 @ t @ w' @ c # r" using drop_appendD [OF d2] .
  have i3: "idx b ?i3 = Inr COLON" using d3 by (rule idx_drop)
  have d4: "drop (Suc ?i3) b = w2 @ t @ w' @ c # r" using drop_ConsD [OF d3] by simp
  have pv: "returns (\<lambda>n. parse_value n b (Suc ?i3)) (j, Suc ?i3 + length w2 + length t)"
    using value_parsedD [OF v(1) d4 w(3) stops_ws [OF w(4) c(2)]] .
  have d5: "drop (Suc ?i3 + length w2 + length t) b = w' @ c # r"
    using drop_appendD [OF drop_appendD [OF d4]] by (simp add: add.assoc)
  have j5: "skip_ws b (Suc ?i3 + length w2 + length t) = i'"
    using skip_ws_text [OF d5 w(4) c(1)] by (simp add: i')
  have ic: "idx b i' = Inr c" using idx_drop [OF drop_appendD [OF d5]] by (simp add: i')
  show "returns2 (\<lambda>k n. object_loop (Suc k) (parse_value n b) b i out) res"
    unfolding object_loop.simps Let_def i i1 ps bindR_Inr prod.case j2 i3
    by (simp, rule returns2_bind [OF returns2_lift [OF pv [simplified]]])
      (use rest j5 ic in \<open>auto\<close>)
qed

lemma members_parsedI:
  assumes "\<And>b i r out. drop i b = t @ r \<Longrightarrow>
    returns2 (\<lambda>k n. object_loop k (parse_value n b) b i out) (out @ ms, i + length t)"
  shows "members_parsed ms t"
  unfolding members_parsed_def using assms by blast

lemma members_parsed_end:
  assumes "list_all ws_byte w"
  shows "members_parsed [] (w @ [RBRACE])"
proof (rule members_parsedI, rule returns2_Suc)
  fix b i r out
  assume "drop i b = (w @ [RBRACE]) @ r"
  then have "object_loop (Suc k) (parse_value n b) b i out = Inr (out, i + length w + 1)" for k n
    using assms by (intro object_loop_end) auto
  then show "returns2 (\<lambda>k n. object_loop (Suc k) (parse_value n b) b i out)
      (out @ [], i + length (w @ [RBRACE]))"
    by simp
qed

lemma drop_member:
  assumes "drop i b = w @ QUOTE # key @ QUOTE # w1 @ COLON # w2 @ t @ w' @ c # r"
  shows "drop (i + length w + length key + 2 + length w1 + 1 + length w2 + length t + length w') b
    = c # r"
  using drop_appendD [of i b "w @ QUOTE # key @ QUOTE # w1 @ COLON # w2 @ t @ w'" "c # r"] assms
  by (simp add: add_ac)

lemma members_parsed_last:
  assumes w: "list_all ws_byte w" "list_all ws_byte w1" "list_all ws_byte w2" "list_all ws_byte w'"
    and key: "list_all raw_char key" "utf8_valid key"
    and v: "value_text j t" "value_parsed j t"
  shows "members_parsed [(key, j)] (w @ QUOTE # key @ QUOTE # w1 @ COLON # w2 @ t @ w' @ [RBRACE])"
proof (rule members_parsedI)
  fix b i r out
  let ?i = "i + length w + length key + 2 + length w1 + 1 + length w2 + length t + length w'"
  assume "drop i b = (w @ QUOTE # key @ QUOTE # w1 @ COLON # w2 @ t @ w' @ [RBRACE]) @ r"
  then have d: "drop i b = w @ QUOTE # key @ QUOTE # w1 @ COLON # w2 @ t @ w' @ RBRACE # r" by simp
  have "object_loop (Suc k) (parse_value n b) b ?i (out @ [(key, j)]) =
      Inr (out @ [(key, j)], ?i + 0 + 1)" for k n
    using object_loop_end [of ?i b "[]" r] drop_member [OF d] by simp
  then have "returns2 (\<lambda>k n. object_loop k (parse_value n b) b ?i (out @ [(key, j)]))
      (out @ [(key, j)], ?i + 1)"
    by - (rule returns2_Suc, simp)
  then have "returns2 (\<lambda>k n. object_loop k (parse_value n b) b
      (if RBRACE = COMMA then ?i + 1 else ?i) (out @ [(key, j)])) (out @ [(key, j)], ?i + 1)"
    by simp
  moreover have "i + length (w @ QUOTE # key @ QUOTE # w1 @ COLON # w2 @ t @ w' @ [RBRACE]) = ?i + 1"
    by simp
  ultimately show "returns2 (\<lambda>k n. object_loop k (parse_value n b) b i out) (out @ [(key, j)],
      i + length (w @ QUOTE # key @ QUOTE # w1 @ COLON # w2 @ t @ w' @ [RBRACE]))"
    by (simp only:) (rule object_loop_member [OF v(2,1) key d w], simp_all)
qed

lemma members_parsed_more:
  assumes w: "list_all ws_byte w" "list_all ws_byte w1" "list_all ws_byte w2" "list_all ws_byte w'"
    and key: "list_all raw_char key" "utf8_valid key"
    and v: "value_text j t" "value_parsed j t" and rest: "members_parsed ms t'"
  shows "members_parsed ((key, j) # ms)
    (w @ QUOTE # key @ QUOTE # w1 @ COLON # w2 @ t @ w' @ COMMA # t')"
proof (rule members_parsedI)
  fix b i r out
  let ?i = "i + length w + length key + 2 + length w1 + 1 + length w2 + length t + length w'"
  assume "drop i b = (w @ QUOTE # key @ QUOTE # w1 @ COLON # w2 @ t @ w' @ COMMA # t') @ r"
  then have d: "drop i b = w @ QUOTE # key @ QUOTE # w1 @ COLON # w2 @ t @ w' @ COMMA # t' @ r"
    by simp
  have "drop (Suc ?i) b = t' @ r" using drop_member [OF d] by (rule drop_ConsD)
  then have "returns2 (\<lambda>k n. object_loop k (parse_value n b) b (Suc ?i) (out @ [(key, j)]))
      ((out @ [(key, j)]) @ ms, Suc ?i + length t')"
    using rest unfolding members_parsed_def by blast
  then show "returns2 (\<lambda>k n. object_loop k (parse_value n b) b i out) (out @ (key, j) # ms,
      i + length (w @ QUOTE # key @ QUOTE # w1 @ COLON # w2 @ t @ w' @ COMMA # t'))"
    by (intro object_loop_member [OF v(2,1) key d w]) (auto simp: add_ac)
qed

lemma value_parsed_object:
  assumes "members_parsed ms t"
  shows "value_parsed (Object ms) (LBRACE # t)"
proof (rule value_parsedI)
  fix b i w r
  assume d: "drop i b = w @ (LBRACE # t) @ r" and w: "list_all ws_byte w"
  have "drop (Suc (i + length w)) b = t @ r"
    using drop_appendD [OF d] by (auto dest: drop_ConsD)
  then have "returns2 (\<lambda>k n. object_loop k (parse_value n b) b (Suc (i + length w)) [])
      ([] @ ms, Suc (i + length w) + length t)"
    using assms unfolding members_parsed_def by blast
  then have "returns (\<lambda>n. parse_object n (parse_value n b) b (i + length w))
      (Object ms, i + length w + length (LBRACE # t))"
    unfolding parse_object_def by (intro returns_bind [OF returns2_diag]) auto
  then show "returns (\<lambda>n. parse_value (Suc n) b i) (Object ms, i + length w + length (LBRACE # t))"
    using parse_value_at [of i b w LBRACE "t @ r"] d w by simp
qed

lemma value_text_parsed: "value_text j t \<Longrightarrow> value_parsed j t"
  and elems_text_parsed: "elems_text js t \<Longrightarrow> elems_parsed js t"
  and members_text_parsed: "members_text ms t \<Longrightarrow> members_parsed ms t"
proof (induction rule: text_induct)
qed (blast intro: value_parsed_num value_parsed_str value_parsed_word value_parsed_array
      value_parsed_object elems_parsed_end elems_parsed_last elems_parsed_more
      members_parsed_end members_parsed_last members_parsed_more)+

section \<open>UTF-8 checks never fail on a string slice\<close>

lemma valid_drop_ascii:
  assumes "utf8_valid b" and "i < length b" and "b ! i < 0x80"
  shows "utf8_valid (drop (Suc i) b)"
  using utf8_valid_split [of "take i b" "b ! i" "drop (Suc i) b"] assms
  by (simp add: id_take_nth_drop [symmetric])

lemma unescape_byte_ascii: "e < 0x80 \<Longrightarrow> unescape_byte e < 0x80"
  by (auto simp: unescape_byte_def)

lemma unescape_byte_high: "\<not> e < 0x80 \<Longrightarrow> unescape_byte e = e"
  by (auto simp: unescape_byte_def)

lemma valid_unescape_step:
  assumes "utf8_valid (out @ BACKSLASH # e # rest)"
  shows "utf8_valid (out @ unescape_byte e # rest)"
proof -
  have out: "utf8_valid out" and er: "utf8_valid (e # rest)"
    using utf8_valid_split [of out BACKSLASH "e # rest"] assms by auto
  have "utf8_valid (unescape_byte e # rest)"
  proof (cases "e < 0x80")
    case True
    then show ?thesis using er unescape_byte_ascii by (simp del: utf8_valid.simps(2))
  next
    case False
    then show ?thesis using er by (simp add: unescape_byte_high del: utf8_valid.simps)
  qed
  with out show ?thesis by (rule utf8_valid_append)
qed

lemma string_loop_valid:
  "utf8_valid (out @ drop i b) \<Longrightarrow> string_loop b i out = Inr (s, j) \<Longrightarrow> utf8_valid s"
proof (induction b i out rule: string_loop.induct)
  case (1 b i out)
  from "1.prems"(2) have i: "i < length b"
    by (auto simp: string_loop.simps [of b i] idx_def bindR_eq_Inr split: if_splits)
  then have d: "drop i b = b ! i # drop (Suc i) b" by (rule Cons_nth_drop_Suc [symmetric])
  have c: "idx b i = Inr (b ! i)" using i by simp
  consider "b ! i = QUOTE" | "b ! i = BACKSLASH" | "b ! i \<noteq> QUOTE" "b ! i \<noteq> BACKSLASH" by blast
  then show ?case
  proof cases
    case 1
    then have "s = out" using "1.prems"(2) i by (simp add: string_loop.simps [of b i])
    then show ?thesis using utf8_valid_split [of out QUOTE] "1.prems"(1) d 1 by simp
  next
    case 2
    with "1.prems"(2) i have e: "Suc i < length b"
      and l: "string_loop b (Suc (Suc i)) (out @ [unescape_byte (b ! Suc i)]) = Inr (s, j)"
      by (auto simp: string_loop.simps [of b i] idx_def split: if_splits)
    have d': "drop (Suc i) b = b ! Suc i # drop (Suc (Suc i)) b"
      using e by (rule Cons_nth_drop_Suc [symmetric])
    have "utf8_valid ((out @ [unescape_byte (b ! Suc i)]) @ drop (Suc (Suc i)) b)"
      using valid_unescape_step "1.prems"(1) d d' 2 by simp
    then show ?thesis using "1.IH"(1) [OF c _ 2] l e 2 by simp
  next
    case 3
    with "1.prems" d "1.IH"(2) [OF c] show ?thesis
      using i by (simp add: string_loop.simps [of b i])
  qed
qed

abbreviation utf8_fault :: fault where
  "utf8_fault \<equiv> Panic ''valid UTF-8 in JSON string''"

abbreviation unwrap_fault :: fault where
  "unwrap_fault \<equiv> Panic ''called unwrap on an Err value''"

lemma string_loop_no_utf8_fault: "string_loop b i out \<noteq> Inl utf8_fault"
proof (induction b i out rule: string_loop.induct)
  case (1 b i out)
  then show ?case
    by (auto simp: string_loop.simps [of b i] bindR_eq_Inl idx_def split: if_splits)
qed

lemma parse_string_no_utf8_fault:
  assumes "utf8_valid b"
  shows "parse_string b i \<noteq> Inl utf8_fault"
proof
  assume "parse_string b i = Inl utf8_fault"
  then have i: "i < length b" "b ! i = QUOTE"
    and "string_loop b (Suc i) [] = Inl utf8_fault \<or>
      (\<exists>s j. string_loop b (Suc i) [] = Inr (s, j) \<and> \<not> utf8_valid s)"
    by (auto simp: parse_string_def bindR_eq_Inl idx_def from_utf8_def split: if_splits)
  then obtain s j where "string_loop b (Suc i) [] = Inr (s, j)" and "\<not> utf8_valid s"
    using string_loop_no_utf8_fault by blast
  moreover have "utf8_valid (drop (Suc i) b)"
    using valid_drop_ascii [OF assms i(1)] i(2) by simp
  ultimately show False using string_loop_valid [of "[]" "Suc i" b s j] by simp
qed

lemma parse_string_no_unwrap_fault: "parse_string b i \<noteq> Inl unwrap_fault"
proof -
  have "string_loop b i out \<noteq> Inl unwrap_fault" for i out
  proof (induction b i out rule: string_loop.induct)
    case (1 b i out)
    then show ?case
      by (auto simp: string_loop.simps [of b i] bindR_eq_Inl idx_def split: if_splits)
  qed
  then show ?thesis
    by (auto simp: parse_string_def bindR_eq_Inl idx_def from_utf8_def split: if_splits)
qed

lemma num_end_chars: "list_all num_char (take (num_end b i - i) (drop i b)) \<and> i \<le> num_end b i"
proof (induction b i rule: num_end.induct)
  case (1 b i)
  show ?case
  proof (cases "i < length b \<and> num_char (b ! i)")
    case True
    then have "num_end b i = num_end b (Suc i)" by (simp add: num_end.simps [of b i])
    moreover have "drop i b = b ! i # drop (Suc i) b"
      using True by (simp add: Cons_nth_drop_Suc)
    moreover have "num_end b (Suc i) - i = Suc (num_end b (Suc i) - Suc i)"
      using "1.IH" [OF True] by arith
    ultimately show ?thesis using "1.IH" [OF True] True by simp
  next
    case False
    then show ?thesis by (subst (1 2) num_end.simps) auto
  qed
qed

lemma parse_number_Inr: "\<exists>s j. parse_number b i = Inr (Num s, j)"
  using num_end_chars [of b i] by (simp add: parse_number_def Let_def utf8_valid_num)

definition utf8_safe :: "'a res \<Rightarrow> bool" where
  "utf8_safe r \<longleftrightarrow> r \<noteq> Inl utf8_fault \<and> r \<noteq> Inl unwrap_fault"

lemma utf8_safe_simps [simp]:
  "utf8_safe (Inr x)" "utf8_safe (Inl OutOfFuel)" "utf8_safe (idx b i)"
  "utf8_safe (Inl (Panic ''expected colon''))"
  by (auto simp: utf8_safe_def idx_def)

lemma utf8_safe_bind: "utf8_safe m \<Longrightarrow> (\<And>x. m = Inr x \<Longrightarrow> utf8_safe (f x)) \<Longrightarrow> utf8_safe (bindR m f)"
  by (cases m) (auto simp: utf8_safe_def)

lemma utf8_safe_array_loop:
  "(\<And>i. utf8_safe (pv i)) \<Longrightarrow> utf8_safe (array_loop k pv b i out)"
  by (induction k arbitrary: i out)
    (auto simp: array_loop.simps Let_def intro!: utf8_safe_bind split: prod.splits)

lemma utf8_safe_object_loop:
  "(\<And>i. utf8_safe (pv i)) \<Longrightarrow> (\<And>i. utf8_safe (parse_string b i)) \<Longrightarrow>
   utf8_safe (object_loop k pv b i out)"
  by (induction k arbitrary: i out)
    (auto simp: object_loop.simps Let_def intro!: utf8_safe_bind split: prod.splits)

lemma utf8_safe_parse_value: "utf8_valid b \<Longrightarrow> utf8_safe (parse_value n b i)"
proof (induction n arbitrary: i)
  case (Suc n)
  have ps: "utf8_safe (parse_string b i)" for i
    using parse_string_no_utf8_fault [OF Suc.prems] parse_string_no_unwrap_fault
    by (simp add: utf8_safe_def)
  have "utf8_safe (parse_number b i)" for i using parse_number_Inr [of b i] by auto
  then show ?case
    unfolding parse_value.simps Let_def parse_object_def parse_array_def
    using Suc ps
    by (intro utf8_safe_bind)
      (auto intro!: utf8_safe_bind utf8_safe_array_loop utf8_safe_object_loop split: prod.splits)
qed simp

section \<open>Bytes on which an array never ends\<close>




lemma text_parses:
  assumes "value_text j t" and "list_all ws_byte w" and "stops r"
  shows "returns (\<lambda>n. parse n (w @ t @ r)) j"
proof -
  have "returns (\<lambda>n. parse_value n (w @ t @ r) 0) (j, 0 + length w + length t)"
    using value_parsedD [OF value_text_parsed [OF assms(1)], of 0 "w @ t @ r" w r] assms by simp
  then show ?thesis unfolding parse_def by (intro returns_bind) auto
qed

section \<open>The properties\<close>

text \<open>C9: whatever text of the grammar \<open>json::parse\<close> is given, with any whitespace between and
  before the tokens, trailing commas, escaped strings, and anything that cannot continue a number
  behind it, it ends and returns exactly the value the text denotes.\<close>

theorem parse_text:
  assumes "value_text j t" and "list_all ws_byte w" and "stops r"
  shows "returns (\<lambda>n. parse n (w @ t @ r)) j"
  using assms by (rule text_parses)

theorem parse_text_witness:
  "returns (\<lambda>n. parse n ([SPACE] @ (LBRACKET # [] @ [0x31] @ [] @ COMMA # [SPACE] @ [RBRACKET]) @ []))
     (Array [Num [0x31]])"
proof (rule parse_text)
  have "value_text (Num [0x31]) [0x31]"
    by (rule text_num) (simp add: num_tok_def num_char_def is_digit_def)
  moreover have "elems_text [] ([SPACE] @ [RBRACKET])" by (rule elems_end) (simp add: ws_byte_def)
  ultimately have "elems_text [Num [0x31]] ([] @ [0x31] @ [] @ COMMA # [SPACE] @ [RBRACKET])"
    by (intro elems_more) simp_all
  then show "value_text (Array [Num [0x31]]) (LBRACKET # [] @ [0x31] @ [] @ COMMA # [SPACE] @ [RBRACKET])"
    by (rule text_array)
qed (simp_all add: ws_byte_def stops_def)

text \<open>C26: parsing inverts printing: for every value whose numbers are number tokens, whose strings
  are valid UTF-8 and whose keys need no escape, the parser reads the printed text back.\<close>

theorem parse_print:
  assumes "printable j"
  shows "returns (\<lambda>n. parse n (print j)) j"
  using value_parsedD [OF value_text_parsed [OF value_text_print [OF assms]], of 0 "print j" "[]" "[]"]
  unfolding parse_def by (intro returns_bind) (auto simp: stops_def)

theorem parse_print_witness:
  "returns (\<lambda>n. parse n (print (Object [(ascii ''port'', Num [0x34, 0x34, 0x33]),
      (ascii ''tags'', Array [Str [QUOTE], Null, Bool True])])))
    (Object [(ascii ''port'', Num [0x34, 0x34, 0x33]),
      (ascii ''tags'', Array [Str [QUOTE], Null, Bool True])])"
  by (rule parse_print)
    (simp add: num_tok_def num_char_def is_digit_def ascii_def raw_char_def utf8_head_def)

text \<open>C37: the two UTF-8 checks of the parser (\<open>String::from_utf8(..).expect\<close> on a decoded string and
  \<open>from_utf8(..).unwrap\<close> on a number token) never fail on a Rust string, whatever it holds:
  removing backslashes and cutting at quotes keeps the bytes valid UTF-8.\<close>

theorem parse_utf8_checks_pass:
  assumes "utf8_valid s"
  shows "parse n s \<noteq> Inl (Panic ''valid UTF-8 in JSON string'')
    \<and> parse n s \<noteq> Inl (Panic ''called unwrap on an Err value'')"
proof -
  have "utf8_safe (parse n s)"
    unfolding parse_def using utf8_safe_parse_value [OF assms]
    by (intro utf8_safe_bind) (auto split: prod.splits)
  then show ?thesis by (simp add: utf8_safe_def)
qed

theorem parse_utf8_checks_pass_witness:
  "parse 5 [QUOTE, BACKSLASH, 0xC3, 0xA9, QUOTE] \<noteq> Inl (Panic ''valid UTF-8 in JSON string'')
    \<and> parse 5 [QUOTE, BACKSLASH, 0xC3, 0xA9, QUOTE] \<noteq> Inl (Panic ''called unwrap on an Err value'')"
  by (rule parse_utf8_checks_pass) (simp add: utf8_head_def cont_def)



end
