(* ===== verification/Layout_Props.thy ===== *)
theory Layout_Props
  imports Layout
begin

text \<open>
  Facts on representations: \<open>holds\<close> depends only on the bytes of the value and of its blocks
  (so a value can be moved, and writing elsewhere keeps it), and a represented value never
  shows a niche of its type.
\<close>

section \<open>Extents\<close>

lemma fold_max_ge:
  fixes xs :: "nat list"
  shows "k \<le> fold max xs k" and "x \<in> set xs \<Longrightarrow> x \<le> fold max xs k"
proof -
  show le: "k \<le> fold max xs k" for k
    by (induction xs arbitrary: k) (simp, metis fold_simps(2) max.bounded_iff)
  show "x \<in> set xs \<Longrightarrow> x \<le> fold max xs k"
  proof (induction xs arbitrary: k)
    case (Cons y ys)
    have "max y k \<le> fold max ys (max y k)" for k
      by (induction ys arbitrary: k y) (simp, metis fold_simps(2) max.bounded_iff)
    then show ?case using Cons by (metis fold_simps(2) max.bounded_iff set_ConsD)
  qed simp
qed

lemma span_field: "f \<in> set fs \<Longrightarrow> f_offset f + span S (f_ty f) \<le> fold max (map (\<lambda>f. f_offset f + span S (f_ty f)) fs) 0"
  by (rule fold_max_ge) simp

lemma seq_span_words:
  "i < 8 \<Longrightarrow> ptr_off q + i < seq_span q" "i < 8 \<Longrightarrow> cap_off q + i < seq_span q"
  "i < 8 \<Longrightarrow> len_off q + i < seq_span q"
  by (auto simp: seq_span_def)

section \<open>Moving a value\<close>

lemma load_move: "(\<And>i. i < n \<Longrightarrow> m' (b + i) = m (a + i)) \<Longrightarrow> load m a n = xs \<Longrightarrow> load m' b n = xs"
  using load_cong [of n m' b m a] by simp

lemma foot_block: "foot (block_of p s al) = {p..<p + s}"
  by (auto simp: block_of_def)

lemma load_move_off:
  assumes "\<And>i. i < s \<Longrightarrow> m' (b + i) = m (a + i)" and "off + n \<le> s" and "load m (a + off) n = xs"
  shows "load m' (b + off) n = xs"
  by (rule load_move [OF _ assms(3)]) (metis add.assoc add_less_mono1 assms(1,2) less_le_trans nat_add_left_cancel_less)

text \<open>\<open>same\<close>: the second memory holds, at \<open>b\<close>, the \<open>n\<close> bytes the first holds at \<open>a\<close>.\<close>

definition same :: "memory \<Rightarrow> addr \<Rightarrow> memory \<Rightarrow> addr \<Rightarrow> nat \<Rightarrow> bool" where
  "same m a m' b n \<longleftrightarrow> (\<forall>i < n. m' (b + i) = m (a + i))"

lemma same_load: "same m a m' b s \<Longrightarrow> load m (a + off) n = xs \<Longrightarrow> off + n \<le> s \<Longrightarrow> load m' (b + off) n = xs"
  by (rule load_move_off) (auto simp: same_def)

lemma same_load0: "same m a m' b s \<Longrightarrow> load m a n = xs \<Longrightarrow> n \<le> s \<Longrightarrow> load m' b n = xs"
  using same_load [where off = 0] by simp

lemma same_off: "same m a m' b s \<Longrightarrow> off + n \<le> s \<Longrightarrow> same m (a + off) m' (b + off) n"
  by (auto simp: same_def add.assoc)

lemma same_foot: "(\<And>x. x \<in> F \<Longrightarrow> m' x = m x) \<Longrightarrow> {p..<p + n} \<subseteq> F \<Longrightarrow> same m p m' p n"
  by (simp add: same_def subset_iff)

lemma load_foot:
  assumes "\<And>x. x \<in> F \<Longrightarrow> m' x = m x" and "{p..<p + n} \<subseteq> F" and "load m p n = xs"
  shows "load m' p n = xs"
  using same_load0 [OF same_foot [OF assms(1,2)] assms(3)] by simp

lemmas h_str_intro = holds_intros(9)
lemmas h_strref_intro = holds_intros(10)
lemmas h_vec_intro = holds_intros(11)
lemmas h_box_intro = holds_intros(13)
lemmas h_some_intro = holds_intros(15)
lemmas h_fields_cons_intro = holds_intros(18)
lemmas h_elems_cons_intro = holds_intros(20)
lemmas h_map_intro = holds_intros(21)

lemma holds_move_mut:
  fixes m' :: memory
  assumes wfc: "cells_ok C S"
  shows "holds C m t a v B \<Longrightarrow> (\<forall>b. lay_ok S t \<longrightarrow> same m a m' b (span S t) \<longrightarrow>
      (\<forall>x \<in> foot B. m' x = m x) \<longrightarrow> holds C m' t b v B)"
    and "holds_fields C m fs a vs B \<Longrightarrow> (\<forall>b. (\<forall>f \<in> set fs. lay_ok S (f_ty f)) \<longrightarrow>
      (\<forall>f \<in> set fs. same m (a + f_offset f) m' (b + f_offset f) (span S (f_ty f))) \<longrightarrow>
      (\<forall>x \<in> foot B. m' x = m x) \<longrightarrow> holds_fields C m' fs b vs B)"
    and "holds_elems C m t esz a vs B \<Longrightarrow> (\<forall>b. lay_ok S t \<longrightarrow> span S t \<le> esz \<longrightarrow>
      same m a m' b (length vs * esz) \<longrightarrow>
      (\<forall>x \<in> foot B. m' x = m x) \<longrightarrow> holds_elems C m' t esz b vs B)"
proof (induction rule: holds_induct)
  case (h_bool a b)
  then show ?case by (auto simp: same_def intro!: holds_intros)
next
  case (h_char c a)
  then show ?case by (auto intro!: holds_intros dest: same_load0)
next
  case (h_u k n a)
  then show ?case by (auto intro!: holds_intros dest: same_load0)
next
  case (h_i n k a)
  then show ?case by (auto intro!: holds_intros dest: same_load0)
next
  case (h_f32 a w)
  then show ?case by (auto intro!: holds_intros dest: same_load0)
next
  case (h_f64 a w)
  then show ?case by (auto intro!: holds_intros dest: same_load0)
next
  case (h_struct fs a vs B nm)
  then show ?case
    by (fastforce intro!: holds_intros same_off dest: span_field [where S = S])
next
  case (h_tuple fs a vs B)
  then show ?case
    by (fastforce intro!: holds_intros same_off dest: span_field [where S = S])
next
  case (h_str a q p cap s)
  show ?case
  proof (intro allI impI)
    fix b
    assume *: "lay_ok S (TStr q)" "same m a m' b (span S (TStr q))" "\<forall>x\<in>foot (block_of p cap 1). m' x = m x"
    have "load m' p (length s) = s"
      using load_foot [of "foot (block_of p cap 1)" m' m p "length s" s] *(3) h_str(4-9) by (simp add: foot_block)
    then show "holds C m' (TStr q) b (VStr s) (block_of p cap 1)"
      using h_str(5-9) by (intro h_str_intro same_load [OF *(2)] h_str(1-3)) (auto simp: seq_span_def)
  qed
next
  case (h_strref a po p lo s)
  show ?case
  proof (intro allI impI)
    fix b
    assume *: "lay_ok S (TStrRef po lo)" "same m a m' b (span S (TStrRef po lo))"
      "\<forall>x\<in>foot (block_of p (length s) 1). m' x = m x"
    have "load m' p (length s) = s"
      using load_foot [of "foot (block_of p (length s) 1)" m' m p "length s" s] *(3) h_strref(3-7) by (simp add: foot_block)
    then show "holds C m' (TStrRef po lo) b (VStr s) (block_of p (length s) 1)"
      using h_strref(4-7) by (intro h_strref_intro same_load [OF *(2)] h_strref(1,2)) auto
  qed
next
  case (h_vec a q p cap vs al t esz B)
  show ?case
  proof (intro allI impI)
    fix b
    assume *: "lay_ok S (TVec t esz al q)" "same m a m' b (span S (TVec t esz al q))"
      "\<forall>x\<in>foot (block_of p (cap * esz) (max 1 al) + B). m' x = m x"
    have "length vs * esz \<le> cap * esz" using h_vec by simp
    then have "same m p m' p (length vs * esz)"
      using *(3) by (intro same_foot [of "{p..<p + cap * esz}"]) (auto simp: foot_block)
    then have "holds_elems C m' t esz p vs B" using h_vec * by simp
    then show "holds C m' (TVec t esz al q) b (VVec vs) (block_of p (cap * esz) (max 1 al) + B)"
      using h_vec.hyps by (intro h_vec_intro same_load [OF *(2)] h_vec(1-3)) (auto simp: seq_span_def)
  qed
next
  case (h_unit a)
  then show ?case by (simp add: holds_intros)
next
  case (h_box a p al t v B sz)
  show ?case
  proof (intro allI impI)
    fix b
    assume *: "lay_ok S (TBoxed t sz al)" "same m a m' b (span S (TBoxed t sz al))"
      "\<forall>x\<in>foot (block_of p sz (max 1 al) + B). m' x = m x"
    then have "same m p m' p (span S t)" by (auto simp: same_def foot_block)
    then have "holds C m' t p v B" using h_box * by simp
    then show "holds C m' (TBoxed t sz al) b (VBox v) (block_of p sz (max 1 al) + B)"
      using h_box.hyps by (intro h_box_intro same_load0 [OF *(2)] h_box(1)) auto
  qed
next
  case (h_none a disc_off ds nd sd payload_off sz t)
  then show ?case by (auto intro!: holds_intros dest: same_load)
next
  case (h_some t a payload_off v B sd disc_off ds nd sz)
  show ?case
  proof (intro allI impI)
    fix b
    let ?t = "TOpt disc_off ds nd sd payload_off sz t"
    assume *: "lay_ok S ?t" "same m a m' b (span S ?t)" "\<forall>x\<in>foot B. m' x = m x"
    have "load m' (b + disc_off) ds = load m (a + disc_off) ds" using * by (auto dest: same_load)
    moreover have "holds C m' t (b + payload_off) v B" using h_some * same_off [OF *(2)] by simp
    ultimately show "holds C m' ?t b (VSome v) B" using h_some by (intro holds_intros) (simp_all split: option.splits)
  qed
next
  case (h_ref c t a v B)
  have "lay_ok S t" "span S t \<le> fst (S c)" using wfc h_ref by (auto simp: cells_ok_def shaped_def)
  then show ?case using h_ref by (auto intro!: holds_intros simp: same_def)
next
  case (h_fields_nil a)
  then show ?case by (simp add: holds_intros)
next
  case (h_fields_cons f a v B fs vs B')
  then show ?case by (auto intro!: holds_intros)
next
  case (h_elems_nil t esz a)
  then show ?case by (simp add: holds_intros)
next
  case (h_elems_cons t a v B esz vs B')
  show ?case
  proof (intro allI impI)
    fix b
    assume *: "lay_ok S t" "span S t \<le> esz" "same m a m' b (length (v # vs) * esz)" "\<forall>x\<in>foot (B + B'). m' x = m x"
    have "same m a m' b (span S t)" using * by (auto simp: same_def)
    moreover have "same m (a + esz) m' (b + esz) (length vs * esz)" using * by (intro same_off) auto
    ultimately show "holds_elems C m' t esz b (v # vs) (B + B')"
      using h_elems_cons * by (intro holds_intros) auto
  qed
next
  case (h_map B P a k ks t vs na ins)
  show ?case
  proof (intro allI impI)
    fix b
    assume *: "same m a m' b (span S (TMap k ks t vs na ins))" "\<forall>x\<in>foot B. m' x = m x"
    have "load m' b 24 = load m a 24" using same_load0 [OF *(1) refl] by simp
    then show "holds C m' (TMap k ks t vs na ins) b (VMap P) B"
      using h_map *(2) by (intro h_map_intro) auto
  qed
qed

lemma holds_move:
  "holds C m t a v B \<Longrightarrow> cells_ok C S \<Longrightarrow> lay_ok S t \<Longrightarrow> same m a m' b (span S t) \<Longrightarrow>
   (\<And>x. x \<in> foot B \<Longrightarrow> m' x = m x) \<Longrightarrow> holds C m' t b v B"
  using holds_move_mut(1) by blast

lemma holds_elems_move:
  "holds_elems C m t esz a vs B \<Longrightarrow> cells_ok C S \<Longrightarrow> lay_ok S t \<Longrightarrow> span S t \<le> esz \<Longrightarrow>
   same m a m' b (length vs * esz) \<Longrightarrow> (\<And>x. x \<in> foot B \<Longrightarrow> m' x = m x) \<Longrightarrow> holds_elems C m' t esz b vs B"
  using holds_move_mut(3) by blast

lemma holds_fields_keep:
  "holds_fields C m fs a vs B \<Longrightarrow> cells_ok C S \<Longrightarrow> (\<forall>f \<in> set fs. lay_ok S (f_ty f)) \<Longrightarrow>
   (\<forall>f \<in> set fs. same m (a + f_offset f) m' (a + f_offset f) (span S (f_ty f))) \<Longrightarrow>
   (\<And>x. x \<in> foot B \<Longrightarrow> m' x = m x) \<Longrightarrow> holds_fields C m' fs a vs B"
  using holds_move_mut(2) by blast

section \<open>Niches\<close>

lemma le_bytes_neq: "j \<noteq> k \<Longrightarrow> j < 256 ^ n \<Longrightarrow> k < 256 ^ n \<Longrightarrow> le_bytes n j \<noteq> le_bytes n k"
  using le_bytes_inj by blast

lemma word_neq: "j \<noteq> k \<Longrightarrow> j < 2 ^ 64 \<Longrightarrow> k < 2 ^ 64 \<Longrightarrow> le_bytes 8 j \<noteq> le_bytes 8 k"
  by (rule le_bytes_neq) simp_all

lemma scalar_lt: "scalar c \<Longrightarrow> c < 0x110000"
  by (auto simp: scalar_def)

lemma seq_niche_words:
  assumes "seq_niche q off ds nd" and "load m (a + ptr_off q) 8 = le_bytes 8 p" and "0 < p" and "p < 2 ^ 64"
    and "load m (a + cap_off q) 8 = le_bytes 8 cap" and "cap < 2 ^ 63"
  shows "load m (a + off) ds \<noteq> le_bytes ds nd"
  using assms word_neq [of p 0] word_neq [of cap nd] by (auto simp: seq_niche_def)

lemma holds_niche_mut:
  assumes wfc: "cells_ok C S"
  shows "holds C m t a v B \<Longrightarrow> (\<forall>off. niche S t off ds nd \<longrightarrow> load m (a + off) ds \<noteq> le_bytes ds nd)"
    and "holds_fields C m fs a vs B \<Longrightarrow> (\<forall>f \<in> set fs. \<forall>off. f_offset f \<le> off \<longrightarrow>
      niche S (f_ty f) (off - f_offset f) ds nd \<longrightarrow> load m (a + off) ds \<noteq> le_bytes ds nd)"
    and "holds_elems C m t esz a vs B \<Longrightarrow> True"
proof (induction rule: holds_induct)
  case (h_bool a b)
  then show ?case using le_bytes_neq [of "of_bool b" nd 1] by (auto simp: load_Suc)
next
  case (h_char c a)
  then show ?case using le_bytes_neq [of c nd 4] scalar_lt by fastforce
next
  case (h_str a q p cap s)
  then show ?case using seq_niche_words by simp
next
  case (h_strref a po p lo s)
  then show ?case using word_neq [of p 0] by auto
next
  case (h_vec a q p cap vs al t esz B)
  then show ?case using seq_niche_words by simp
next
  case (h_box a p al t v B sz)
  then show ?case using word_neq [of p 0] by auto
next
  case (h_none a disc_off ds' nd' sd payload_off sz t)
  then show ?case using le_bytes_neq [of nd' nd ds] by auto
next
  case (h_some t a payload_off v B sd disc_off ds' nd' sz)
  show ?case
  proof (intro allI impI)
    fix off
    assume n: "niche S (TOpt disc_off ds' nd' sd payload_off sz t) off ds nd"
    show "load m (a + off) ds \<noteq> le_bytes ds nd"
    proof (cases sd)
      case None
      then have "niche S t (off - payload_off) ds nd" "payload_off \<le> off" using n by auto
      moreover from this have "load m (a + payload_off + (off - payload_off)) ds \<noteq> le_bytes ds nd"
        using h_some.IH by blast
      ultimately show ?thesis by simp
    next
      case (Some d)
      then have "load m (a + off) ds = le_bytes ds d" "d < 256 ^ ds" "nd < 256 ^ ds" "nd \<noteq> d"
        using n h_some by auto
      then show ?thesis using le_bytes_neq by metis
    qed
  qed
next
  case (h_fields_cons f a v B fs vs B')
  show ?case
  proof (intro ballI allI impI)
    fix g off
    assume g: "g \<in> set (f # fs)" "f_offset g \<le> off" "niche S (f_ty g) (off - f_offset g) ds nd"
    show "load m (a + off) ds \<noteq> le_bytes ds nd"
    proof (cases "g = f")
      case True
      then have "load m (a + f_offset f + (off - f_offset f)) ds \<noteq> le_bytes ds nd"
        using h_fields_cons g True by blast
      then show ?thesis using True g(2) by simp
    next
      case False
      then show ?thesis using h_fields_cons g by auto
    qed
  qed
next
  case (h_ref c t a v B)
  then have "niche S t off ds nd" if "(off, ds, nd) \<in> set (snd (S c))" for off
    using wfc that by (fastforce simp: cells_ok_def shaped_def)
  then show ?case using h_ref.IH by simp
qed auto

lemma holds_niche: "cells_ok C S \<Longrightarrow> holds C m t a v B \<Longrightarrow> niche S t off ds nd \<Longrightarrow> load m (a + off) ds \<noteq> le_bytes ds nd"
  using holds_niche_mut(1) by blast

end
