(* ===== verification/Effects.thy ===== *)
theory Effects
  imports Layout_Props Json
begin

text \<open>
  What the two backends call that is not in the repository, and what they may do to the heap.
\<close>

section \<open>Operations of the environment\<close>

text \<open>
  What the two backends call that is not in the repository is a parameter of the development:
  the standard library's \<^verbatim>\<open>str::parse::<f64>\<close>, the partial parser of the crate fast-float2 (value
  and number of bytes consumed), the narrowing of an \<^verbatim>\<open>f64\<close> to an \<^verbatim>\<open>f32\<close>, the search of the crate
  memchr, and the indirect call of a machine address with pointer arguments.
\<close>

record ext_ops =
  std_f64 :: "bytes \<Rightarrow> u64 option"
  fast_f64 :: "bytes \<Rightarrow> (u64 \<times> nat) option"
  demote :: "u64 \<Rightarrow> 32 word"
  memchr2 :: "byte \<Rightarrow> byte \<Rightarrow> bytes \<Rightarrow> nat option"
  call_addr :: "nat \<Rightarrow> addr list \<Rightarrow> heap \<Rightarrow> heap res"

text \<open>\<^verbatim>\<open>Iterator::position\<close>, and what memchr documents: the first index of either byte.\<close>

fun position :: "('a \<Rightarrow> bool) \<Rightarrow> 'a list \<Rightarrow> nat option" where
  "position P [] = None"
| "position P (x # xs) = (if P x then Some 0 else map_option Suc (position P xs))"

definition memchr2_ok :: "ext_ops \<Rightarrow> bool" where
  "memchr2_ok F \<longleftrightarrow> (\<forall>x y hay. memchr2 F x y hay = position (\<lambda>c. c = x \<or> c = y) hay)"

text \<open>Operations to instantiate the properties with: no floats, the real search, calls that do nothing.\<close>

definition sample_ops :: ext_ops where
  "sample_ops = \<lparr>std_f64 = \<lambda>_. None, fast_f64 = \<lambda>_. None, demote = \<lambda>_. 0,
     memchr2 = \<lambda>x y. position (\<lambda>c. c = x \<or> c = y), call_addr = \<lambda>_ _ h. Inr h\<rparr>"

lemma sample_memchr2: "memchr2_ok sample_ops"
  by (simp add: memchr2_ok_def sample_ops_def)

section \<open>Growing the heap\<close>

text \<open>
  \<open>extends h h' W B\<close>: the heap has grown by the live blocks \<open>B\<close>, all new, and of the memory that
  existed before only the addresses in \<open>W\<close> have changed.
\<close>

definition extends :: "heap \<Rightarrow> heap \<Rightarrow> addr set \<Rightarrow> block multiset \<Rightarrow> bool" where
  "extends h h' W B \<longleftrightarrow> brk h \<le> brk h' \<and> live h' = live h + B \<and> fresh (brk h) (brk h') B
     \<and> (\<forall>x < brk h. x \<notin> W \<longrightarrow> mem h' x = mem h x) \<and> heap_ok h'"

lemma extends_refl: "heap_ok h \<Longrightarrow> extends h h W {#}"
  by (simp add: extends_def)

lemma extends_ok: "extends h h' W B \<Longrightarrow> heap_ok h'"
  by (simp add: extends_def)

lemma extends_brk: "extends h h' W B \<Longrightarrow> brk h \<le> brk h'"
  by (simp add: extends_def)

lemma extends_same: "extends h h' W B \<Longrightarrow> x < brk h \<Longrightarrow> x \<notin> W \<Longrightarrow> mem h' x = mem h x"
  by (simp add: extends_def)

lemma extends_mono: "extends h h' W B \<Longrightarrow> (\<And>x. x \<in> W \<Longrightarrow> x < brk h \<Longrightarrow> x \<in> V) \<Longrightarrow> extends h h' V B"
  by (auto simp: extends_def)

lemma extends_trans:
  assumes "extends h h1 W B" and "extends h1 h2 W' B'"
    and "\<And>x. x < brk h \<Longrightarrow> x \<in> W \<or> x \<in> W' \<Longrightarrow> x \<in> V"
  shows "extends h h2 V (B + B')"
proof -
  have "fresh (brk h) (brk h2) (B + B')"
    using assms unfolding extends_def fresh_union by (meson fresh_mono order_refl order_trans)
  moreover have "mem h2 x = mem h x" if "x < brk h" "x \<notin> V" for x
    using assms that unfolding extends_def by (metis order.strict_trans2)
  ultimately show ?thesis using assms unfolding extends_def by (auto simp: add.assoc)
qed

lemma extends_write:
  "heap_ok h \<Longrightarrow> {a..<a + length bs} \<subseteq> W \<Longrightarrow> extends h (write_bytes a bs h) W {#}"
  by (auto simp: extends_def mem_write_bytes)

lemma extends_write_word: "heap_ok h \<Longrightarrow> {a..<a + 8} \<subseteq> W \<Longrightarrow> extends h (write_word a v h) W {#}"
  unfolding write_word_def by (rule extends_write) simp_all

lemma extends_then_write:
  "extends h h1 W B \<Longrightarrow> {a..<a + length bs} \<subseteq> W \<Longrightarrow> extends h (write_bytes a bs h1) W B"
  using extends_trans [of h h1 W B "write_bytes a bs h1" W "{#}" W] extends_write [of h1 a bs W] extends_ok
  by fastforce

text \<open>Allocation: the block is new, aligned and does not wrap to the null address.\<close>

lemma alloc_extends:
  assumes "alloc sz al h = Inr (p, h1)" and "heap_ok h" and "is_pow2 al"
  shows "extends h h1 {} {#(p, sz, al)#}" and "brk h \<le> p" and "brk h1 = p + sz" and "al dvd p" and "0 < p"
proof -
  have al: "0 < al" using assms(3) by (rule is_pow2_pos)
  have p: "p = align_up (brk h) al" "h1 = h\<lparr>brk := p + sz, live := add_mset (p, sz, al) (live h)\<rparr>"
    using assms by (auto simp: alloc_def Let_def split: if_splits)
  show "brk h \<le> p" using align_up_ge [OF al] p by simp
  then show "extends h h1 {} {#(p, sz, al)#}"
    using p heap_ok_grow [OF assms(2)] align_up_dvd [of al "brk h"] by (simp add: extends_def)
  show "brk h1 = p + sz" "al dvd p" using p align_up_dvd by auto
  show "0 < p" using \<open>brk h \<le> p\<close> heap_ok_pos [OF assms(2)] by simp
qed

lemma alloc_Inr: "sz \<noteq> 0 \<Longrightarrow> \<exists>p h1. alloc sz al h = Inr (p, h1)"
  by (simp add: alloc_def Let_def)

end
