(* ===== verification/Tramp.thy ===== *)
theory Tramp
  imports Effects
begin

text \<open>
  Maps, \<^verbatim>\<open>crates/bilbo-json/src/tramp.rs\<close>: nobody pokes at the nodes of a \<^verbatim>\<open>BTreeMap\<close>; the compiled
  parser calls two trampolines, found by their addresses in the debug information, and these call
  the standard library. The standard library is a parameter, with its documented behaviour as
  a hypothesis (\<open>btree_ok\<close>).
\<close>

section \<open>The trampolines\<close>

text \<open>
  \<^verbatim>\<open>BTreeMap::new\<close> for one \<^verbatim>\<open>V\<close> gives the bytes of an empty map; \<^verbatim>\<open>insert\<close> takes the map by address, and the
  bytes of the key and of the value, which it now owns; it returns the bytes of the value that it has
  replaced, and \<open>bt_drop\<close> is what happens to a \<^verbatim>\<open>V\<close> that goes out of scope.
\<close>

record btree =
  bt_new :: bytes
  bt_insert :: "addr \<Rightarrow> bytes \<Rightarrow> bytes \<Rightarrow> heap \<Rightarrow> (bytes option \<times> heap) res"
  bt_drop :: "bytes \<Rightarrow> heap \<Rightarrow> heap res"

definition map_new_at :: "btree \<Rightarrow> addr \<Rightarrow> heap \<Rightarrow> heap res" where
  "map_new_at bt dst h = Inr (write_bytes dst (bt_new bt) h)"

definition map_insert :: "btree \<Rightarrow> nat \<Rightarrow> nat \<Rightarrow> addr \<Rightarrow> addr \<Rightarrow> addr \<Rightarrow> heap \<Rightarrow> heap res" where
  "map_insert bt ks vs dst k v h =
     bindR (bt_insert bt dst (load (mem h) k ks) (load (mem h) v vs) h) (\<lambda>(old, h).
       case old of None \<Rightarrow> Inr h | Some x \<Rightarrow> bt_drop bt x h)"

text \<open>What the debug information promises of the two addresses of a map type.\<close>

definition linked :: "ext_ops \<Rightarrow> btree \<Rightarrow> nat \<Rightarrow> nat \<Rightarrow> nat \<Rightarrow> nat \<Rightarrow> bool" where
  "linked F bt ks vs na ins \<longleftrightarrow>
     (\<forall>dst h. call_addr F na [dst] h = map_new_at bt dst h)
   \<and> (\<forall>dst k v h. call_addr F ins [dst, k, v] h = map_insert bt ks vs dst k v h)"

section \<open>What the standard library promises\<close>

text \<open>\<open>owned\<close>: these bytes, wherever they are, are a value, with the blocks that it owns.\<close>

definition owned :: "(cell_id \<rightharpoonup> ty) \<Rightarrow> memory \<Rightarrow> ty \<Rightarrow> bytes \<Rightarrow> val \<Rightarrow> block multiset \<Rightarrow> bool" where
  "owned C m t xs v B \<longleftrightarrow> (\<exists>m' a. load m' a (length xs) = xs \<and> (\<forall>x \<in> foot B. m' x = m x) \<and> holds C m' t a v B)"

lemma owned_load: "holds C m t a v B \<Longrightarrow> owned C m t (load m a n) v B"
  unfolding owned_def by auto

lemma owned_frame: "owned C m t xs v B \<Longrightarrow> (\<And>x. x \<in> foot B \<Longrightarrow> m' x = m x) \<Longrightarrow> owned C m' t xs v B"
  unfolding owned_def by metis

text \<open>
  \<open>rep m xs f B\<close>: the bytes \<open>xs\<close>, wherever they are, are a map with the contents \<open>f\<close>, which owns the
  blocks \<open>B\<close> and depends on nothing else. \<open>map_state\<close>: since \<open>h0\<close> only \<open>W\<close> has been written, and a map is there,
  together with what else has been allocated.
\<close>

type_synonym map_rep = "memory \<Rightarrow> bytes \<Rightarrow> (bytes \<rightharpoonup> val) \<Rightarrow> block multiset \<Rightarrow> bool"

definition map_state :: "map_rep \<Rightarrow> heap \<Rightarrow> addr set \<Rightarrow> addr \<Rightarrow> (bytes \<rightharpoonup> val) \<Rightarrow> heap \<Rightarrow> bool" where
  "map_state rep h0 W a f h \<longleftrightarrow> (\<exists>B. extends h0 h W B \<and> (brk h \<le> 2 ^ 64 \<longrightarrow> rep (mem h) (load (mem h) a 24) f B))"

text \<open>
  An insertion returns, and writes only the map and blocks that it may write: those of the map, the
  key and the value, or new ones. It hands back the value that the key had, with its blocks.
  Dropping a value frees its blocks. In a heap that does not fit into 64 bits, where a pointer need
  not mean its block, the calls only promise to return and to keep to these blocks.
\<close>

definition insert_ok :: "(cell_id \<rightharpoonup> ty) \<Rightarrow> ty \<Rightarrow> ty \<Rightarrow> nat \<Rightarrow> nat \<Rightarrow> btree \<Rightarrow> map_rep \<Rightarrow> bool" where
  "insert_ok C kt vt ks vs bt rep \<longleftrightarrow> (\<forall>h0 W h a f B k kb Bk v vb Bv.
     extends h0 h W (B + Bk + Bv) \<and> {a..<a + 24} \<subseteq> W \<and> {a..<a + 24} \<subseteq> {..<brk h0} \<and> length kb = ks \<and> length vb = vs
     \<and> (brk h \<le> 2 ^ 64 \<longrightarrow> rep (mem h) (load (mem h) a 24) f B \<and> owned C (mem h) kt kb (VStr k) Bk \<and> owned C (mem h) vt vb v Bv) \<longrightarrow>
     (\<exists>old h' B' Bo. bt_insert bt a kb vb h = Inr (old, h') \<and> extends h0 h' W (B' + Bo) \<and> brk h \<le> brk h'
        \<and> (brk h' \<le> 2 ^ 64 \<longrightarrow> rep (mem h') (load (mem h') a 24) (f(k \<mapsto> v)) B')
        \<and> (case old of None \<Rightarrow> Bo = {#}
           | Some ob \<Rightarrow> \<exists>ov. f k = Some ov \<and> (brk h' \<le> 2 ^ 64 \<longrightarrow> owned C (mem h') vt ob ov Bo))))"

definition drop_ok :: "(cell_id \<rightharpoonup> ty) \<Rightarrow> ty \<Rightarrow> btree \<Rightarrow> bool" where
  "drop_ok C vt bt \<longleftrightarrow> (\<forall>h xs v B. B \<subseteq># live h \<and> (brk h \<le> 2 ^ 64 \<longrightarrow> owned C (mem h) vt xs v B) \<longrightarrow>
     (\<exists>B'. bt_drop bt xs h = Inr (h\<lparr>live := live h - B'\<rparr>) \<and> B' \<subseteq># B \<and> (brk h \<le> 2 ^ 64 \<longrightarrow> B' = B)))"

definition btree_ok :: "(cell_id \<rightharpoonup> ty) \<Rightarrow> ty \<Rightarrow> ty \<Rightarrow> nat \<Rightarrow> nat \<Rightarrow> btree \<Rightarrow> map_rep \<Rightarrow> bool" where
  "btree_ok C kt vt ks vs bt rep \<longleftrightarrow> length (bt_new bt) = 24
     \<and> (\<forall>m. rep m (bt_new bt) Map.empty {#})
     \<and> (\<forall>m xs f B m'. rep m xs f B \<and> (\<forall>x \<in> foot B. m' x = m x) \<longrightarrow> rep m' xs f B)
     \<and> insert_ok C kt vt ks vs bt rep \<and> drop_ok C vt bt"

text \<open>The addresses of a map type lead to the trampolines, and these to a map that keeps its promises.\<close>

definition map_lib :: "(cell_id \<rightharpoonup> ty) \<Rightarrow> ext_ops \<Rightarrow> ty \<Rightarrow> nat \<Rightarrow> ty \<Rightarrow> nat \<Rightarrow> nat \<Rightarrow> nat \<Rightarrow> map_rep \<Rightarrow> bool" where
  "map_lib C F kt ks vt vs na ins rep \<longleftrightarrow> (\<exists>bt. linked F bt ks vs na ins \<and> btree_ok C kt vt ks vs bt rep)"

section \<open>The trampolines do what they promise\<close>

lemma extends_free:
  assumes "extends h0 h W (B + Bo)"
  shows "extends h0 (h\<lparr>live := live h - Bo\<rparr>) W B"
  using assms heap_ok_free [of h Bo] by (auto simp: extends_def fresh_union)

lemma map_new_state:
  assumes bt: "btree_ok C kt vt ks vs bt rep" and ok: "heap_ok h" and W: "{a..<a + 24} \<subseteq> W"
  shows "\<exists>h'. map_new_at bt a h = Inr h' \<and> extends h h' W {#} \<and> rep (mem h') (load (mem h') a 24) Map.empty {#} \<and> brk h' = brk h"
proof -
  have l: "length (bt_new bt) = 24" using bt by (simp add: btree_ok_def)
  then have "extends h (write_bytes a (bt_new bt) h) W {#}" using ok W by (intro extends_write) simp_all
  moreover have "rep (mem (write_bytes a (bt_new bt) h)) (load (mem (write_bytes a (bt_new bt) h)) a 24) Map.empty {#}"
    using bt l by (simp add: btree_ok_def load_write_same)
  ultimately show ?thesis by (simp add: map_new_at_def)
qed

lemma map_insert_state:
  assumes bt: "btree_ok C kt vt ks vs bt rep" and e: "extends h0 h W (B + Bk + Bv)"
    and a: "{a..<a + 24} \<subseteq> W" "{a..<a + 24} \<subseteq> {..<brk h0}"
    and held: "brk h \<le> 2 ^ 64 \<Longrightarrow> rep (mem h) (load (mem h) a 24) f B \<and> holds C (mem h) kt k (VStr s) Bk \<and> holds C (mem h) vt p v Bv"
  shows "\<exists>h'. map_insert bt ks vs a k p h = Inr h' \<and> map_state rep h0 W a (f(s \<mapsto> v)) h' \<and> brk h \<le> brk h'"
proof -
  have ins: "insert_ok C kt vt ks vs bt rep" using bt by (simp add: btree_ok_def)
  let ?kb = "load (mem h) k ks" and ?vb = "load (mem h) p vs"
  have "brk h \<le> 2 ^ 64 \<longrightarrow> rep (mem h) (load (mem h) a 24) f B \<and> owned C (mem h) kt ?kb (VStr s) Bk \<and> owned C (mem h) vt ?vb v Bv"
    using held owned_load by blast
  then have "\<exists>old h' B' Bo. bt_insert bt a ?kb ?vb h = Inr (old, h') \<and> extends h0 h' W (B' + Bo) \<and> brk h \<le> brk h'
      \<and> (brk h' \<le> 2 ^ 64 \<longrightarrow> rep (mem h') (load (mem h') a 24) (f(s \<mapsto> v)) B')
      \<and> (case old of None \<Rightarrow> Bo = {#}
         | Some ob \<Rightarrow> \<exists>ov. f s = Some ov \<and> (brk h' \<le> 2 ^ 64 \<longrightarrow> owned C (mem h') vt ob ov Bo))"
    by (intro ins [unfolded insert_ok_def, rule_format] conjI) (simp_all add: e a)
  then obtain old h1 B' Bo where i: "bt_insert bt a ?kb ?vb h = Inr (old, h1)" "extends h0 h1 W (B' + Bo)" "brk h \<le> brk h1"
    "brk h1 \<le> 2 ^ 64 \<longrightarrow> rep (mem h1) (load (mem h1) a 24) (f(s \<mapsto> v)) B'"
    "case old of None \<Rightarrow> Bo = {#} | Some ob \<Rightarrow> \<exists>ov. f s = Some ov \<and> (brk h1 \<le> 2 ^ 64 \<longrightarrow> owned C (mem h1) vt ob ov Bo)"
    by blast
  show ?thesis
  proof (cases old)
    case None
    then show ?thesis using i by (auto simp: map_insert_def map_state_def)
  next
    case (Some ob)
    then obtain ov where "brk h1 \<le> 2 ^ 64 \<longrightarrow> owned C (mem h1) vt ob ov Bo" using i(5) by auto
    moreover have "Bo \<subseteq># live h1" using i(2) by (simp add: extends_def)
    ultimately obtain Bd where d: "bt_drop bt ob h1 = Inr (h1\<lparr>live := live h1 - Bd\<rparr>)" "Bd \<subseteq># Bo"
      "brk h1 \<le> 2 ^ 64 \<longrightarrow> Bd = Bo"
      using bt unfolding btree_ok_def drop_ok_def by blast
    have "B' + Bo = B' + (Bo - Bd) + Bd"
      unfolding union_assoc subset_mset.diff_add [OF d(2)] ..
    then have "extends h0 (h1\<lparr>live := live h1 - Bd\<rparr>) W (B' + (Bo - Bd))" using i(2) extends_free by metis
    moreover have "brk h1 \<le> 2 ^ 64 \<longrightarrow> B' + (Bo - Bd) = B'" using d(3) by simp
    ultimately show ?thesis using i(1,3,4) d(1) Some unfolding map_state_def
      by (intro exI [of _ "h1\<lparr>live := live h1 - Bd\<rparr>"] conjI exI [of _ "B' + (Bo - Bd)"]) (simp_all add: map_insert_def)
  qed
qed

end
