(* ===== verification/Bind.thy ===== *)
theory Bind
  imports Tramp
begin

text \<open>
  What binding a JSON value to a type means, independently of the two backends: \<open>binds C F t j v\<close>
  says that \<open>v\<close> is the value of type \<open>t\<close> the JSON value \<open>j\<close> denotes, in the sense of serde: struct
  fields are found by name whatever their order, unknown keys are ignored, an absent key is
  allowed for an option field only and means \<open>None\<close>, a tuple is a positional array, \<open>null\<close> is
  \<open>None\<close>; a map has the members of the object, of equal keys the last, as the standard library
  represents it. \<open>placed\<close> says what a backend owes its caller.
\<close>

section \<open>The values a JSON value denotes\<close>

text \<open>A slot is a field with the JSON value found for it, if any.\<close>

type_synonym slot = "field \<times> json option"

definition is_opt :: "ty \<Rightarrow> bool" where
  "is_opt t \<longleftrightarrow> (case t of TOpt _ _ _ _ _ _ _ \<Rightarrow> True | _ \<Rightarrow> False)"

definition struct_slots :: "field list \<Rightarrow> (bytes \<times> json) list \<Rightarrow> slot list" where
  "struct_slots fs ms = map (\<lambda>f. (f, map_of ms (f_name f))) fs"

definition tuple_slots :: "field list \<Rightarrow> json list \<Rightarrow> slot list" where
  "tuple_slots fs js = zip fs (map Some js)"

text \<open>The keys of a map are strings: \<^verbatim>\<open>String\<close> itself, or a back-edge to it.\<close>

definition str_key :: "(cell_id \<rightharpoonup> ty) \<Rightarrow> ty \<Rightarrow> bool" where
  "str_key C kt \<longleftrightarrow> (\<exists>q. kt = TStr q \<or> (\<exists>c. kt = TRef c \<and> C c = Some (TStr q)))"

inductive binds :: "(cell_id \<rightharpoonup> ty) \<Rightarrow> ext_ops \<Rightarrow> ty \<Rightarrow> json \<Rightarrow> val \<Rightarrow> bool"
  and binds_slots :: "(cell_id \<rightharpoonup> ty) \<Rightarrow> ext_ops \<Rightarrow> slot list \<Rightarrow> val list \<Rightarrow> bool"
  and binds_elems :: "(cell_id \<rightharpoonup> ty) \<Rightarrow> ext_ops \<Rightarrow> ty \<Rightarrow> json list \<Rightarrow> val list \<Rightarrow> bool"
  for C :: "cell_id \<rightharpoonup> ty" and F :: ext_ops where
  b_bool: "binds C F TBool (Bool b) (VBool b)"
| b_char: "scalar c \<Longrightarrow> binds C F TChar (Str (encode_utf8 c)) (VChar c)"
| b_u: "parse_u128 s = Some k \<Longrightarrow> k < 256 ^ n \<Longrightarrow> binds C F (TU n) (Num s) (VU k)"
| b_i: "parse_i128 s = Some k \<Longrightarrow> - (256 ^ n div 2) \<le> k \<Longrightarrow> k < 256 ^ n div 2 \<Longrightarrow>
    binds C F (TI n) (Num s) (VI k)"
| b_f32: "std_f64 F s = Some w \<Longrightarrow> binds C F TF32 (Num s) (VF32 (demote F w))"
| b_f64: "std_f64 F s = Some w \<Longrightarrow> binds C F TF64 (Num s) (VF64 w)"
| b_struct: "distinct (map fst ms) \<Longrightarrow> binds_slots C F (struct_slots fs ms) vs \<Longrightarrow>
    binds C F (TStruct nm fs) (Object ms) (VStruct vs)"
| b_tuple: "length js = length fs \<Longrightarrow> binds_slots C F (tuple_slots fs js) vs \<Longrightarrow>
    binds C F (TTuple fs) (Array js) (VTuple vs)"
| b_str: "utf8_valid s \<Longrightarrow> length s < 2 ^ 63 \<Longrightarrow> binds C F (TStr q) (Str s) (VStr s)"
| b_strref: "utf8_valid s \<Longrightarrow> length s < 2 ^ 63 \<Longrightarrow> binds C F (TStrRef po lo) (Str s) (VStr s)"
| b_vec: "(2 * length js + 4) * esz + (max 1 al - 1) < 2 ^ 63 \<Longrightarrow> binds_elems C F t js vs \<Longrightarrow>
    binds C F (TVec t esz al q) (Array js) (VVec vs)"
| b_unit: "binds C F TUnit j VUnit"
| b_box: "binds C F t j v \<Longrightarrow> binds C F (TBoxed t sz al) j (VBox v)"
| b_none: "binds C F (TOpt disc_off ds nd sd payload_off sz t) Null VNone"
| b_some: "j \<noteq> Null \<Longrightarrow> binds C F t j v \<Longrightarrow>
    binds C F (TOpt disc_off ds nd sd payload_off sz t) j (VSome v)"
| b_ref: "C c = Some t \<Longrightarrow> binds C F t j v \<Longrightarrow> binds C F (TRef c) j v"
| b_slots_nil: "binds_slots C F [] []"
| b_slots_found: "binds C F (f_ty f) j v \<Longrightarrow> binds_slots C F ss vs \<Longrightarrow>
    binds_slots C F ((f, Some j) # ss) (v # vs)"
| b_slots_absent: "is_opt (f_ty f) \<Longrightarrow> binds_slots C F ss vs \<Longrightarrow>
    binds_slots C F ((f, None) # ss) (VNone # vs)"
| b_elems_nil: "binds_elems C F t [] []"
| b_elems_cons: "binds C F t j v \<Longrightarrow> binds_elems C F t js vs \<Longrightarrow> binds_elems C F t (j # js) (v # vs)"
| b_map: "str_key C kt \<Longrightarrow> \<forall>k \<in> fst ` set ms. utf8_valid k \<and> length k < 2 ^ 63 \<Longrightarrow> binds_elems C F t (map snd ms) us \<Longrightarrow>
    map_lib C F kt ks t vs na ins rep \<Longrightarrow> binds C F (TMap kt ks t vs na ins) (Object ms)
      (VMap (\<lambda>m xs. rep m xs (map_of (rev (zip (map fst ms) us)))))"

lemmas binds_intros = binds_binds_slots_binds_elems.intros
lemmas binds_induct = binds_binds_slots_binds_elems.inducts

lemma binds_elems_length: "binds_elems C F t js vs \<Longrightarrow> length js = length vs"
  by (induction js arbitrary: vs) (auto elim: binds_elems.cases)

section \<open>What a backend owes\<close>

text \<open>
  \<open>placed\<close>: the bytes of the destination, and nothing else of what existed before, have been
  overwritten, and represent the value; every block allocated on the way is owned by the value
  exactly once. Only while the addresses fit into 64 bits can a stored pointer mean its block.
\<close>

definition dst_bytes :: "(cell_id \<Rightarrow> shape) \<Rightarrow> ty \<Rightarrow> addr \<Rightarrow> addr set" where
  "dst_bytes S t a = {a..<a + span S t}"

definition inside :: "(cell_id \<Rightarrow> shape) \<Rightarrow> ty \<Rightarrow> addr \<Rightarrow> heap \<Rightarrow> bool" where
  "inside S t a h \<longleftrightarrow> dst_bytes S t a \<subseteq> {..<brk h}"

definition placed ::
  "(cell_id \<rightharpoonup> ty) \<Rightarrow> (cell_id \<Rightarrow> shape) \<Rightarrow> ty \<Rightarrow> addr \<Rightarrow> val \<Rightarrow> heap \<Rightarrow> heap \<Rightarrow> bool" where
  "placed C S t a v h h' \<longleftrightarrow> (\<exists>B. extends h h' (dst_bytes S t a) B
     \<and> (brk h' \<le> 2 ^ 64 \<longrightarrow> holds C (mem h') t a v B))"

definition placed_fields ::
  "(cell_id \<rightharpoonup> ty) \<Rightarrow> (cell_id \<Rightarrow> shape) \<Rightarrow> field list \<Rightarrow> addr \<Rightarrow> val list \<Rightarrow> heap \<Rightarrow> heap \<Rightarrow> bool" where
  "placed_fields C S fs a vs h h' \<longleftrightarrow>
     (\<exists>B. extends h h' (\<Union>f \<in> set fs. dst_bytes S (f_ty f) (a + f_offset f)) B
       \<and> (brk h' \<le> 2 ^ 64 \<longrightarrow> holds_fields C (mem h') fs a vs B))"

definition placed_elems ::
  "(cell_id \<rightharpoonup> ty) \<Rightarrow> ty \<Rightarrow> nat \<Rightarrow> addr \<Rightarrow> val list \<Rightarrow> heap \<Rightarrow> heap \<Rightarrow> bool" where
  "placed_elems C t esz a vs h h' \<longleftrightarrow> (\<exists>B. extends h h' {a..<a + length vs * esz} B
     \<and> (brk h' \<le> 2 ^ 64 \<longrightarrow> holds_elems C (mem h') t esz a vs B))"

lemma placedE:
  assumes "placed C S t a v h h'"
  obtains B where "extends h h' (dst_bytes S t a) B" "brk h' \<le> 2 ^ 64 \<longrightarrow> holds C (mem h') t a v B"
  using assms unfolding placed_def by blast

section \<open>Placing fields and elements one after the other\<close>

lemma keeps_holds:
  assumes hold: "holds C (mem h1) t a v B" and wf: "cells_ok C S" "lay_ok S t"
    and fresh: "fresh lo (brk h1) B" and ext: "extends h1 h2 W B'"
    and apart: "\<And>x. x \<in> W \<Longrightarrow> x \<notin> dst_bytes S t a" and below: "\<And>x. x \<in> W \<Longrightarrow> x < lo"
    and dst: "dst_bytes S t a \<subseteq> {..<brk h1}"
  shows "holds C (mem h2) t a v B"
proof (rule holds_move [OF hold wf])
  show "same (mem h1) a (mem h2) a (span S t)"
    unfolding same_def
  proof (intro allI impI)
    fix i assume "i < span S t"
    then have "a + i \<in> dst_bytes S t a" by (simp add: dst_bytes_def)
    moreover from this have "a + i < brk h1" using dst by blast
    ultimately show "mem h2 (a + i) = mem h1 (a + i)" using extends_same [OF ext] apart by blast
  qed
  show "mem h2 x = mem h1 x" if "x \<in> foot B" for x
    using extends_same [OF ext] fresh_foot [OF fresh that] below [of x] by force
qed

lemma placed_fields_nil: "heap_ok h \<Longrightarrow> placed_fields C S [] a [] h h"
  by (auto simp: placed_fields_def intro!: extends_refl holds_intros)

lemma placed_fields_cons:
  assumes f: "placed C S (f_ty f) (a + f_offset f) v h h1" and fs: "placed_fields C S fs a vs h1 h2"
    and wf: "cells_ok C S" "lay_ok S (f_ty f)" and apart: "\<And>g. g \<in> set fs \<Longrightarrow> fields_apart S f g"
    and dst: "\<And>g. g \<in> set (f # fs) \<Longrightarrow> inside S (f_ty g) (a + f_offset g) h"
  shows "placed_fields C S (f # fs) a (v # vs) h h2"
proof -
  let ?D = "\<lambda>f. dst_bytes S (f_ty f) (a + f_offset f)"
  obtain B where B: "extends h h1 (?D f) B" "brk h1 \<le> 2 ^ 64 \<Longrightarrow> holds C (mem h1) (f_ty f) (a + f_offset f) v B"
    using f by (auto simp: placed_def)
  obtain B' where B': "extends h1 h2 (\<Union>f \<in> set fs. ?D f) B'" "brk h2 \<le> 2 ^ 64 \<Longrightarrow> holds_fields C (mem h2) fs a vs B'"
    using fs by (auto simp: placed_fields_def)
  have "holds_fields C (mem h2) (f # fs) a (v # vs) (B + B')" if "brk h2 \<le> 2 ^ 64"
  proof (rule h_fields_cons_intro)
    have "brk h1 \<le> 2 ^ 64" using that extends_brk [OF B'(1)] by simp
    from B(2) [OF this] show "holds C (mem h2) (f_ty f) (a + f_offset f) v B"
    proof (rule keeps_holds [OF _ wf _ B'(1)])
      show "fresh (brk h) (brk h1) B" using B by (simp add: extends_def)
      show "?D f \<subseteq> {..<brk h1}" using dst [of f] extends_brk [OF B(1)] by (auto simp: inside_def)
      show "x \<notin> ?D f" if "x \<in> (\<Union>f \<in> set fs. ?D f)" for x
        using that apart by (fastforce simp: fields_apart_def dst_bytes_def)
      show "x < brk h" if "x \<in> (\<Union>f \<in> set fs. ?D f)" for x
        using that dst by (fastforce simp: inside_def)
    qed
    show "holds_fields C (mem h2) fs a vs B'" using B'(2) that by simp
  qed
  moreover have "extends h h2 (\<Union>f \<in> set (f # fs). ?D f) (B + B')"
    by (rule extends_trans [OF B(1) B'(1)]) auto
  ultimately show ?thesis unfolding placed_fields_def by blast
qed

lemma placed_elems_nil: "heap_ok h \<Longrightarrow> placed_elems C t esz a [] h h"
  by (auto simp: placed_elems_def intro!: extends_refl holds_intros)

lemma placed_elems_cons:
  assumes e: "placed C S t a v h h1" and es: "placed_elems C t esz (a + esz) vs h1 h2"
    and wf: "cells_ok C S" "lay_ok S t" and esz: "span S t \<le> esz"
    and dst: "a + Suc (length vs) * esz \<le> brk h"
  shows "placed_elems C t esz a (v # vs) h h2"
proof -
  let ?W = "{a + esz..<a + esz + length vs * esz}"
  obtain B where B: "extends h h1 (dst_bytes S t a) B" "brk h1 \<le> 2 ^ 64 \<Longrightarrow> holds C (mem h1) t a v B"
    using e by (auto simp: placed_def)
  obtain B' where B': "extends h1 h2 ?W B'" "brk h2 \<le> 2 ^ 64 \<Longrightarrow> holds_elems C (mem h2) t esz (a + esz) vs B'"
    using es by (auto simp: placed_elems_def)
  have "holds_elems C (mem h2) t esz a (v # vs) (B + B')" if "brk h2 \<le> 2 ^ 64"
  proof (rule h_elems_cons_intro)
    have "brk h1 \<le> 2 ^ 64" using that extends_brk [OF B'(1)] by simp
    from B(2) [OF this] show "holds C (mem h2) t a v B"
    proof (rule keeps_holds [OF _ wf _ B'(1)])
      show "fresh (brk h) (brk h1) B" using B by (simp add: extends_def)
      show "dst_bytes S t a \<subseteq> {..<brk h1}"
        using dst esz extends_brk [OF B(1)] by (auto simp: dst_bytes_def)
      show "x \<notin> dst_bytes S t a" if "x \<in> ?W" for x using that esz by (auto simp: dst_bytes_def)
      show "x < brk h" if "x \<in> ?W" for x using that dst by auto
    qed
    show "holds_elems C (mem h2) t esz (a + esz) vs B'" using B'(2) that by simp
  qed
  moreover have "extends h h2 {a..<a + length (v # vs) * esz} (B + B')"
    by (rule extends_trans [OF B(1) B'(1)]) (use esz in \<open>auto simp: dst_bytes_def\<close>)
  ultimately show ?thesis unfolding placed_elems_def by blast
qed

section \<open>Buffers\<close>

text \<open>
  Both backends obtain the memory of a string, a vector or a box through a function that
  returns a dangling aligned pointer for size zero and calls the allocator otherwise. The
  locale states its contract; what boxes and strings need is proved once from it.
\<close>

definition buffer :: "nat \<Rightarrow> nat \<Rightarrow> heap \<Rightarrow> addr \<Rightarrow> heap \<Rightarrow> bool" where
  "buffer sz al h p h1 \<longleftrightarrow> extends h h1 {} (block_of p sz al) \<and> 0 < p \<and> al dvd p
     \<and> (0 < sz \<longrightarrow> brk h \<le> p \<and> p + sz \<le> brk h1) \<and> (brk h1 \<le> 2 ^ 64 \<longrightarrow> p < 2 ^ 64)"

lemma pow2_lt: "is_pow2 al \<Longrightarrow> al < 2 ^ 64"
proof -
  assume "is_pow2 al"
  then obtain k where "k \<le> 63" "al = 2 ^ k" by (auto simp: is_pow2_def)
  then have "al \<le> 2 ^ 63" by (simp only: power_increasing)
  then show ?thesis by (rule le_less_trans) simp
qed

lemma buffer_dangling: "heap_ok h \<Longrightarrow> is_pow2 al \<Longrightarrow> buffer 0 al h al h"
  using pow2_lt is_pow2_pos by (auto simp: buffer_def block_of_def intro: extends_refl)

lemma buffer_alloc:
  assumes "alloc sz al h = Inr (p, h1)" and "heap_ok h" and "is_pow2 al"
  shows "buffer sz al h p h1"
proof -
  have "0 < sz" using assms(1) by (auto simp: alloc_def split: if_splits)
  then show ?thesis using alloc_extends [OF assms] by (auto simp: buffer_def block_of_def)
qed

definition filled :: "bytes \<Rightarrow> heap \<Rightarrow> addr \<Rightarrow> heap \<Rightarrow> bool" where
  "filled s h p h1 \<longleftrightarrow> extends h h1 {} (block_of p (length s) 1) \<and> 0 < p
     \<and> (brk h1 \<le> 2 ^ 64 \<longrightarrow> p < 2 ^ 64) \<and> load (mem h1) p (length s) = s
     \<and> (0 < length s \<longrightarrow> brk h \<le> p \<and> p + length s \<le> brk h1)"

text \<open>The three words of a vector and the two words of a slice.\<close>

definition write_seq :: "addr \<Rightarrow> seq_layout \<Rightarrow> addr \<Rightarrow> nat \<Rightarrow> nat \<Rightarrow> heap \<Rightarrow> heap" where
  "write_seq dst q p cap len h =
     write_word (dst + len_off q) len
       (write_word (dst + cap_off q) cap (write_word (dst + ptr_off q) p h))"

lemma write_seq_loads:
  assumes "seq_ok q"
  shows "load (mem (write_seq dst q p cap len h)) (dst + ptr_off q) 8 = le_bytes 8 p"
    and "load (mem (write_seq dst q p cap len h)) (dst + cap_off q) 8 = le_bytes 8 cap"
    and "load (mem (write_seq dst q p cap len h)) (dst + len_off q) 8 = le_bytes 8 len"
  using assms
  by (auto simp: write_seq_def seq_ok_def words_apart_def load_write_word load_write_word_disjoint)

lemma brk_write_seq [simp]: "brk (write_seq dst q p cap len h) = brk h"
  by (simp add: write_seq_def)

lemma extends_write_seq:
  "heap_ok h \<Longrightarrow> extends h (write_seq dst q p cap len h) {dst..<dst + seq_span q} {#}"
  unfolding write_seq_def write_word_def
  by (intro extends_then_write extends_refl) (auto simp: seq_span_def)

lemma placed_string:
  assumes f: "filled s h p h1" and wf: "lay_ok S (TStr q)" and s: "utf8_valid s" "length s < 2 ^ 63"
    and dst: "inside S (TStr q) dst h"
  shows "placed C S (TStr q) dst (VStr s) h (write_seq dst q p (length s) (length s) h1)"
proof -
  let ?h2 = "write_seq dst q p (length s) (length s) h1"
  have e: "extends h ?h2 (dst_bytes S (TStr q) dst) (block_of p (length s) 1 + {#})"
    by (rule extends_trans [OF _ extends_write_seq])
      (use f extends_ok in \<open>auto simp: filled_def dst_bytes_def\<close>)
  have "load (mem ?h2) p (length s) = s"
  proof (rule load_foot)
    show "mem ?h2 x = mem h1 x" if "x \<in> {p..<p + length s}" for x
    proof -
      have "x \<notin> {dst..<dst + seq_span q}" "x < brk h1"
        using that f dst by (fastforce simp: filled_def inside_def dst_bytes_def)+
      then show ?thesis
        using extends_same [OF extends_write_seq] f extends_ok by (auto simp: filled_def)
    qed
  qed (use f in \<open>auto simp: filled_def\<close>)
  then have "brk ?h2 \<le> 2 ^ 64 \<Longrightarrow> holds C (mem ?h2) (TStr q) dst (VStr s) (block_of p (length s) 1)"
    using f s wf by (intro h_str_intro) (auto simp: write_seq_loads filled_def)
  with e show ?thesis unfolding placed_def by auto
qed

lemma placed_strref:
  assumes f: "filled s h p h1" and wf: "lay_ok S (TStrRef po lo)" and s: "utf8_valid s" "length s < 2 ^ 63"
    and dst: "inside S (TStrRef po lo) dst h"
  shows "placed C S (TStrRef po lo) dst (VStr s) h
    (write_word (dst + lo) (length s) (write_word (dst + po) p h1))"
proof -
  let ?D = "dst_bytes S (TStrRef po lo) dst"
  let ?h2 = "write_word (dst + lo) (length s) (write_word (dst + po) p h1)"
  have e2: "extends h1 ?h2 ?D {#}"
    unfolding write_word_def using f extends_ok
    by (intro extends_then_write extends_refl) (auto simp: dst_bytes_def filled_def)
  have e: "extends h ?h2 ?D (block_of p (length s) 1 + {#})"
    by (rule extends_trans [OF _ e2]) (use f in \<open>auto simp: filled_def\<close>)
  have "load (mem ?h2) p (length s) = s"
  proof (rule load_foot)
    show "mem ?h2 x = mem h1 x" if "x \<in> {p..<p + length s}" for x
    proof -
      have "x \<notin> ?D" "x < brk h1" using that f dst by (fastforce simp: filled_def inside_def)+
      then show ?thesis using extends_same [OF e2] by blast
    qed
  qed (use f in \<open>auto simp: filled_def\<close>)
  then have "brk ?h2 \<le> 2 ^ 64 \<Longrightarrow> holds C (mem ?h2) (TStrRef po lo) dst (VStr s) (block_of p (length s) 1)"
    using f s wf
    by (intro h_strref_intro)
      (auto simp: load_write_word load_write_word_disjoint words_apart_def filled_def)
  with e show ?thesis unfolding placed_def by auto
qed

locale allocator =
  fixes get :: "nat \<Rightarrow> nat \<Rightarrow> heap \<Rightarrow> (addr \<times> heap) res"
    and aligns :: "nat \<Rightarrow> bool"
  assumes get_buffer: "heap_ok h \<Longrightarrow> aligns al \<Longrightarrow> sz + (al - 1) < 2 ^ 63 \<Longrightarrow>
      \<exists>p h1. get sz al h = Inr (p, h1) \<and> buffer sz al h p h1"
begin

lemma get_box:
  assumes ok: "heap_ok h" and al: "aligns (max 1 al)" and wf: "lay_ok S (TBoxed t sz al)" "cells_ok C S"
    and dst: "inside S (TBoxed t sz al) dst h"
  shows "\<exists>p h1. get sz (max 1 al) h = Inr (p, h1) \<and> heap_ok h1 \<and> inside S t p h1
    \<and> (\<forall>h2 v. placed C S t p v h1 h2 \<longrightarrow> placed C S (TBoxed t sz al) dst (VBox v) h (write_word dst p h2))"
proof -
  have "sz + (max 1 al - 1) < 2 ^ 63" using wf by simp
  then obtain p h1 where get: "get sz (max 1 al) h = Inr (p, h1)" and b: "buffer sz (max 1 al) h p h1"
    using get_buffer [OF ok al] by blast
  have e1: "extends h h1 {} (block_of p sz (max 1 al))" using b by (simp add: buffer_def)
  have sp: "span S t \<le> sz" using wf by simp
  have D: "dst_bytes S (TBoxed t sz al) dst = {dst..<dst + 8}" by (simp add: dst_bytes_def)
  have ins: "inside S t p h1" using b sp by (auto simp: inside_def dst_bytes_def buffer_def)
  have new: "brk h \<le> x" if "x \<in> dst_bytes S t p" for x
    using b sp that by (auto simp: dst_bytes_def buffer_def)
  have "placed C S (TBoxed t sz al) dst (VBox v) h (write_word dst p h2)"
    if pl: "placed C S t p v h1 h2" for h2 v
  proof -
    obtain B where B: "extends h1 h2 (dst_bytes S t p) B" "brk h2 \<le> 2 ^ 64 \<longrightarrow> holds C (mem h2) t p v B"
      by (rule placedE [OF pl])
    have e: "extends h h2 (dst_bytes S (TBoxed t sz al) dst) (block_of p sz (max 1 al) + B)"
      by (rule extends_trans [OF e1 B(1)]) (use new in force)
    have e': "extends h (write_word dst p h2) (dst_bytes S (TBoxed t sz al) dst) (block_of p sz (max 1 al) + B)"
      unfolding write_word_def by (rule extends_then_write [OF e]) (simp add: D)
    have "holds C (mem (write_word dst p h2)) (TBoxed t sz al) dst (VBox v) (block_of p sz (max 1 al) + B)"
      if le: "brk h2 \<le> 2 ^ 64"
    proof (rule h_box_intro)
      have wfi: "lay_ok S t" using wf by simp
      show "holds C (mem (write_word dst p h2)) t p v B"
      proof (rule keeps_holds [OF B(2) [rule_format, OF le] wf(2) wfi])
        show "fresh (brk h1) (brk h2) B" using B by (simp add: extends_def)
        show "extends h2 (write_word dst p h2) {dst..<dst + 8} {#}"
          using extends_ok [OF B(1)] by (rule extends_write_word) simp
        show "dst_bytes S t p \<subseteq> {..<brk h2}" using ins extends_brk [OF B(1)] by (auto simp: inside_def)
        show "x \<notin> dst_bytes S t p" if "x \<in> {dst..<dst + 8}" for x
          using new [of x] dst that by (auto simp: inside_def D)
        show "x < brk h1" if "x \<in> {dst..<dst + 8}" for x
          using dst that extends_brk [OF e1] by (auto simp: inside_def D)
      qed
      show "p < 2 ^ 64" using b le extends_brk [OF B(1)] by (simp add: buffer_def)
    qed (use b in \<open>simp_all add: load_write_word buffer_def\<close>)
    with e' show ?thesis unfolding placed_def by auto
  qed
  with get ins extends_ok [OF e1] show ?thesis by blast
qed

text \<open>A string: a buffer of its length filled with its bytes.\<close>

lemma get_string:
  assumes ok: "heap_ok h" and al: "aligns 1" and len: "length s < 2 ^ 63"
  shows "\<exists>p h1. get (length s) 1 h = Inr (p, h1) \<and> filled s h p (write_bytes p s h1)"
proof -
  obtain p h1 where get: "get (length s) 1 h = Inr (p, h1)" and b: "buffer (length s) 1 h p h1"
    using get_buffer [OF ok al, of "length s"] len by auto
  have "extends h (write_bytes p s h1) {} (block_of p (length s) 1 + {#})"
  proof (rule extends_trans)
    show "extends h h1 {} (block_of p (length s) 1)" using b by (simp add: buffer_def)
    then show "extends h1 (write_bytes p s h1) {p..<p + length s} {#}"
      using extends_ok by (blast intro: extends_write)
    show "x \<in> {}" if "x < brk h" "x \<in> {} \<or> x \<in> {p..<p + length s}" for x
      using that b by (auto simp: buffer_def)
  qed
  with get b show ?thesis by (auto simp: filled_def buffer_def load_write_same)
qed

end

end
