(* ===== verification/Jit.thy ===== *)
theory Jit
  imports Bind
begin

text \<open>
  The compiled backend, \<^verbatim>\<open>crates/bilbo-json/src/jit.rs\<close>. The Rust code emits, for a layout, the
  instructions of a parser specialised to it; the definitions here are those parsers: each
  builder call stands for what the emitted instruction does when it runs, each Rust loop over
  the layout (fields, unrolled stores) is a recursion over the layout, each emitted block with
  a back jump is a loop. \<open>b\<close> is the memory from the start of the input, \<open>e\<close> the end of the
  input in it (\<open>e \<le> length b\<close>; what lies between is readable but not input), cursors are
  indices. A load outside \<open>b\<close> is undefined behaviour. The two scratch words the shims
  return values through are results here.
\<close>

section \<open>Reading the input\<close>

definition load_u8 :: "bytes \<Rightarrow> nat \<Rightarrow> byte res" where
  "load_u8 b c = (if c < length b then Inr (b ! c) else Inl (Ub ''load beyond the input''))"

text \<open>\<^verbatim>\<open>slice::from_raw_parts(cur, n)\<close>\<close>

definition raw_slice :: "bytes \<Rightarrow> nat \<Rightarrow> nat \<Rightarrow> bytes res" where
  "raw_slice b c n =
     (if n = 0 then Inr []
      else if c + n \<le> length b then Inr (take n (drop c b))
      else Inl (Ub ''slice beyond the input''))"

section \<open>Runtime shims\<close>

definition rt_alloc :: "nat \<Rightarrow> heap \<Rightarrow> (addr \<times> heap) res" where
  "rt_alloc n h = (if n = 0 then Inr (1, h) else new_block n 1 h)"

definition rt_box_alloc :: "nat \<Rightarrow> nat \<Rightarrow> heap \<Rightarrow> (addr \<times> heap) res" where
  "rt_box_alloc sz al h =
     (let al = max al 1 in if sz = 0 then Inr (al, h) else new_block sz al h)"

definition rt_realloc :: "addr \<Rightarrow> nat \<Rightarrow> nat \<Rightarrow> nat \<Rightarrow> heap \<Rightarrow> (addr \<times> heap) res" where
  "rt_realloc p old new al h =
     (let al = max al 1 in
      if old = 0 then (if new = 0 then Inr (al, h) else new_block new al h)
      else bindR (layout old al) (\<lambda>_. realloc p old al new h))"

definition isws :: "byte \<Rightarrow> bool" where
  "isws c \<longleftrightarrow> c = 0x20 \<or> c = 0x0A \<or> c = 0x09 \<or> c = 0x0D"

function rt_ws :: "bytes \<Rightarrow> nat \<Rightarrow> nat \<Rightarrow> nat res" where
  "rt_ws b e c =
     (if c < e then bindR (load_u8 b c) (\<lambda>v. if isws v then rt_ws b e (Suc c) else Inr c) else Inr c)"
  by pat_completeness auto
termination
  by (relation "measure (\<lambda>(b, e, c). e - c)") auto

declare rt_ws.simps [simp del]

text \<open>The three loops of \<^verbatim>\<open>rt_skip\<close>: a string, a bracketed value, anything else.\<close>

function skip_string :: "bytes \<Rightarrow> nat \<Rightarrow> nat \<Rightarrow> nat res" where
  "skip_string b e c =
     (if c < e then
        bindR (load_u8 b c) (\<lambda>v.
          if v = QUOTE then Inr (Suc c)
          else skip_string b e (if v = BACKSLASH then c + 2 else c + 1))
      else Inr (Suc c))"
  by pat_completeness auto
termination
  by (relation "measure (\<lambda>(b, e, c). e - c)") auto

declare skip_string.simps [simp del]

text \<open>The depth counter is an \<^verbatim>\<open>i32\<close> with overflow checks.\<close>

definition depth_inc :: "int \<Rightarrow> int res" where
  "depth_inc d = (if d + 1 < 2 ^ 31 then Inr (d + 1) else Inl (Panic ''attempt to add with overflow''))"

function skip_nested :: "bytes \<Rightarrow> nat \<Rightarrow> nat \<Rightarrow> int \<Rightarrow> bool \<Rightarrow> nat res" where
  "skip_nested b e c depth in_str =
     (if c < e then
        bindR (load_u8 b c) (\<lambda>v.
          if in_str then
            if v = BACKSLASH then skip_nested b e (c + 2) depth in_str
            else skip_nested b e (c + 1) depth (v \<noteq> QUOTE)
          else if v = QUOTE then skip_nested b e (c + 1) depth True
          else if v = LBRACE \<or> v = LBRACKET then
            bindR (depth_inc depth) (\<lambda>depth. skip_nested b e (c + 1) depth in_str)
          else if v = RBRACE \<or> v = RBRACKET then
            if depth - 1 = 0 then Inr (c + 1) else skip_nested b e (c + 1) (depth - 1) in_str
          else skip_nested b e (c + 1) depth in_str)
      else Inr c)"
  by pat_completeness auto
termination
  by (relation "measure (\<lambda>(b, e, c, _). e - c)") auto

declare skip_nested.simps [simp del]

function skip_scalar :: "bytes \<Rightarrow> nat \<Rightarrow> nat \<Rightarrow> nat res" where
  "skip_scalar b e c =
     (if c < e then
        bindR (load_u8 b c) (\<lambda>v.
          if v = COMMA \<or> v = RBRACE \<or> v = RBRACKET \<or> isws v then Inr c
          else skip_scalar b e (Suc c))
      else Inr c)"
  by pat_completeness auto
termination
  by (relation "measure (\<lambda>(b, e, c). e - c)") auto

declare skip_scalar.simps [simp del]

definition rt_skip :: "bytes \<Rightarrow> nat \<Rightarrow> nat \<Rightarrow> nat res" where
  "rt_skip b e cur =
     bindR (rt_ws b e cur) (\<lambda>c.
       if e \<le> c then Inr c
       else bindR (load_u8 b c) (\<lambda>v.
         if v = QUOTE then skip_string b e (Suc c)
         else if v = LBRACE \<or> v = LBRACKET then skip_nested b e c 0 False
         else skip_scalar b e c))"

definition rt_f64v :: "ext_ops \<Rightarrow> bytes \<Rightarrow> nat \<Rightarrow> nat \<Rightarrow> (u64 \<times> nat) res" where
  "rt_f64v F b e cur =
     bindR (rt_ws b e cur) (\<lambda>c.
     bindR (raw_slice b c (e - c)) (\<lambda>s.
       let (f, n) = (case fast_f64 F s of Some fn \<Rightarrow> fn | None \<Rightarrow> (0, 0)) in
       Inr (f, c + n)))"

text \<open>\<^verbatim>\<open>hex\<close> and \<^verbatim>\<open>u4\<close> of \<^verbatim>\<open>rt_unescape\<close>: a digit that is not hexadecimal counts as 0.\<close>

definition hex :: "byte \<Rightarrow> nat" where
  "hex b =
     (if 0x30 \<le> b \<and> b \<le> 0x39 then unat b - 0x30
      else if 0x61 \<le> b \<and> b \<le> 0x66 then unat b - 0x61 + 10
      else if 0x41 \<le> b \<and> b \<le> 0x46 then unat b - 0x41 + 10
      else 0)"

definition u4 :: "bytes \<Rightarrow> nat \<Rightarrow> nat res" where
  "u4 s i =
     bindR (idx s i) (\<lambda>a. bindR (idx s (i + 1)) (\<lambda>b.
     bindR (idx s (i + 2)) (\<lambda>c. bindR (idx s (i + 3)) (\<lambda>d.
       Inr (hex a * 4096 + hex b * 256 + hex c * 16 + hex d)))))"

text \<open>A \<^verbatim>\<open>\uXXXX\<close> escape, \<open>i\<close> at the \<^verbatim>\<open>u\<close>: the code point and the index of its last digit.\<close>

definition unicode_escape :: "bytes \<Rightarrow> nat \<Rightarrow> (nat \<times> nat) res" where
  "unicode_escape s i =
     bindR (u4 s (i + 1)) (\<lambda>cp.
       let i = i + 4 in
       if 0xD800 \<le> cp \<and> cp \<le> 0xDBFF \<and> i + 6 < length s \<and> s ! (i + 1) = BACKSLASH \<and> s ! (i + 2) = 0x75
       then bindR (u4 s (i + 3)) (\<lambda>lo.
         if 0xDC00 \<le> lo \<and> lo \<le> 0xDFFF
         then Inr (0x10000 + (cp - 0xD800) * 1024 + (lo - 0xDC00), i + 6)
         else Inr (cp, i))
       else Inr (cp, i))"

definition push_char :: "nat \<Rightarrow> bytes" where
  "push_char cp = encode_utf8 (case char_from_u32 cp of Some c \<Rightarrow> c | None \<Rightarrow> 0xFFFD)"

definition escape_out :: "byte \<Rightarrow> byte" where
  "escape_out c =
     (if c = QUOTE then QUOTE
      else if c = BACKSLASH then BACKSLASH
      else if c = SLASH then SLASH
      else if c = 0x6E then 0x0A
      else if c = 0x74 then 0x09
      else if c = 0x72 then 0x0D
      else if c = 0x62 then 0x08
      else if c = 0x66 then 0x0C
      else c)"

lemma unicode_escape_advances: "unicode_escape s i = Inr (cp, j) \<Longrightarrow> i < j"
  by (auto simp: unicode_escape_def bindR_eq_Inr Let_def split: if_splits)

function unescape_loop :: "bytes \<Rightarrow> nat \<Rightarrow> bytes \<Rightarrow> bytes res" where
  "unescape_loop s i out =
     (if i < length s then
        if s ! i \<noteq> BACKSLASH then unescape_loop s (Suc i) (out @ [s ! i])
        else
          let i = Suc i in
          if length s \<le> i then Inr out
          else if s ! i = 0x75 then
            bindR (unicode_escape s i) (\<lambda>(cp, j). unescape_loop s (Suc j) (out @ push_char cp))
          else unescape_loop s (Suc i) (out @ [escape_out (s ! i)])
      else Inr out)"
  by pat_completeness auto
termination
  by (relation "measure (\<lambda>(s, i, out). length s - i)") (auto dest: unicode_escape_advances)

declare unescape_loop.simps [simp del]

definition rt_unescape :: "bytes \<Rightarrow> nat \<Rightarrow> nat \<Rightarrow> heap \<Rightarrow> (addr \<times> nat \<times> heap) res" where
  "rt_unescape b src len h =
     bindR (raw_slice b src len) (\<lambda>s.
     bindR (unescape_loop s 0 []) (\<lambda>out.
     bindR (if out = [] then Inr (1, h) else new_block (length out) 1 h) (\<lambda>(p, h).
       Inr (p, length out, write_bytes p out h))))"

definition rt_wsskip :: "bytes \<Rightarrow> nat \<Rightarrow> nat \<Rightarrow> nat res" where
  "rt_wsskip b e c =
     bindR (raw_slice b c (e - c)) (\<lambda>s.
       Inr (case position (\<lambda>v. 0x20 < v) s of Some i \<Rightarrow> c + i | None \<Rightarrow> e))"

text \<open>\<^verbatim>\<open>rt_strscan\<close>, \<open>q\<close> at the opening quote: body length, escape flag, cursor behind the closing quote.\<close>

function strscan_loop :: "ext_ops \<Rightarrow> bytes \<Rightarrow> nat \<Rightarrow> nat \<Rightarrow> nat \<Rightarrow> bool \<Rightarrow> (nat \<times> bool \<times> nat) res" where
  "strscan_loop F b e s i esc =
     bindR (raw_slice b i (e - i)) (\<lambda>hay.
       case memchr2 F QUOTE BACKSLASH hay of
         None \<Rightarrow>
           if s \<le> e then Inr (e - s, esc, e) else Inl (Panic ''attempt to subtract with overflow'')
       | Some off \<Rightarrow>
           let p = i + off in
           bindR (load_u8 b p) (\<lambda>v.
             if v = QUOTE then Inr (p - s, esc, Suc p)
             else if e \<le> i then Inl (Ub ''memchr2 found a byte in an empty slice'')
             else strscan_loop F b e s (min (p + 2) e) True))"
  by pat_completeness auto
termination
  by (relation "measure (\<lambda>(F, b, e, s, i, esc). e - i)") auto

declare strscan_loop.simps [simp del]

definition rt_strscan :: "ext_ops \<Rightarrow> bytes \<Rightarrow> nat \<Rightarrow> nat \<Rightarrow> (nat \<times> bool \<times> nat) res" where
  "rt_strscan F b e q = strscan_loop F b e (Suc q) (Suc q) False"

section \<open>Whitespace, strings, integers\<close>

text \<open>
  \<open>peel_ws\<close> has two exits: \<open>True\<close> for the block \<^verbatim>\<open>tail\<close>, behind a whitespace byte, \<open>False\<close> for
  the block \<^verbatim>\<open>cont\<close>.
\<close>

definition peel_ws :: "bytes \<Rightarrow> nat \<Rightarrow> nat \<Rightarrow> (bool \<times> nat) res" where
  "peel_ws b e c =
     (if c < e then
        bindR (load_u8 b c) (\<lambda>v. Inr (if v \<le> 0x20 then (True, c + 1) else (False, c)))
      else Inr (False, c))"

definition ws :: "bytes \<Rightarrow> nat \<Rightarrow> nat \<Rightarrow> nat res" where
  "ws b e cur =
     bindR (peel_ws b e cur) (\<lambda>(more, c).
       if \<not> more then Inr c
       else bindR (peel_ws b e c) (\<lambda>(more, c).
         if \<not> more then Inr c else rt_wsskip b e c))"

text \<open>Start and length of the body, cursor behind the closing quote, escape flag.\<close>

definition strspan :: "ext_ops \<Rightarrow> bytes \<Rightarrow> nat \<Rightarrow> nat \<Rightarrow> (nat \<times> nat \<times> nat \<times> bool) res" where
  "strspan F b e cur =
     bindR (ws b e cur) (\<lambda>q.
     bindR (rt_strscan F b e q) (\<lambda>(len, esc, after).
       Inr (q + 1, len, after, esc)))"

text \<open>One chunk of a copy: \<open>w\<close> bytes from \<open>sp + off\<close> of the input to \<open>dst + off\<close>.\<close>

definition cp :: "bytes \<Rightarrow> nat \<Rightarrow> addr \<Rightarrow> nat \<Rightarrow> nat \<Rightarrow> heap \<Rightarrow> heap res" where
  "cp b sp dst w off h =
     (if sp + off + w \<le> length b
      then Inr (write_bytes (dst + off) (take w (drop (sp + off) b)) h)
      else Inl (Ub ''load beyond the input''))"

function copy_words :: "bytes \<Rightarrow> nat \<Rightarrow> addr \<Rightarrow> nat \<Rightarrow> nat \<Rightarrow> heap \<Rightarrow> heap res" where
  "copy_words b sp dst len i h =
     (if i + 8 \<le> len then bindR (cp b sp dst 8 i h) (\<lambda>h. copy_words b sp dst len (i + 8) h)
      else Inr h)"
  by pat_completeness auto
termination
  by (relation "measure (\<lambda>(b, sp, dst, len, i, h). len - i)") auto

declare copy_words.simps [simp del]

definition emit_copy :: "bytes \<Rightarrow> addr \<Rightarrow> nat \<Rightarrow> nat \<Rightarrow> heap \<Rightarrow> heap res" where
  "emit_copy b dst sp len h =
     (if 8 \<le> len then bindR (copy_words b sp dst len 0 h) (\<lambda>h. cp b sp dst 8 (len - 8) h)
      else if 4 \<le> len then bindR (cp b sp dst 4 0 h) (\<lambda>h. cp b sp dst 4 (len - 4) h)
      else if 2 \<le> len then bindR (cp b sp dst 2 0 h) (\<lambda>h. cp b sp dst 2 (len - 2) h)
      else if len \<noteq> 0 then cp b sp dst 1 0 h
      else Inr h)"

definition build_str :: "bytes \<Rightarrow> nat \<Rightarrow> nat \<Rightarrow> bool \<Rightarrow> heap \<Rightarrow> (addr \<times> nat \<times> heap) res" where
  "build_str b sp sl esc h =
     (if esc then rt_unescape b sp sl h
      else bindR (rt_alloc sl h) (\<lambda>(buf, h).
        bindR (emit_copy b buf sp sl h) (\<lambda>h. Inr (buf, sl, h))))"

text \<open>The accumulator is a 64-bit register: it wraps.\<close>

function digits :: "bytes \<Rightarrow> nat \<Rightarrow> nat \<Rightarrow> u64 \<Rightarrow> (nat \<times> u64) res" where
  "digits b e c v =
     (if c < e then
        bindR (load_u8 b c) (\<lambda>x.
          let d = (ucast x :: u64) - 0x30 in
          if d < 10 then digits b e (c + 1) (v * 10 + d) else Inr (c, v))
      else Inr (c, v))"
  by pat_completeness auto
termination
  by (relation "measure (\<lambda>(b, e, c, v). e - c)") auto

declare digits.simps [simp del]

definition intval :: "bytes \<Rightarrow> nat \<Rightarrow> nat \<Rightarrow> bool \<Rightarrow> (u64 \<times> nat) res" where
  "intval b e cur sg =
     bindR (ws b e cur) (\<lambda>cur.
     bindR (load_u8 b cur) (\<lambda>b0.
       let neg = sg \<and> b0 = MINUS;
           is_sign = neg \<or> b0 = PLUS;
           cur = (if is_sign then cur + 1 else cur) in
       bindR (digits b e cur 0) (\<lambda>(c, v).
         Inr (if sg \<and> neg then - v else v, c))))"

section \<open>Keys\<close>

text \<open>All bytes of the field name's length are loaded, whatever the key's length.\<close>

definition keyeq :: "bytes \<Rightarrow> nat \<Rightarrow> nat \<Rightarrow> bytes \<Rightarrow> bool res" where
  "keyeq b kp kl name =
     fold_res (\<lambda>i acc. bindR (load_u8 b (kp + i)) (\<lambda>v. Inr (acc \<and> v = name ! i)))
       [0..<length name] (kl = length name)"

text \<open>A chain of conditional branches: the index of the first field whose condition holds.\<close>

fun chain :: "(field \<Rightarrow> bool res) \<Rightarrow> (nat \<times> field) list \<Rightarrow> nat option res" where
  "chain cond [] = Inr None"
| "chain cond ((i, f) # fs) = bindR (cond f) (\<lambda>c. if c then Inr (Some i) else chain cond fs)"

definition SWITCH_MIN_FIELDS :: nat where
  "SWITCH_MIN_FIELDS = 12"

text \<open>The buckets of the length switch: fields of the same name length, in field order.\<close>

definition bucket :: "field list \<Rightarrow> nat \<Rightarrow> (nat \<times> field) list" where
  "bucket fs len = filter (\<lambda>(i, f). length (f_name f) = len) (enumerate 0 fs)"

definition load_word :: "bytes \<Rightarrow> nat \<Rightarrow> u64 res" where
  "load_word b c =
     (if c + 8 \<le> length b then Inr (word_of_nat (le_val (take 8 (drop c b))))
      else Inl (Ub ''load beyond the input''))"

definition name_word :: "bytes \<Rightarrow> u64" where
  "name_word name = word_of_nat (le_val (name @ replicate (8 - length name) 0))"

definition name_mask :: "bytes \<Rightarrow> u64" where
  "name_mask name = (if length name = 8 then - 1 else push_bit (8 * length name) 1 - 1)"

definition word_eq :: "bytes \<Rightarrow> nat \<Rightarrow> nat \<Rightarrow> u64 \<Rightarrow> bytes \<Rightarrow> bool res" where
  "word_eq b kp kl w name =
     (if length name \<le> 8 then Inr (kl = length name \<and> and w (name_mask name) = name_word name)
      else keyeq b kp kl name)"

text \<open>The field a key selects, \<open>None\<close> for the block that skips the value.\<close>

definition dispatch :: "field list \<Rightarrow> bytes \<Rightarrow> nat \<Rightarrow> nat \<Rightarrow> nat \<Rightarrow> nat option res" where
  "dispatch fs b e kp kl =
     (if SWITCH_MIN_FIELDS \<le> length fs
      then chain (\<lambda>f. keyeq b kp kl (f_name f)) (bucket fs kl)
      else if kp + 8 \<le> e
      then bindR (load_word b kp) (\<lambda>w. chain (\<lambda>f. word_eq b kp kl w (f_name f)) (enumerate 0 fs))
      else chain (\<lambda>f. keyeq b kp kl (f_name f)) (enumerate 0 fs))"

section \<open>Stores\<close>

definition store_width :: "nat \<Rightarrow> nat" where
  "store_width n = (if n = 1 \<or> n = 2 \<or> n = 4 then n else 8)"

definition store_sized :: "addr \<Rightarrow> u64 \<Rightarrow> nat \<Rightarrow> heap \<Rightarrow> heap" where
  "store_sized dst v n h = write_bytes dst (le_bytes (store_width n) (unat v)) h"

definition store_imm :: "addr \<Rightarrow> nat \<Rightarrow> nat \<Rightarrow> nat \<Rightarrow> heap \<Rightarrow> heap" where
  "store_imm dst off v sz h = write_bytes (dst + off) (le_bytes (store_width sz) v) h"

definition store_at :: "addr \<Rightarrow> nat \<Rightarrow> nat \<Rightarrow> heap \<Rightarrow> heap" where
  "store_at base off v h = write_word (base + off) v h"

text \<open>The unrolled zeroing: 8-byte stores, then at most one each of 4, 2 and 1.\<close>

fun zero_words :: "addr \<Rightarrow> nat \<Rightarrow> nat \<Rightarrow> heap \<Rightarrow> nat \<times> nat \<times> heap" where
  "zero_words dst off rem h =
     (if 8 \<le> rem then zero_words dst (off + 8) (rem - 8) (write_bytes (dst + off) (replicate 8 0) h)
      else (off, rem, h))"

declare zero_words.simps [simp del]

definition zero_chunk :: "addr \<Rightarrow> nat \<Rightarrow> nat \<times> nat \<times> heap \<Rightarrow> nat \<times> nat \<times> heap" where
  "zero_chunk dst w s = (case s of (off, rem, h) \<Rightarrow>
     if w \<le> rem then (off + w, rem - w, write_bytes (dst + off) (replicate w 0) h) else (off, rem, h))"

definition memset0 :: "addr \<Rightarrow> nat \<Rightarrow> heap \<Rightarrow> heap" where
  "memset0 dst sz h =
     snd (snd (zero_chunk dst 1 (zero_chunk dst 2 (zero_chunk dst 4 (zero_words dst 0 sz h)))))"

section \<open>Values\<close>

text \<open>
  An element parser takes a destination and a cursor. The loops of objects, vectors and maps
  call it and have fuel of their own, one unit per iteration.
\<close>

type_synonym parser = "addr \<Rightarrow> nat \<Rightarrow> heap \<Rightarrow> (nat \<times> heap) res"

text \<open>\<^verbatim>\<open>select(is_comma, c + 1, c)\<close> behind an element: the comma is optional.\<close>

definition opt_comma :: "bytes \<Rightarrow> nat \<Rightarrow> nat \<Rightarrow> nat res" where
  "opt_comma b e c =
     bindR (ws b e c) (\<lambda>c. bindR (load_u8 b c) (\<lambda>v. Inr (if v = COMMA then c + 1 else c)))"

definition none_default :: "addr \<Rightarrow> field \<Rightarrow> heap \<Rightarrow> heap" where
  "none_default dst f h = (case f_ty f of
      TOpt disc_off ds nd sd payload_off sz t \<Rightarrow>
        store_imm (dst + f_offset f) disc_off nd ds (memset0 (dst + f_offset f) sz h)
    | _ \<Rightarrow> h)"

fun struct_loop ::
  "nat \<Rightarrow> (ty \<Rightarrow> parser) \<Rightarrow> ext_ops \<Rightarrow> bytes \<Rightarrow> nat \<Rightarrow> field list \<Rightarrow> parser" where
  "struct_loop 0 pv F b e fs dst hc h = Inl OutOfFuel"
| "struct_loop (Suc n) pv F b e fs dst hc h =
     bindR (ws b e hc) (\<lambda>hc.
     bindR (load_u8 b hc) (\<lambda>bch.
       if bch = RBRACE then Inr (hc + 1, h)
       else
         bindR (strspan F b e hc) (\<lambda>(kp, kl, c, esc).
         bindR (ws b e c) (\<lambda>c.
         let c = c + 1 in
         bindR (dispatch fs b e kp kl) (\<lambda>sel.
         bindR (case sel of
             Some i \<Rightarrow> pv (f_ty (fs ! i)) (dst + f_offset (fs ! i)) c h
           | None \<Rightarrow> bindR (rt_skip b e c) (\<lambda>c. Inr (c, h))) (\<lambda>(ac, h).
         bindR (opt_comma b e ac) (\<lambda>ac.
           struct_loop n pv F b e fs dst ac h)))))))"

definition parse_struct ::
  "nat \<Rightarrow> (ty \<Rightarrow> parser) \<Rightarrow> ext_ops \<Rightarrow> bytes \<Rightarrow> nat \<Rightarrow> field list \<Rightarrow> parser" where
  "parse_struct n pv F b e fs dst cur h =
     bindR (ws b e cur) (\<lambda>cur.
       struct_loop n pv F b e fs dst (cur + 1) (fold (none_default dst) fs h))"

definition parse_tuple :: "(ty \<Rightarrow> parser) \<Rightarrow> bytes \<Rightarrow> nat \<Rightarrow> field list \<Rightarrow> parser" where
  "parse_tuple pv b e fs dst cur h =
     bindR (ws b e cur) (\<lambda>cur.
     bindR (fold_res (\<lambda>f (c, h).
         bindR (pv (f_ty f) (dst + f_offset f) c h) (\<lambda>(c, h).
         bindR (opt_comma b e c) (\<lambda>c. Inr (c, h)))) fs (cur + 1, h)) (\<lambda>(c, h).
     bindR (ws b e c) (\<lambda>c. Inr (c + 1, h))))"

text \<open>\<^verbatim>\<open>imul\<close> on 64-bit registers.\<close>

definition imul :: "nat \<Rightarrow> nat \<Rightarrow> nat" where
  "imul x y = x * y mod 2 ^ 64"

definition grow :: "nat \<Rightarrow> nat \<Rightarrow> nat \<Rightarrow> addr \<Rightarrow> nat \<Rightarrow> heap \<Rightarrow> (addr \<times> nat \<times> heap) res" where
  "grow len esz al base cap h =
     (if len = cap then
        let newcap = (if cap = 0 then 4 else imul cap 2) in
        bindR (rt_realloc base (imul cap esz) (imul newcap esz) al h) (\<lambda>(base, h). Inr (base, newcap, h))
      else Inr (base, cap, h))"

fun vec_loop ::
  "nat \<Rightarrow> parser \<Rightarrow> bytes \<Rightarrow> nat \<Rightarrow> nat \<Rightarrow> nat \<Rightarrow> nat \<Rightarrow> addr \<Rightarrow> nat \<Rightarrow> nat \<Rightarrow> heap \<Rightarrow>
   (nat \<times> addr \<times> nat \<times> nat \<times> heap) res" where
  "vec_loop 0 pv b e esz al hc base cap len h = Inl OutOfFuel"
| "vec_loop (Suc n) pv b e esz al hc base cap len h =
     bindR (ws b e hc) (\<lambda>hc.
     bindR (load_u8 b hc) (\<lambda>bch.
       if bch = RBRACKET then Inr (hc, base, cap, len, h)
       else
         bindR (grow len esz al base cap h) (\<lambda>(base, cap, h).
         bindR (pv (base + imul len esz) hc h) (\<lambda>(c, h).
         bindR (opt_comma b e c) (\<lambda>c.
           vec_loop n pv b e esz al c base cap (len + 1) h)))))"

definition parse_vec :: "nat \<Rightarrow> parser \<Rightarrow> bytes \<Rightarrow> nat \<Rightarrow> nat \<Rightarrow> nat \<Rightarrow> seq_layout \<Rightarrow> parser" where
  "parse_vec n pv b e esz elem_align q dst cur h =
     (let al = max elem_align 1 in
      bindR (ws b e cur) (\<lambda>cur.
      bindR (vec_loop n pv b e esz al (cur + 1) al 0 0 h) (\<lambda>(fc, base, cap, len, h).
      bindR (ws b e fc) (\<lambda>fc.
        Inr (fc + 1,
          store_at dst (len_off q) len (store_at dst (cap_off q) cap (store_at dst (ptr_off q) base h)))))))"

text \<open>A stack slot of the emitted function: memory nobody owns.\<close>

definition stack_slot :: "nat \<Rightarrow> heap \<Rightarrow> addr \<times> heap" where
  "stack_slot sz h = (let p = align_up (brk h) 8 in (p, h\<lparr>brk := p + max sz 1\<rparr>))"

fun map_loop ::
  "nat \<Rightarrow> parser \<Rightarrow> parser \<Rightarrow> ext_ops \<Rightarrow> bytes \<Rightarrow> nat \<Rightarrow> nat \<Rightarrow> addr \<Rightarrow> addr \<Rightarrow> parser" where
  "map_loop 0 pk pv F b e ins_at kaddr vaddr dst hc h = Inl OutOfFuel"
| "map_loop (Suc n) pk pv F b e ins_at kaddr vaddr dst hc h =
     bindR (ws b e hc) (\<lambda>hc.
     bindR (load_u8 b hc) (\<lambda>bch.
       if bch = RBRACE then Inr (hc + 1, h)
       else
         bindR (pk kaddr hc h) (\<lambda>(c, h).
         bindR (ws b e c) (\<lambda>c.
         bindR (pv vaddr (c + 1) h) (\<lambda>(c, h).
         bindR (call_addr F ins_at [dst, kaddr, vaddr] h) (\<lambda>h.
         bindR (opt_comma b e c) (\<lambda>c.
           map_loop n pk pv F b e ins_at kaddr vaddr dst c h)))))))"

definition parse_map ::
  "nat \<Rightarrow> parser \<Rightarrow> nat \<Rightarrow> parser \<Rightarrow> nat \<Rightarrow> nat \<Rightarrow> nat \<Rightarrow> ext_ops \<Rightarrow> bytes \<Rightarrow> nat \<Rightarrow> parser" where
  "parse_map n pk key_size pv val_size new_at ins_at F b e dst cur h =
     bindR (call_addr F new_at [dst] h) (\<lambda>h.
     let (kaddr, h) = stack_slot key_size h;
         (vaddr, h) = stack_slot val_size h in
     bindR (ws b e cur) (\<lambda>cur.
       map_loop n pk pv F b e ins_at kaddr vaddr dst (cur + 1) h))"

fun parse ::
  "nat \<Rightarrow> (cell_id \<rightharpoonup> ty) \<Rightarrow> ext_ops \<Rightarrow> bytes \<Rightarrow> nat \<Rightarrow> ty \<Rightarrow> parser" where
  "parse 0 C F b e t dst cur h = Inl OutOfFuel"
| "parse (Suc n) C F b e TBool dst cur h =
     bindR (ws b e cur) (\<lambda>c.
     bindR (load_u8 b c) (\<lambda>v.
       Inr (c + (if v = 0x66 then 5 else 4), write_bytes dst [of_bool (v = 0x74)] h)))"
| "parse (Suc n) C F b e (TU w) dst cur h =
     bindR (intval b e cur False) (\<lambda>(v, c). Inr (c, store_sized dst v w h))"
| "parse (Suc n) C F b e (TI w) dst cur h =
     bindR (intval b e cur True) (\<lambda>(v, c). Inr (c, store_sized dst v w h))"
| "parse (Suc n) C F b e TF32 dst cur h =
     bindR (rt_f64v F b e cur) (\<lambda>(x, c). Inr (c, write_bytes dst (le_bytes 4 (unat (demote F x))) h))"
| "parse (Suc n) C F b e TF64 dst cur h =
     bindR (rt_f64v F b e cur) (\<lambda>(x, c). Inr (c, write_bytes dst (le_bytes 8 (unat x)) h))"
| "parse (Suc n) C F b e TChar dst cur h =
     bindR (strspan F b e cur) (\<lambda>(sp, sl, c, esc).
     bindR (load_u8 b sp) (\<lambda>ch. Inr (c, write_bytes dst (le_bytes 4 (unat ch)) h)))"
| "parse (Suc n) C F b e (TStr q) dst cur h =
     bindR (strspan F b e cur) (\<lambda>(sp, sl, c, esc).
     bindR (build_str b sp sl esc h) (\<lambda>(buf, blen, h).
       Inr (c, store_at dst (len_off q) blen (store_at dst (cap_off q) blen (store_at dst (ptr_off q) buf h)))))"
| "parse (Suc n) C F b e (TStrRef po lo) dst cur h =
     bindR (strspan F b e cur) (\<lambda>(sp, sl, c, esc).
     bindR (build_str b sp sl esc h) (\<lambda>(buf, blen, h).
       Inr (c, store_at dst lo blen (store_at dst po buf h))))"
| "parse (Suc n) C F b e (TStruct nm fs) dst cur h = parse_struct n (parse n C F b e) F b e fs dst cur h"
| "parse (Suc n) C F b e (TTuple fs) dst cur h = parse_tuple (parse n C F b e) b e fs dst cur h"
| "parse (Suc n) C F b e (TVec t esz al q) dst cur h =
     parse_vec n (parse n C F b e t) b e esz al q dst cur h"
| "parse (Suc n) C F b e (TBoxed t sz al) dst cur h =
     bindR (rt_box_alloc sz al h) (\<lambda>(bp, h).
     bindR (parse n C F b e t bp cur h) (\<lambda>(after, h). Inr (after, write_word dst bp h)))"
| "parse (Suc n) C F b e TUnit dst cur h = bindR (rt_skip b e cur) (\<lambda>c. Inr (c, h))"
| "parse (Suc n) C F b e (TOpt disc_off ds nd sd payload_off sz t) dst cur h =
     bindR (ws b e cur) (\<lambda>c.
     bindR (load_u8 b c) (\<lambda>v.
       if v = 0x6E then Inr (c + 4, store_imm dst disc_off nd ds (memset0 dst sz h))
       else
         bindR (parse n C F b e t (dst + payload_off) c h) (\<lambda>(c, h).
           Inr (c, case sd of Some d \<Rightarrow> store_imm dst disc_off d ds h | None \<Rightarrow> h))))"
| "parse (Suc n) C F b e (TMap k ks v vs na ins) dst cur h =
     parse_map n (parse n C F b e k) ks (parse n C F b e v) vs na ins F b e dst cur h"
| "parse (Suc n) C F b e (TRef c) dst cur h = bindR (cell_get C c) (\<lambda>t. parse n C F b e t dst cur h)"
| "parse (Suc n) C F b e (TUnknown w) dst cur h = Inl (Panic ''jit parser: unknown type'')"

section \<open>Compilation\<close>

text \<open>
  \<open>collect_cells\<close> walks a layout and, through the cells, the bodies of the back-edges it meets:
  \<open>seen\<close> is the hash set of cell identities, \<open>out\<close> the vector of cells in discovery order.
\<close>

fun collect_cells ::
  "nat \<Rightarrow> (cell_id \<rightharpoonup> ty) \<Rightarrow> ty \<Rightarrow> cell_id set \<times> cell_id list \<Rightarrow> (cell_id set \<times> cell_id list) res" where
  "collect_cells 0 C t s = Inl OutOfFuel"
| "collect_cells (Suc n) C t (seen, out) =
     (case t of
        TRef c \<Rightarrow>
          if c \<in> seen then Inr (seen, out)
          else bindR (cell_get C c) (\<lambda>body. collect_cells n C body (Set.insert c seen, out @ [c]))
      | _ \<Rightarrow> fold_res (collect_cells n C) (sub_tys t) (seen, out))"

text \<open>The emitter panics, at compile time, on a layout that mentions an unknown type.\<close>

function known :: "ty \<Rightarrow> bool" where
  "known t = (case t of TUnknown _ \<Rightarrow> False | _ \<Rightarrow> list_all known (sub_tys t))"
  by pat_completeness auto
termination
  by (relation "measure size") (auto simp: size_f_ty split: ty.splits)

declare known.simps [simp del]

definition emit_one :: "ty \<Rightarrow> unit res" where
  "emit_one t = (if known t then Inr () else Inl (Panic ''jit parser: unknown type''))"

text \<open>
  \<open>compile_parser\<close>: one function per cell, then the parser proper. What it returns, run on a
  destination and an input of \<open>len\<close> bytes, is \<open>parse\<close> from cursor 0.
\<close>

type_synonym compiled = "nat \<Rightarrow> addr \<Rightarrow> bytes \<Rightarrow> nat \<Rightarrow> heap \<Rightarrow> heap res"

definition compile_parser :: "nat \<Rightarrow> (cell_id \<rightharpoonup> ty) \<Rightarrow> ext_ops \<Rightarrow> ty \<Rightarrow> compiled res" where
  "compile_parser n C F t =
     bindR (collect_cells n C t ({}, [])) (\<lambda>(seen, cells).
     bindR (map_res (\<lambda>c. bindR (cell_get C c) emit_one) cells) (\<lambda>_.
     bindR (emit_one t) (\<lambda>_.
       Inr (\<lambda>fuel dst b len h.
         bindR (parse fuel C F b len t dst 0 h) (\<lambda>(_, h). Inr h)))))"

end
