(* ===== verification/Jit_Scan.thy ===== *)
theory Jit_Scan
  imports Jit Json_Text
begin

text \<open>
  The scanning code of the compiled parsers: whitespace, strings, keys, integers, skipped
  values and escapes, each shown to compute what its loop-free specification says.
\<close>

section \<open>Slices and whitespace\<close>

text \<open>\<open>view b e i r\<close>: from the cursor \<open>i\<close> on, up to the end of the input, the bytes \<open>r\<close>.\<close>

definition view :: "bytes \<Rightarrow> nat \<Rightarrow> nat \<Rightarrow> bytes \<Rightarrow> bool" where
  "view b e i r \<longleftrightarrow> i \<le> e \<and> e \<le> length b \<and> take (e - i) (drop i b) = r"

lemma view_Cons:
  assumes "view b e i (c # r)"
  shows "i < e" and "load_u8 b i = Inr c" and "view b e (Suc i) r"
proof -
  have t: "take (e - i) (drop i b) = c # r" "i \<le> e" "e \<le> length b" using assms by (auto simp: view_def)
  show "i < e"
  proof (rule ccontr)
    assume "\<not> i < e"
    then show False using t by simp
  qed
  then have d: "drop i b = b ! i # drop (Suc i) b" using t by (simp add: Cons_nth_drop_Suc)
  moreover obtain k where k: "e - i = Suc k" using \<open>i < e\<close> by (cases "e - i") auto
  ultimately have "b ! i = c" "take k (drop (Suc i) b) = r" using t by auto
  moreover have "k = e - Suc i" using k by simp
  ultimately show "load_u8 b i = Inr c" "view b e (Suc i) r"
    using \<open>i < e\<close> t by (auto simp: load_u8_def view_def)
qed

lemma view_append: "view b e i (xs @ r) \<Longrightarrow> view b e (i + length xs) r"
proof (induction xs arbitrary: i)
  case (Cons x xs)
  then show ?case using view_Cons(3) [of b e i x "xs @ r"] by fastforce
qed simp

lemma view_nil: "view b e i [] \<Longrightarrow> i = e"
  by (auto simp: view_def)

lemma view_length: "view b e i r \<Longrightarrow> i + length r = e"
  by (auto simp: view_def)

lemma view_bytes: "view b e i (xs @ r) \<Longrightarrow> take (length xs) (drop i b) = xs"
proof -
  assume v: "view b e i (xs @ r)"
  have "length xs \<le> e - i" using view_length [OF v] by simp
  then have "take (length xs) (take (e - i) (drop i b)) = take (length xs) (drop i b)"
    by (simp add: min_def)
  moreover have "take (length xs) (take (e - i) (drop i b)) = xs" using v by (simp add: view_def del: take_take)
  ultimately show ?thesis by simp
qed

lemma view_slice: "view b e i r \<Longrightarrow> raw_slice b i (e - i) = Inr r"
  by (auto simp: view_def raw_slice_def)

lemma rt_wsskip_view:
  assumes "view b e i (w @ r)" and "list_all (\<lambda>v. v \<le> 0x20) w" and "case r of [] \<Rightarrow> True | c # _ \<Rightarrow> 0x20 < c"
  shows "rt_wsskip b e i = Inr (i + length w)"
proof -
  have "position (\<lambda>v. 0x20 < v) (w @ r) = (case r of [] \<Rightarrow> None | _ \<Rightarrow> Some (length w))"
    using assms(2,3) by (induction w) (auto split: list.splits)
  then show ?thesis
    using view_slice [OF assms(1)] view_length [OF assms(1)]
    by (auto simp: rt_wsskip_def split: list.splits)
qed

lemma peel_ws_view:
  "view b e i (v # r) \<Longrightarrow> peel_ws b e i = Inr (if v \<le> 0x20 then (True, i + 1) else (False, i))"
  "view b e i [] \<Longrightarrow> peel_ws b e i = Inr (False, i)"
  using view_Cons(1,2) [of b e i v r] view_nil [of b e i] by (auto simp: peel_ws_def)

text \<open>\<open>ws\<close> skips a run of bytes up to the space character, and stops at the next token or the end.\<close>

lemma ws_view:
  assumes v: "view b e i (w @ r)" and w: "list_all (\<lambda>v. v \<le> 0x20) w"
    and r: "case r of [] \<Rightarrow> True | c # _ \<Rightarrow> 0x20 < c"
  shows "ws b e i = Inr (i + length w)"
proof -
  have stop: "peel_ws b e j = Inr (False, j)" if "view b e j r" for j
    using that r by (cases r) (auto simp: peel_ws_view)
  show ?thesis
  proof (cases w)
    case Nil
    then show ?thesis using v stop by (simp add: ws_def)
  next
    case (Cons x w1)
    have x: "peel_ws b e i = Inr (True, Suc i)" "view b e (Suc i) (w1 @ r)"
      using v w Cons view_Cons(3) by (auto simp: peel_ws_view)
    show ?thesis
    proof (cases w1)
      case Nil
      then show ?thesis using x stop Cons by (simp add: ws_def)
    next
      case (Cons y w2)
      have y: "peel_ws b e (Suc i) = Inr (True, Suc (Suc i))" "view b e (Suc (Suc i)) (w2 @ r)"
        using x(2) w \<open>w = x # w1\<close> Cons view_Cons(3) by (auto simp: peel_ws_view)
      have "rt_wsskip b e (Suc (Suc i)) = Inr (Suc (Suc i) + length w2)"
        by (rule rt_wsskip_view [OF y(2) _ r]) (use w \<open>w = x # w1\<close> Cons in simp)
      then show ?thesis using x y \<open>w = x # w1\<close> Cons by (simp add: ws_def)
    qed
  qed
qed

lemma ws_byte_le: "list_all ws_byte w \<Longrightarrow> list_all (\<lambda>v. v \<le> 0x20) w"
  by (induction w) (auto simp: ws_byte_def)

lemma isws_ws_byte: "isws c \<longleftrightarrow> ws_byte c"
  by (auto simp: isws_def ws_byte_def)

lemma rt_ws_view:
  "view b e i (w @ r) \<Longrightarrow> list_all ws_byte w \<Longrightarrow> (case r of [] \<Rightarrow> True | c # _ \<Rightarrow> \<not> ws_byte c) \<Longrightarrow>
   rt_ws b e i = Inr (i + length w)"
proof (induction w arbitrary: i)
  case Nil
  then show ?case
    by (cases r) (auto simp: rt_ws.simps [of b e i] isws_ws_byte dest: view_Cons(1,2) view_nil)
next
  case (Cons x w)
  have "i < e" "load_u8 b i = Inr x" "view b e (Suc i) (w @ r)"
    using Cons.prems(1) view_Cons by auto
  then show ?case using Cons by (simp add: rt_ws.simps [of b e i] isws_ws_byte)
qed

lemma delim_gt: "0x20 < QUOTE" "0x20 < LBRACE" "0x20 < RBRACE" "0x20 < LBRACKET" "0x20 < RBRACKET"
  "0x20 < COMMA" "0x20 < COLON"
  by simp_all

lemma value_start_gt: "value_start c \<Longrightarrow> 0x20 < c"
  using less_le_trans [of "0x20" "0x30" c] by (auto simp: value_start_def num_char_def is_digit_def)

section \<open>Strings\<close>

text \<open>A body without the closing quote: the escape flag is set exactly when it has a backslash.\<close>

definition has_escape :: "bytes \<Rightarrow> bool" where
  "has_escape bd \<longleftrightarrow> BACKSLASH \<in> set bd"

lemma strscan_quote:
  assumes F: "memchr2_ok F" and v: "view b e i (raw @ QUOTE # r)" and raw: "list_all raw_char raw"
  shows "strscan_loop F b e s i esc = Inr (i + length raw - s, esc, Suc (i + length raw))"
proof -
  have "position (\<lambda>c. c = QUOTE \<or> c = BACKSLASH) (raw @ QUOTE # r) = Some (length raw)"
    using raw by (induction raw) (auto simp: raw_char_def)
  moreover have "load_u8 b (i + length raw) = Inr QUOTE" using view_Cons(2) [OF view_append [OF v]] .
  ultimately show ?thesis
    using view_slice [OF v] F by (simp add: strscan_loop.simps [of F b e s i] memchr2_ok_def Let_def)
qed

lemma strscan_escape:
  assumes F: "memchr2_ok F" and v: "view b e i (raw @ BACKSLASH # x # r)" and raw: "list_all raw_char raw"
  shows "strscan_loop F b e s i esc = strscan_loop F b e s (i + length raw + 2) True"
proof -
  have "position (\<lambda>c. c = QUOTE \<or> c = BACKSLASH) (raw @ BACKSLASH # x # r) = Some (length raw)"
    using raw by (induction raw) (auto simp: raw_char_def)
  moreover have "load_u8 b (i + length raw) = Inr BACKSLASH" using view_Cons(2) [OF view_append [OF v]] .
  moreover have "i + length raw + 2 \<le> e" using view_length [OF v] by simp
  ultimately show ?thesis
    using view_slice [OF v] F by (simp add: strscan_loop.simps [of F b e s i] memchr2_ok_def Let_def min_def)
qed

text \<open>Bodies are runs of raw bytes separated by two-byte escapes.\<close>

lemma body_split:
  assumes "body_val bd = Some s"
  obtains (raw) "list_all raw_char bd"
    | (esc) raw x bd' s' where "bd = raw @ BACKSLASH # x # bd'" "list_all raw_char raw" "simple_escape x"
        "body_val bd' = Some s'"
proof -
  have "list_all raw_char bd \<or> (\<exists>raw x bd' s'. bd = raw @ BACKSLASH # x # bd' \<and> list_all raw_char raw
      \<and> simple_escape x \<and> body_val bd' = Some s')"
    using assms
  proof (induction bd arbitrary: s)
    case (Cons c cs)
    show ?case
    proof (cases "c = BACKSLASH")
      case True
      then have "\<exists>x bd' s'. c # cs = [] @ BACKSLASH # x # bd' \<and> simple_escape x \<and> body_val bd' = Some s'"
        using Cons.prems by (auto split: list.splits if_splits)
      moreover have "list_all raw_char []" by simp
      ultimately show ?thesis by blast
    next
      case False
      then have c: "raw_char c" "\<exists>s'. body_val cs = Some s'"
        using Cons.prems by (auto simp: raw_char_def split: if_splits)
      then consider "list_all raw_char cs"
        | raw x bd' s' where "cs = raw @ BACKSLASH # x # bd'" "list_all raw_char raw" "simple_escape x"
            "body_val bd' = Some s'"
        using Cons.IH by blast
      then show ?thesis
      proof cases
        case 2
        then have "c # cs = (c # raw) @ BACKSLASH # x # bd'" "list_all raw_char (c # raw)" using c by auto
        then show ?thesis using 2 by blast
      qed (use c in simp)
    qed
  qed simp
  then show thesis using that by blast
qed

lemma strscan_body:
  assumes F: "memchr2_ok F"
  shows "view b e i (bd @ QUOTE # r) \<Longrightarrow> body_val bd = Some s \<Longrightarrow> q \<le> i \<Longrightarrow>
    strscan_loop F b e q i esc = Inr (i + length bd - q, esc \<or> has_escape bd, Suc (i + length bd))"
proof (induction "length bd" arbitrary: bd i s esc rule: less_induct)
  case less
  from less.prems(2) show ?case
  proof (cases rule: body_split)
    case raw
    then have "\<not> has_escape bd" by (auto simp: has_escape_def list_all_iff raw_char_def)
    then show ?thesis using strscan_quote [OF F less.prems(1) raw] by simp
  next
    case (esc raw x bd' s')
    have v: "view b e i (raw @ BACKSLASH # x # bd' @ QUOTE # r)" using less.prems(1) esc(1) by simp
    have v': "view b e (i + length raw + 2) (bd' @ QUOTE # r)"
      using view_append [of b e i "raw @ [BACKSLASH, x]"] v by simp
    have "strscan_loop F b e q (i + length raw + 2) True
        = Inr (i + length raw + 2 + length bd' - q, True, Suc (i + length raw + 2 + length bd'))"
      using less.hyps [OF _ v' esc(4), of True] esc(1) less.prems(3) by simp
    moreover have "has_escape bd" using esc(1) by (simp add: has_escape_def)
    ultimately show ?thesis using strscan_escape [OF F v esc(2)] esc(1) by simp
  qed
qed

lemma strspan_view:
  assumes F: "memchr2_ok F" and v: "view b e i (w @ QUOTE # bd @ QUOTE # r)" and w: "list_all ws_byte w"
    and bd: "body_val bd = Some s"
  shows "strspan F b e i
    = Inr (i + length w + 1, length bd, i + length w + length bd + 2, has_escape bd)"
proof -
  have "ws b e i = Inr (i + length w)" by (rule ws_view [OF v ws_byte_le [OF w]]) simp
  moreover have "view b e (Suc (i + length w)) (bd @ QUOTE # r)" using view_Cons(3) [OF view_append [OF v]] .
  then have "rt_strscan F b e (i + length w)
      = Inr (length bd, has_escape bd, Suc (Suc (i + length w) + length bd))"
    using strscan_body [OF F _ bd, of b e "Suc (i + length w)" r "Suc (i + length w)" False]
    by (simp add: rt_strscan_def)
  ultimately show ?thesis by (simp add: strspan_def)
qed

section \<open>Keys\<close>

lemma keyeq_prefix:
  "kp + k \<le> length b \<Longrightarrow>
   fold_res (\<lambda>i acc. bindR (load_u8 b (kp + i)) (\<lambda>v. Inr (acc \<and> v = name ! i))) [0..<k] acc
     = Inr (acc \<and> (\<forall>i < k. b ! (kp + i) = name ! i))"
proof (induction k)
  case (Suc k)
  then show ?case by (auto simp: fold_res_append load_u8_def less_Suc_eq)
qed simp

lemma keyeq_eq:
  assumes "kp + length name \<le> length b"
  shows "keyeq b kp kl name = Inr (kl = length name \<and> take (length name) (drop kp b) = name)"
proof -
  have "(\<forall>i < length name. b ! (kp + i) = name ! i) \<longleftrightarrow> take (length name) (drop kp b) = name"
    using assms by (auto simp: list_eq_iff_nth_eq)
  then show ?thesis using keyeq_prefix [OF assms] by (simp add: keyeq_def)
qed

lemma le_val_take: "le_val (take l xs) = le_val xs mod 256 ^ l"
proof (cases "l \<le> length xs")
  case True
  have "le_val xs = le_val (take l xs) + 256 ^ l * le_val (drop l xs)"
    using le_val_append [of "take l xs" "drop l xs"] True by simp
  moreover have "le_val (take l xs) < 256 ^ l" using le_val_lt [of "take l xs"] True by simp
  ultimately show ?thesis by simp
next
  case False
  have "le_val xs < 256 ^ length xs" by (rule le_val_lt)
  also have "\<dots> \<le> 256 ^ l" using False by (intro power_increasing) auto
  finally show ?thesis using False by simp
qed

lemma le_val_zeros: "le_val (xs @ replicate n 0) = le_val xs"
proof -
  have "le_val (replicate n 0) = 0" by (induction n) auto
  then show ?thesis by (simp add: le_val_append)
qed

lemma name_mask_eq: "length name \<le> 8 \<Longrightarrow> name_mask name = mask (8 * length name)"
  by (cases "length name = 8") (auto simp: name_mask_def mask_eq_exp_minus_1 push_bit_eq_mult)

text \<open>The masked word comparison decides equality of the key's bytes with the name.\<close>

lemma word_compare:
  fixes xs name :: bytes
  assumes xs: "length xs = 8" and l: "length name \<le> 8"
  shows "and (word_of_nat (le_val xs)) (name_mask name) = name_word name \<longleftrightarrow> take (length name) xs = name"
proof -
  let ?l = "length name"
  have x: "unat (word_of_nat (le_val xs) :: u64) = le_val xs"
    using le_val_lt [of xs] xs by (simp add: unat_of_nat)
  have n: "le_val name < 256 ^ ?l" by (rule le_val_lt)
  also have "\<dots> \<le> 256 ^ 8" by (rule power_increasing [OF l]) simp
  finally have nw: "unat (name_word name) = le_val name"
    by (simp add: name_word_def le_val_zeros unat_of_nat)
  have "unat (and (word_of_nat (le_val xs)) (name_mask name)) = take_bit (8 * ?l) (le_val xs)"
    using x l by (simp add: name_mask_eq unsigned_take_bit_eq flip: take_bit_eq_mask)
  then have "unat (and (word_of_nat (le_val xs)) (name_mask name)) = le_val xs mod 2 ^ (8 * ?l)"
    by (simp add: take_bit_eq_mod)
  also have "\<dots> = le_val (take ?l xs)" by (simp add: le_val_take power_mult)
  finally have "and (word_of_nat (le_val xs)) (name_mask name) = name_word name
      \<longleftrightarrow> le_val (take ?l xs) = le_val name"
    using nw by (simp add: word_unat_eq_iff)
  then show ?thesis using le_val_inj [of "take ?l xs" name] xs l by auto
qed

lemma word_eq_eq:
  assumes "kp + 8 \<le> length b" and "kp + length name \<le> length b"
    and w: "w = word_of_nat (le_val (take 8 (drop kp b)))"
  shows "word_eq b kp kl w name = Inr (kl = length name \<and> take (length name) (drop kp b) = name)"
proof (cases "length name \<le> 8")
  case True
  then have "take (length name) (take 8 (drop kp b)) = take (length name) (drop kp b)" by (simp add: min_def)
  then show ?thesis using True assms word_compare [of "take 8 (drop kp b)" name] by (simp add: word_eq_def)
qed (use assms in \<open>simp add: word_eq_def keyeq_eq\<close>)

text \<open>The field a key names: the first in field order.\<close>

definition field_named :: "field list \<Rightarrow> bytes \<Rightarrow> nat option" where
  "field_named fs key = position (\<lambda>f. f_name f = key) fs"

lemma chain_find:
  "(\<And>f. f \<in> snd ` set ifs \<Longrightarrow> cond f = Inr (P f)) \<Longrightarrow>
   chain cond ifs = Inr (map_option fst (find (\<lambda>(i, f). P f) ifs))"
proof (induction ifs)
  case (Cons x ifs)
  then show ?case by (cases x) auto
qed simp

lemma find_enumerate: "map_option fst (find (\<lambda>(i, f). P f) (enumerate n fs)) = map_option ((+) n) (position P fs)"
proof (induction fs arbitrary: n)
  case (Cons f fs)
  then show ?case by (auto simp: option.map_comp comp_def)
qed simp

lemma find_filter: "(\<And>x. x \<in> set xs \<Longrightarrow> P x \<Longrightarrow> Q x) \<Longrightarrow> find P (filter Q xs) = find P xs"
  by (induction xs) auto

lemma dispatch_named:
  assumes e: "e \<le> length b" and kl: "kp + kl \<le> e"
    and room: "\<And>f. f \<in> set fs \<Longrightarrow> kp + length (f_name f) \<le> length b"
  shows "dispatch fs b e kp kl = Inr (field_named fs (take kl (drop kp b)))"
proof -
  let ?key = "take kl (drop kp b)" and ?P = "\<lambda>f. f_name f = take kl (drop kp b)"
  have P: "(kl = length (f_name f) \<and> take (length (f_name f)) (drop kp b) = f_name f) = ?P f" for f
    using e kl by auto
  have mem: "snd ` set (enumerate 0 fs) = set fs" "snd ` set (bucket fs kl) \<subseteq> set fs"
    using list.set_map [of snd "enumerate 0 fs"] by (auto simp: bucket_def)
  have find: "map_option fst (find (\<lambda>(i, f). ?P f) (enumerate 0 fs)) = field_named fs ?key"
    unfolding find_enumerate field_named_def by (cases "position ?P fs") auto
  have kq: "keyeq b kp kl (f_name f) = Inr (?P f)" if "f \<in> set fs" for f
    using keyeq_eq [OF room [OF that], of kl] P by simp
  have slow: "chain (\<lambda>f. keyeq b kp kl (f_name f)) (enumerate 0 fs) = Inr (field_named fs ?key)"
    using chain_find [of "enumerate 0 fs" "\<lambda>f. keyeq b kp kl (f_name f)" ?P] kq mem find by simp
  have wide: "chain (\<lambda>f. keyeq b kp kl (f_name f)) (bucket fs kl) = Inr (field_named fs ?key)"
  proof -
    have "find (\<lambda>(i, f). ?P f) (bucket fs kl) = find (\<lambda>(i, f). ?P f) (enumerate 0 fs)"
      unfolding bucket_def using e kl by (intro find_filter) auto
    then show ?thesis
      using chain_find [of "bucket fs kl" "\<lambda>f. keyeq b kp kl (f_name f)" ?P] kq subsetD [OF mem(2)] find
      by simp
  qed
  have fast: "chain (\<lambda>f. word_eq b kp kl w (f_name f)) (enumerate 0 fs) = Inr (field_named fs ?key)"
    if "kp + 8 \<le> e" "w = word_of_nat (le_val (take 8 (drop kp b)))" for w
    using chain_find [of "enumerate 0 fs" "\<lambda>f. word_eq b kp kl w (f_name f)" ?P]
      word_eq_eq [OF _ room that(2), of _ kl] that(1) e mem find P by simp
  show ?thesis using wide slow fast e by (simp add: dispatch_def load_word_def)
qed

section \<open>Integers\<close>

lemma digit_word:
  fixes x :: byte
  shows "(ucast x :: u64) - 0x30 < 10 \<longleftrightarrow> is_digit x"
    and "is_digit x \<Longrightarrow> (ucast x :: u64) - 0x30 = word_of_nat (unat x - 0x30)"
proof -
  have u: "unat (ucast x :: u64) = unat x"
    using unat_byte_lt [of x] by (simp add: unsigned_ucast_eq take_bit_eq_mod del: unat_byte_lt)
  have sub: "unat ((ucast x :: u64) - 0x30) = (if 48 \<le> unat x then unat x - 48 else unat x + 2 ^ 64 - 48)"
    using u by (simp add: unat_sub_if')
  show "(ucast x :: u64) - 0x30 < 10 \<longleftrightarrow> is_digit x"
    using sub unat_byte_lt [of x] by (auto simp: is_digit_def word_less_nat_alt word_le_nat_alt)
  assume "is_digit x"
  then have "48 \<le> unat x" by (simp add: is_digit_def word_le_nat_alt)
  moreover have "unat x - 48 < 18446744073709551616" using unat_byte_lt [of x] by linarith
  ultimately show "(ucast x :: u64) - 0x30 = word_of_nat (unat x - 0x30)"
    using sub by (simp add: word_unat_eq_iff unat_of_nat del: of_nat_diff)
qed

lemma digits_val_Some: "digits_val k ds = Some m \<Longrightarrow> list_all is_digit ds"
  by (induction ds arbitrary: k) (auto split: if_splits)

lemma digits_view:
  "view b e i (ds @ r) \<Longrightarrow> digits_val k ds = Some m \<Longrightarrow> (case r of [] \<Rightarrow> True | c # _ \<Rightarrow> \<not> is_digit c) \<Longrightarrow>
   digits b e i (word_of_nat k) = Inr (i + length ds, word_of_nat m)"
proof (induction ds arbitrary: i k)
  case Nil
  then show ?case
    by (cases r) (auto simp: digits.simps [of b e i] Let_def digit_word(1) dest: view_Cons(1,2) view_nil)
next
  case (Cons x ds)
  have x: "is_digit x" "digits_val (10 * k + (unat x - 0x30)) ds = Some m"
    using Cons.prems(2) by (auto split: if_splits)
  have "i < e" "load_u8 b i = Inr x" "view b e (Suc i) (ds @ r)"
    using Cons.prems(1) view_Cons by auto
  moreover have "(word_of_nat k :: u64) * 10 + ((ucast x :: u64) - 0x30)
      = word_of_nat (10 * k + (unat x - 0x30))"
    using digit_word(2) [OF x(1)] by simp
  ultimately show ?case
    using Cons.IH [of "Suc i" "10 * k + (unat x - 0x30)"] x digit_word(1) [of x] Cons.prems(3)
    by (simp add: digits.simps [of b e i] Let_def mult.commute)
qed

text \<open>The sign and the digits of a decimal numeral.\<close>

lemma stops_digit: "stops r \<Longrightarrow> (case r of [] \<Rightarrow> True | c # _ \<Rightarrow> \<not> is_digit c)"
  by (auto simp: stops_def num_char_def split: list.splits)

lemma is_digit_facts: "is_digit c \<Longrightarrow> 0x20 < c" "is_digit c \<Longrightarrow> c \<noteq> PLUS" "is_digit c \<Longrightarrow> c \<noteq> MINUS"
  using less_le_trans [of "0x20" "0x30" c] by (auto simp: is_digit_def)

lemma numeral_cases:
  assumes "digits_val 0 ds = Some m" and "ds \<noteq> []" and "s = ds \<or> s = c # ds" and "c = PLUS \<or> c = MINUS"
  obtains x xs where "s = x # xs" "0x20 < x"
  using assms digits_val_Some [OF assms(1)] by (cases ds) (auto simp: is_digit_facts)

lemma intval_view:
  assumes v: "view b e i (w @ s @ r)" and w: "list_all ws_byte w" and r: "stops r"
    and ds: "digits_val 0 ds = Some m" "ds \<noteq> []"
    and s: "s = ds \<or> s = PLUS # ds \<or> sg \<and> s = MINUS # ds"
  shows "intval b e i sg
    = Inr (if sg \<and> s = MINUS # ds then - word_of_nat m else word_of_nat m, i + length w + length s)"
proof -
  obtain x xs where x: "s = x # xs" "0x20 < x" using numeral_cases [OF ds] s by metis
  have c: "ws b e i = Inr (i + length w)" by (rule ws_view [OF v ws_byte_le [OF w]]) (simp add: x)
  have vs: "view b e (i + length w) (s @ r)" by (rule view_append [OF v])
  have b0: "load_u8 b (i + length w) = Inr x" "view b e (Suc (i + length w)) (xs @ r)"
    using view_Cons(2,3) vs x(1) by auto
  have hd: "is_digit (hd ds)" using digits_val_Some [OF ds(1)] ds(2) by (cases ds) auto
  consider "s = ds" "x \<noteq> PLUS" "x \<noteq> MINUS" | "s = PLUS # ds" | "s = MINUS # ds" "sg"
    using s hd x is_digit_facts by (cases ds) fastforce+
  then show ?thesis
  proof cases
    case 1
    then show ?thesis using digits_view [OF _ ds(1) stops_digit [OF r], of b e "i + length w"] vs c b0 x
      by (auto simp: intval_def Let_def)
  next
    case 2
    then show ?thesis using digits_view [OF _ ds(1) stops_digit [OF r], of b e "Suc (i + length w)"] c b0 x
      by (auto simp: intval_def Let_def)
  next
    case 3
    then show ?thesis using digits_view [OF _ ds(1) stops_digit [OF r], of b e "Suc (i + length w)"] c b0 x
      by (auto simp: intval_def Let_def)
  qed
qed

end
