(* ===== verification/Jit_Escape.thy ===== *)
theory Jit_Escape
  imports Jit_Scan
begin

text \<open>
  Decoding of string bodies by \<^verbatim>\<open>rt_unescape\<close>, and skipping of unwanted values by \<^verbatim>\<open>rt_skip\<close>.
\<close>

section \<open>Escapes\<close>

lemma simple_escape_out: "simple_escape x \<Longrightarrow> escape_out x = unescape_byte x \<and> x \<noteq> 0x75"
  by (auto simp: simple_escape_def escape_out_def unescape_byte_def)

text \<open>On the bodies both backends accept, the decoder computes the same content.\<close>

lemma unescape_body:
  "drop i s = bd \<Longrightarrow> body_val bd = Some t \<Longrightarrow> unescape_loop s i out = Inr (out @ t)"
proof (induction bd arbitrary: i t out rule: body_val.induct)
  case 1
  then show ?case by (simp add: unescape_loop.simps [of s i])
next
  case (2 c cs)
  have i: "i < length s" "s ! i = c" "drop (Suc i) s = cs" using drop_ConsD [OF 2(3)] by auto
  show ?case
  proof (cases "c = BACKSLASH")
    case True
    then obtain x es t' where cs: "cs = x # es" "simple_escape x" "body_val es = Some t'" "t = unescape_byte x # t'"
      using 2(4) by (auto split: list.splits if_splits)
    then have "drop (Suc i) s = x # es" using i by simp
    note d = drop_ConsD [OF this]
    have "unescape_loop s (Suc (Suc i)) (out @ [unescape_byte x]) = Inr ((out @ [unescape_byte x]) @ t')"
      using 2(1) [of x es "Suc (Suc i)"] True cs d by simp
    then show ?thesis using i True d cs simple_escape_out [OF cs(2)]
      by (simp add: unescape_loop.simps [of s i] Let_def)
  next
    case False
    then obtain t' where t: "body_val cs = Some t'" "t = c # t'"
      using 2(4) by (auto split: if_splits)
    have "c \<noteq> QUOTE" using 2(4) by auto
    then have "unescape_loop s (Suc i) (out @ [c]) = Inr ((out @ [c]) @ t')"
      using 2(2) [OF _ False i(3) t(1)] by simp
    then show ?thesis using i False t by (simp add: unescape_loop.simps [of s i])
  qed
qed

text \<open>Hexadecimal digits.\<close>

definition hex_digit :: "nat \<Rightarrow> byte" where
  "hex_digit k = (if k < 10 then word_of_nat (0x30 + k) else word_of_nat (0x61 + (k - 10)))"

definition hex4 :: "nat \<Rightarrow> bytes" where
  "hex4 k = [hex_digit (k div 4096 mod 16), hex_digit (k div 256 mod 16), hex_digit (k div 16 mod 16),
     hex_digit (k mod 16)]"

lemma hex_hex_digit: "k < 16 \<Longrightarrow> hex (hex_digit k) = k"
proof -
  assume "k < 16"
  moreover have "list_all (\<lambda>k. hex (hex_digit k) = k) [0..<16]"
    by (simp add: upt_rec hex_def hex_digit_def)
  ultimately show ?thesis by (simp add: list_all_iff)
qed

lemma idx_ConsD: "drop i s = x # xs \<Longrightarrow> idx s i = Inr x"
  using drop_ConsD [of i s x xs] by simp

lemma u4_digits:
  assumes "drop i s = hex_digit x # hex_digit y # hex_digit z # hex_digit u # r"
    and "x < 16" "y < 16" "z < 16" "u < 16"
  shows "u4 s i = Inr (x * 4096 + y * 256 + z * 16 + u)"
proof -
  note d1 = drop_ConsD(3) [OF assms(1)] and d2 = drop_ConsD(3) [OF drop_ConsD(3) [OF assms(1)]]
  show ?thesis
    using idx_ConsD [OF assms(1)] idx_ConsD [OF d1] idx_ConsD [OF d2] idx_ConsD [OF drop_ConsD(3) [OF d2]]
      assms(2-5)
    by (simp add: u4_def hex_hex_digit numeral_2_eq_2 numeral_3_eq_3)
qed

lemma u4_hex4:
  assumes "drop i s = hex4 k @ r" and k: "k < 0x10000"
  shows "u4 s i = Inr k"
proof -
  have "k div 4096 mod 16 = k div 4096" using k by simp
  moreover have "k div 16 div 16 = k div 256" "k div 256 div 16 = k div 4096"
    by (simp_all flip: div_mult2_eq)
  ultimately have "k div 4096 mod 16 * 4096 + k div 256 mod 16 * 256 + k div 16 mod 16 * 16 + k mod 16 = k"
    using div_mult_mod_eq [of k 16] div_mult_mod_eq [of "k div 16" 16] div_mult_mod_eq [of "k div 256" 16]
    by linarith
  moreover have "u4 s i
      = Inr (k div 4096 mod 16 * 4096 + k div 256 mod 16 * 256 + k div 16 mod 16 * 16 + k mod 16)"
    by (rule u4_digits) (use assms(1) in \<open>simp_all add: hex4_def\<close>)
  ultimately show ?thesis by metis
qed

text \<open>
  The escape of a scalar value: one unit below \<^verbatim>\<open>0x10000\<close>, a surrogate pair above. Decoding it gives
  the character's UTF-8 encoding.
\<close>

definition unicode_units :: "nat \<Rightarrow> bytes" where
  "unicode_units c =
     (if c < 0x10000 then [BACKSLASH, 0x75] @ hex4 c
      else [BACKSLASH, 0x75] @ hex4 (0xD800 + (c - 0x10000) div 1024)
        @ [BACKSLASH, 0x75] @ hex4 (0xDC00 + (c - 0x10000) mod 1024))"

lemma length_hex4 [simp]: "length (hex4 k) = 4"
  by (simp add: hex4_def)

lemma unicode_escape_unit:
  assumes d: "drop i s = 0x75 # hex4 c @ r" and c: "c < 0xD800 \<or> 0xDFFF < c" "c < 0x10000"
  shows "unicode_escape s i = Inr (c, i + 4)"
proof -
  have "u4 s (i + 1) = Inr c" using u4_hex4 [of "Suc i" s c r] drop_ConsD(3) [OF d] c by simp
  moreover have "\<not> (0xD800 \<le> c \<and> c \<le> 0xDBFF)" using c by linarith
  ultimately show ?thesis by (cases "0xD800 \<le> c") (simp_all add: unicode_escape_def Let_def)
qed

lemma unicode_escape_pair:
  assumes d: "drop i s = 0x75 # hex4 (0xD800 + k) @ BACKSLASH # 0x75 # hex4 (0xDC00 + l) @ r"
    and k: "k < 1024" and l: "l < 1024"
  shows "unicode_escape s i = Inr (0x10000 + k * 1024 + l, i + 10)"
proof -
  have d1: "drop (Suc i) s = hex4 (0xD800 + k) @ BACKSLASH # 0x75 # hex4 (0xDC00 + l) @ r"
    using drop_ConsD(3) [OF d] .
  have "i + 5 = Suc i + length (hex4 (0xD800 + k))" "i + 6 = Suc (i + 5)" "i + 7 = Suc (i + 6)" by simp_all
  note ix = this
  have d5: "drop (i + 5) s = BACKSLASH # 0x75 # hex4 (0xDC00 + l) @ r" using drop_appendD [OF d1] ix(1) by metis
  have d6: "drop (i + 6) s = 0x75 # hex4 (0xDC00 + l) @ r" using drop_ConsD(3) [OF d5] ix(2) by metis
  have d7: "drop (i + 7) s = hex4 (0xDC00 + l) @ r" using drop_ConsD(3) [OF d6] ix(3) by metis
  have "length (drop (i + 7) s) \<ge> 4" unfolding d7 by simp
  then have len: "i + 10 < length s" by simp
  have "u4 s (i + 1) = Inr (0xD800 + k)" using u4_hex4 [OF d1] k by simp
  moreover have "u4 s (i + 7) = Inr (0xDC00 + l)" using u4_hex4 [OF d7] l by simp
  moreover have "s ! (5 + i) = BACKSLASH" "s ! (6 + i) = 0x75"
    using drop_ConsD(2) [OF d5] drop_ConsD(2) [OF d6] by (simp_all add: add.commute)
  ultimately show ?thesis using k l len
    by (simp add: unicode_escape_def Let_def add.assoc)
qed

lemma unescape_unicode:
  assumes d: "drop i s = unicode_units c @ r" and c: "scalar c"
  shows "unescape_loop s i out = unescape_loop s (i + length (unicode_units c)) (out @ encode_utf8 c)"
proof -
  have d0: "drop i s = BACKSLASH # 0x75 # drop 2 (unicode_units c) @ r"
    using d by (auto simp: unicode_units_def)
  note b0 = drop_ConsD [OF d0] and b1 = drop_ConsD [OF drop_ConsD(3) [OF d0]]
  have "unicode_escape s (Suc i) = Inr (c, i + length (unicode_units c) - 1)"
  proof (cases "c < 0x10000")
    case True
    have "unicode_escape s (Suc i) = Inr (c, Suc i + 4)"
      using b0(3) c True by (intro unicode_escape_unit) (auto simp: unicode_units_def scalar_def)
    then show ?thesis using True by (simp add: unicode_units_def)
  next
    case False
    let ?k = "(c - 0x10000) div 1024" and ?l = "(c - 0x10000) mod 1024"
    have "c - 0x10000 < 0x100000" using c False by (auto simp: scalar_def)
    then have kl: "?k < 1024" "?l < 1024" by (auto simp: less_mult_imp_div_less)
    have "unicode_escape s (Suc i) = Inr (0x10000 + ?k * 1024 + ?l, Suc i + 10)"
      using b0(3) False kl by (intro unicode_escape_pair) (auto simp: unicode_units_def)
    moreover have "0x10000 + ?k * 1024 + ?l = c" using False div_mult_mod_eq [of "c - 0x10000" 1024] by linarith
    ultimately show ?thesis using False by (simp add: unicode_units_def)
  qed
  moreover have "Suc (i + length (unicode_units c) - 1) = i + length (unicode_units c)"
    by (simp add: unicode_units_def)
  ultimately show ?thesis
    using b0 b1 c by (simp add: unescape_loop.simps [of s i] Let_def push_char_def char_from_u32_def del: Suc_diff_1)
qed

section \<open>The decoded bytes are UTF-8\<close>

text \<open>\<open>units_ok\<close>: every \<^verbatim>\<open>\u\<close> is followed by four ASCII bytes, as JSON requires.\<close>

fun units_ok :: "bytes \<Rightarrow> bool" where
  "units_ok [] \<longleftrightarrow> True"
| "units_ok (c # cs) \<longleftrightarrow>
     (if c \<noteq> BACKSLASH then units_ok cs
      else case cs of
          [] \<Rightarrow> True
        | x # es \<Rightarrow>
            if x = 0x75 then 4 \<le> length es \<and> list_all (\<lambda>v. v < 0x80) (take 4 es) \<and> units_ok (drop 4 es)
            else units_ok es)"

lemma utf8_valid_drop_ascii:
  "utf8_valid (xs @ ys) \<Longrightarrow> list_all (\<lambda>v. v < 0x80) xs \<Longrightarrow> utf8_valid ys"
  by (induction xs) (auto simp del: utf8_valid.simps)

lemma u4_total: "i + 4 \<le> length s \<Longrightarrow> \<exists>k. u4 s i = Inr k"
  by (simp add: u4_def)

lemma push_char_valid: "utf8_valid (push_char k)"
proof -
  have "scalar 0xFFFD" by (simp add: scalar_def)
  then show ?thesis by (simp add: push_char_def char_from_u32_def utf8_valid_encode)
qed

lemma escape_out_valid:
  assumes "utf8_valid (x # es)"
  shows "utf8_valid (escape_out x # es)"
proof (cases "x < 0x80")
  case True
  then have "escape_out x < 0x80" by (auto simp: escape_out_def)
  then show ?thesis using assms True by (simp del: utf8_valid.simps)
next
  case False
  then have "escape_out x = x" by (auto simp: escape_out_def)
  then show ?thesis using assms by simp
qed

text \<open>What a \<^verbatim>\<open>\u\<close> escape consumes: one unit, or two when they are a surrogate pair.\<close>

lemma unicode_escape_consumes:
  assumes d: "drop i s = 0x75 # es" and ok: "4 \<le> length es" "list_all (\<lambda>v. v < 0x80) (take 4 es)"
    "units_ok (drop 4 es)" and v: "utf8_valid es"
  obtains k j where "unicode_escape s i = Inr (k, j)" "i < j" "units_ok (drop (Suc j) s)"
    "utf8_valid (drop (Suc j) s)"
proof -
  have es: "drop (Suc i) s = es" using drop_ConsD(3) [OF d] .
  have len: "i + 5 \<le> length s" using ok(1) drop_ConsD(1) [OF d] unfolding es [symmetric] by simp
  have d5: "drop (i + 5) s = drop 4 es" unfolding es [symmetric] by (simp add: add.commute)
  have v5: "utf8_valid (drop 4 es)"
    using utf8_valid_drop_ascii [of "take 4 es" "drop 4 es"] v ok(2) by simp
  obtain hi where hi: "u4 s (i + 1) = Inr hi" using u4_total [of "i + 1" s] len by auto
  show thesis
  proof (cases "0xD800 \<le> hi \<and> hi \<le> 0xDBFF \<and> i + 10 < length s \<and> s ! (i + 5) = BACKSLASH \<and> s ! (i + 6) = 0x75")
    case False
    then have "unicode_escape s i = Inr (hi, i + 4)"
      using hi by (auto simp: unicode_escape_def Let_def add.commute)
    then show thesis using that [of hi "i + 4"] ok(3) v5 d5 by (simp add: add.commute)
  next
    case True
    obtain lo where lo: "u4 s (i + 7) = Inr lo" using u4_total [of "i + 7" s] True by auto
    have "drop (i + 5) s = s ! (i + 5) # drop (i + 6) s" "drop (i + 6) s = s ! (i + 6) # drop (i + 7) s"
      using True Cons_nth_drop_Suc [of "i + 5" s] Cons_nth_drop_Suc [of "i + 6" s]
      by (auto simp: add.commute [of _ i])
    then have "drop (i + 5) s = BACKSLASH # 0x75 # drop (i + 7) s" using True by simp
    then have d7: "drop 4 es = BACKSLASH # 0x75 # drop (i + 7) s" using d5 by simp
    have ok7: "4 \<le> length (drop (i + 7) s)" "list_all (\<lambda>v. v < 0x80) (take 4 (drop (i + 7) s))"
      "units_ok (drop (i + 11) s)"
      using ok(3) unfolding d7 by (auto simp: add.commute)
    have "utf8_valid (drop (i + 7) s)" using v5 unfolding d7 by (simp del: utf8_valid.simps)
    then have v11: "utf8_valid (drop (i + 11) s)"
      using utf8_valid_drop_ascii [of "take 4 (drop (i + 7) s)" "drop (i + 11) s"] ok7(2)
        append_take_drop_id [of 4 "drop (i + 7) s"] by (simp add: add.commute)
    show thesis
    proof (cases "0xDC00 \<le> lo \<and> lo \<le> 0xDFFF")
      case lo_ok: True
      have "unicode_escape s i = Inr (0x10000 + (hi - 0xD800) * 1024 + (lo - 0xDC00), i + 10)"
        using hi lo True lo_ok by (simp add: unicode_escape_def Let_def add.commute)
      then show thesis using that [of _ "i + 10"] ok7(3) v11 by (simp add: add.commute)
    next
      case lo_bad: False
      have "unicode_escape s i = Inr (hi, i + 4)"
        using hi lo True lo_bad by (auto simp: unicode_escape_def Let_def add.commute)
      then show thesis using that [of hi "i + 4"] ok(3) v5 d5 by (simp add: add.commute)
    qed
  qed
qed

lemma unescape_valid:
  "units_ok (drop i s) \<Longrightarrow> utf8_valid (out @ drop i s) \<Longrightarrow>
   \<exists>out'. unescape_loop s i out = Inr out' \<and> utf8_valid out'"
proof (induction "length s - i" arbitrary: i out rule: less_induct)
  case less
  show ?case
  proof (cases "drop i s")
    case Nil
    then show ?thesis using less.prems by (simp add: unescape_loop.simps [of s i])
  next
    case (Cons c cs)
    note i = drop_ConsD [OF Cons]
    show ?thesis
    proof (cases "c = BACKSLASH")
      case False
      have "\<exists>out'. unescape_loop s (Suc i) (out @ [c]) = Inr out' \<and> utf8_valid out'"
        by (rule less.hyps) (use i False less.prems Cons in auto)
      then show ?thesis using i False by (simp add: unescape_loop.simps [of s i])
    next
      case True
      have out: "utf8_valid out" "utf8_valid cs"
        using utf8_valid_split [of out c cs] less.prems(2) Cons True by auto
      show ?thesis
      proof (cases cs)
        case Nil
        then have "length s \<le> Suc i" using i by simp
        then show ?thesis using i True out by (simp add: unescape_loop.simps [of s i] Let_def)
      next
        case (Cons x es)
        then have d: "drop (Suc i) s = x # es" using i by simp
        note si = drop_ConsD [OF d]
        show ?thesis
        proof (cases "x = 0x75")
          case u: True
          have ok: "4 \<le> length es" "list_all (\<lambda>v. v < 0x80) (take 4 es)" "units_ok (drop 4 es)" "utf8_valid es"
            using less.prems(1) \<open>drop i s = c # cs\<close> Cons True u out by (auto simp del: utf8_valid.simps)
          obtain k j where kj: "unicode_escape s (Suc i) = Inr (k, j)" "Suc i < j" "units_ok (drop (Suc j) s)"
            "utf8_valid (drop (Suc j) s)"
            using unicode_escape_consumes [OF d [unfolded u] ok] by metis
          have "\<exists>out'. unescape_loop s (Suc j) (out @ push_char k) = Inr out' \<and> utf8_valid out'"
          proof (rule less.hyps)
            show "length s - Suc j < length s - i" using kj(2) i(1) by linarith
            show "utf8_valid ((out @ push_char k) @ drop (Suc j) s)"
              using out(1) push_char_valid kj(4) by (simp add: utf8_valid_append)
          qed (rule kj(3))
          then show ?thesis using i True u si kj by (simp add: unescape_loop.simps [of s i] Let_def)
        next
          case False
          have "\<exists>out'. unescape_loop s (Suc (Suc i)) (out @ [escape_out x]) = Inr out' \<and> utf8_valid out'"
          proof (rule less.hyps)
            show "length s - Suc (Suc i) < length s - i" using i(1) by linarith
            show "units_ok (drop (Suc (Suc i)) s)"
              using less.prems(1) \<open>drop i s = c # cs\<close> Cons True False si by simp
            show "utf8_valid ((out @ [escape_out x]) @ drop (Suc (Suc i)) s)"
              using utf8_valid_append [OF out(1) escape_out_valid [of x es]] out(2) Cons si by simp
          qed
          then show ?thesis using i True False si by (simp add: unescape_loop.simps [of s i] Let_def)
        qed
      qed
    qed
  qed
qed

end
