(* ===== verification/Placed.thy ===== *)
theory Placed
  imports Bind
begin

text \<open>
  One lemma per layout constructor: when the parts of a value have been placed, the writes both
  backends make for the constructor place the whole. The backends differ in how they read
  JSON, not in these steps.
\<close>

lemma placed_ok: "placed C S t a v h h' \<Longrightarrow> heap_ok h'"
  by (auto simp: placed_def dest: extends_ok)

lemma placed_brk: "placed C S t a v h h' \<Longrightarrow> brk h \<le> brk h'"
  by (auto simp: placed_def dest: extends_brk)

lemma placed_fields_ok: "placed_fields C S fs a vs h h' \<Longrightarrow> heap_ok h'"
  by (auto simp: placed_fields_def dest: extends_ok)

lemma inside_mono: "inside S t a h \<Longrightarrow> brk h \<le> brk h' \<Longrightarrow> inside S t a h'"
  by (auto simp: inside_def)

lemma inside_field:
  assumes "inside S (TStruct nm fs) a h" and "f \<in> set fs"
  shows "inside S (f_ty f) (a + f_offset f) h"
  using assms span_field [OF assms(2), of S] by (fastforce simp: inside_def dst_bytes_def subset_iff)

lemma inside_tuple: "inside S (TTuple fs) a h \<longleftrightarrow> inside S (TStruct nm fs) a h"
  by (simp add: inside_def dst_bytes_def)

lemma inside_payload:
  "inside S (TOpt disc_off ds nd sd payload_off sz t) a h \<Longrightarrow> payload_off + span S t \<le> sz \<Longrightarrow>
   inside S t (a + payload_off) h"
  by (fastforce simp: inside_def dst_bytes_def subset_iff)

lemma inside_ref: "inside S (TRef c) a h \<Longrightarrow> C c = Some t \<Longrightarrow> cells_ok C S \<Longrightarrow> inside S t a h"
  by (fastforce simp: inside_def dst_bytes_def cells_ok_def shaped_def subset_iff)

section \<open>Scalars\<close>

lemma placed_write:
  assumes "heap_ok h" and "length bs = span S t"
    and "\<And>m. load m a (length bs) = bs \<Longrightarrow> holds C m t a v {#}"
  shows "placed C S t a v h (write_bytes a bs h)"
  unfolding placed_def using assms
  by (intro exI [of _ "{#}"] conjI extends_write) (auto simp: dst_bytes_def load_write_same)

lemma placed_bool: "heap_ok h \<Longrightarrow> placed C S TBool a (VBool b) h (write_bytes a [of_bool b] h)"
  by (rule placed_write) (auto simp: load_Suc intro!: holds_intros)

lemma placed_char: "heap_ok h \<Longrightarrow> scalar c \<Longrightarrow> placed C S TChar a (VChar c) h (write_bytes a (le_bytes 4 c) h)"
  by (rule placed_write) (auto intro!: holds_intros)

lemma placed_u:
  "heap_ok h \<Longrightarrow> k < 256 ^ n \<Longrightarrow> placed C S (TU n) a (VU k) h (write_bytes a (le_bytes n k) h)"
  by (rule placed_write) (auto intro!: holds_intros)

lemma placed_i:
  "heap_ok h \<Longrightarrow> - (256 ^ n div 2) \<le> k \<Longrightarrow> k < 256 ^ n div 2 \<Longrightarrow>
   placed C S (TI n) a (VI k) h (write_bytes a (le_bytes n (nat (k mod 256 ^ n))) h)"
  by (rule placed_write) (auto intro!: holds_intros)

lemma placed_f32: "heap_ok h \<Longrightarrow> placed C S TF32 a (VF32 w) h (write_bytes a (le_bytes 4 (unat w)) h)"
  by (rule placed_write) (auto intro!: holds_intros)

lemma placed_f64: "heap_ok h \<Longrightarrow> placed C S TF64 a (VF64 w) h (write_bytes a (le_bytes 8 (unat w)) h)"
  by (rule placed_write) (auto intro!: holds_intros)

lemma placed_unit: "heap_ok h \<Longrightarrow> placed C S TUnit a VUnit h h"
  by (auto simp: placed_def intro!: exI [of _ "{#}"] extends_refl holds_intros)

section \<open>Structs, tuples, options, back-edges, vectors\<close>

lemma fields_in_dst:
  "(\<Union>f \<in> set fs. dst_bytes S (f_ty f) (a + f_offset f)) \<subseteq> dst_bytes S (TStruct nm fs) a"
proof
  fix x assume "x \<in> (\<Union>f \<in> set fs. dst_bytes S (f_ty f) (a + f_offset f))"
  then obtain f where "f \<in> set fs" "a + f_offset f \<le> x" "x < a + f_offset f + span S (f_ty f)"
    by (auto simp: dst_bytes_def)
  with span_field [OF this(1), of S] show "x \<in> dst_bytes S (TStruct nm fs) a"
    by (simp add: dst_bytes_def)
qed

lemma placed_struct:
  assumes "placed_fields C S fs a vs h h'"
  shows "placed C S (TStruct nm fs) a (VStruct vs) h h'"
    and "placed C S (TTuple fs) a (VTuple vs) h h'"
proof -
  obtain B where B: "extends h h' (\<Union>f \<in> set fs. dst_bytes S (f_ty f) (a + f_offset f)) B"
    "brk h' \<le> 2 ^ 64 \<longrightarrow> holds_fields C (mem h') fs a vs B"
    using assms unfolding placed_fields_def by blast
  have e: "extends h h' (dst_bytes S (TStruct nm fs) a) B"
    by (rule extends_mono [OF B(1)]) (use fields_in_dst in blast)
  show "placed C S (TStruct nm fs) a (VStruct vs) h h'"
    unfolding placed_def using e B(2) by (auto intro!: exI [of _ B] holds_intros)
  have "dst_bytes S (TTuple fs) a = dst_bytes S (TStruct nm fs) a" by (simp add: dst_bytes_def)
  then show "placed C S (TTuple fs) a (VTuple vs) h h'"
    unfolding placed_def using e B(2) by (auto intro!: exI [of _ B] holds_intros)
qed

lemma placed_none:
  assumes "heap_ok h" and "disc_off + ds \<le> sz"
  shows "placed C S (TOpt disc_off ds nd sd payload_off sz t) a VNone h
    (write_bytes (a + disc_off) (le_bytes ds nd) (write_bytes a (replicate sz 0) h))"
  unfolding placed_def using assms
  by (intro exI [of _ "{#}"] conjI extends_then_write extends_refl impI holds_intros)
    (auto simp: dst_bytes_def load_write_same)

lemma placed_some_niche:
  assumes p: "placed C S t (a + payload_off) v h h'"
    and wf: "lay_ok S (TOpt disc_off ds nd None payload_off sz t)" "cells_ok C S"
  shows "placed C S (TOpt disc_off ds nd None payload_off sz t) a (VSome v) h h'"
proof -
  let ?t = "TOpt disc_off ds nd None payload_off sz t"
  obtain B where B: "extends h h' (dst_bytes S t (a + payload_off)) B"
    "brk h' \<le> 2 ^ 64 \<longrightarrow> holds C (mem h') t (a + payload_off) v B"
    by (rule placedE [OF p])
  have e: "extends h h' (dst_bytes S ?t a) B"
    by (rule extends_mono [OF B(1)]) (use wf in \<open>auto simp: dst_bytes_def\<close>)
  have "holds C (mem h') ?t a (VSome v) B" if "brk h' \<le> 2 ^ 64"
  proof (rule h_some_intro)
    have hv: "holds C (mem h') t (a + payload_off) v B" using B(2) that by simp
    moreover have "niche S t (disc_off - payload_off) ds nd" "payload_off \<le> disc_off" using wf by simp_all
    ultimately have "load (mem h') (a + payload_off + (disc_off - payload_off)) ds \<noteq> le_bytes ds nd"
      using holds_niche [OF wf(2)] by blast
    then have "load (mem h') (a + disc_off) ds \<noteq> le_bytes ds nd"
      using \<open>payload_off \<le> disc_off\<close> by simp
    then show "case None of Some d \<Rightarrow> load (mem h') (a + disc_off) ds = le_bytes ds d
      | None \<Rightarrow> load (mem h') (a + disc_off) ds \<noteq> le_bytes ds nd" by simp
    show "holds C (mem h') t (a + payload_off) v B" by (rule hv)
  qed
  with e show ?thesis unfolding placed_def by blast
qed

lemma placed_some_tag:
  assumes p: "placed C S t (a + payload_off) v h h'"
    and wf: "lay_ok S (TOpt disc_off ds nd (Some d) payload_off sz t)" "cells_ok C S"
    and dst: "inside S (TOpt disc_off ds nd (Some d) payload_off sz t) a h"
  shows "placed C S (TOpt disc_off ds nd (Some d) payload_off sz t) a (VSome v) h
    (write_bytes (a + disc_off) (le_bytes ds d) h')"
proof -
  let ?t = "TOpt disc_off ds nd (Some d) payload_off sz t"
  let ?h' = "write_bytes (a + disc_off) (le_bytes ds d) h'"
  obtain B where B: "extends h h' (dst_bytes S t (a + payload_off)) B"
    "brk h' \<le> 2 ^ 64 \<longrightarrow> holds C (mem h') t (a + payload_off) v B"
    by (rule placedE [OF p])
  have pin: "inside S t (a + payload_off) h" using inside_payload [OF dst] wf by simp
  have W: "a + disc_off + ds \<le> a + sz" using wf by simp
  have e: "extends h ?h' (dst_bytes S ?t a) B"
    by (intro extends_then_write extends_mono [OF B(1)]) (use wf W in \<open>auto simp: dst_bytes_def\<close>)
  have "holds C (mem ?h') ?t a (VSome v) B" if le: "brk h' \<le> 2 ^ 64"
  proof (rule h_some_intro)
    have wfi: "lay_ok S t" using wf by simp
    show "holds C (mem ?h') t (a + payload_off) v B"
    proof (rule keeps_holds [OF B(2) [rule_format, OF le] wf(2) wfi])
      show "fresh (brk h) (brk h') B" using B by (simp add: extends_def)
      show "extends h' ?h' {a + disc_off..<a + disc_off + ds} {#}"
        using extends_ok [OF B(1)] by (rule extends_write) simp
      show "dst_bytes S t (a + payload_off) \<subseteq> {..<brk h'}"
        using pin extends_brk [OF B(1)] by (auto simp: inside_def)
      show "x \<notin> dst_bytes S t (a + payload_off)" if "x \<in> {a + disc_off..<a + disc_off + ds}" for x
        using that wf by (auto simp: dst_bytes_def)
      show "x < brk h" if "x \<in> {a + disc_off..<a + disc_off + ds}" for x
        using that dst W by (auto simp: inside_def dst_bytes_def subset_iff)
    qed
  qed (simp add: load_write_same)
  with e show ?thesis unfolding placed_def by auto
qed

lemma placed_ref:
  assumes "placed C S t a v h h'" and "C c = Some t" and "cells_ok C S"
  shows "placed C S (TRef c) a v h h'"
proof -
  obtain B where B: "extends h h' (dst_bytes S t a) B" "brk h' \<le> 2 ^ 64 \<longrightarrow> holds C (mem h') t a v B"
    by (rule placedE [OF assms(1)])
  have "extends h h' (dst_bytes S (TRef c) a) B"
    by (rule extends_mono [OF B(1)]) (use assms in \<open>force simp: dst_bytes_def cells_ok_def shaped_def\<close>)
  then show ?thesis
    unfolding placed_def using B(2) assms(2) by (auto intro!: exI [of _ B] holds_intros)
qed

lemma placed_vec:
  assumes e: "extends h h2 {} (block_of p (cap * esz) (max 1 al) + B)"
    and hold: "brk h2 \<le> 2 ^ 64 \<longrightarrow> holds_elems C (mem h2) t esz p vs B"
    and p: "0 < p" "brk h2 \<le> 2 ^ 64 \<longrightarrow> p < 2 ^ 64" "max 1 al dvd p"
    and cap: "length vs \<le> cap" "cap < 2 ^ 63"
    and wf: "lay_ok S (TVec t esz al q)" "cells_ok C S" and dst: "inside S (TVec t esz al q) dst h"
  shows "placed C S (TVec t esz al q) dst (VVec vs) h (write_seq dst q p cap (length vs) h2)"
proof -
  let ?D = "dst_bytes S (TVec t esz al q) dst" and ?B = "block_of p (cap * esz) (max 1 al)"
  let ?h3 = "write_seq dst q p cap (length vs) h2"
  have D: "?D = {dst..<dst + seq_span q}" by (simp add: dst_bytes_def)
  have w: "extends h2 ?h3 ?D {#}" unfolding D using extends_ok [OF e] by (rule extends_write_seq)
  have e3: "extends h ?h3 ?D (?B + B + {#})" by (rule extends_trans [OF e w]) simp
  have keep: "mem ?h3 x = mem h2 x" if "x \<in> foot (?B + B)" for x
  proof -
    have "brk h \<le> x" "x < brk h2" using e that fresh_foot by (auto simp: extends_def)
    then show ?thesis using extends_same [OF w] dst by (force simp: inside_def)
  qed
  have "holds C (mem ?h3) (TVec t esz al q) dst (VVec vs) (?B + B)" if "brk h2 \<le> 2 ^ 64"
  proof (rule h_vec_intro)
    have wft: "lay_ok S t" "span S t \<le> esz" "seq_ok q" using wf by auto
    show "holds_elems C (mem ?h3) t esz p vs B"
    proof (rule holds_elems_move [OF _ wf(2) wft(1,2)])
      have "length vs * esz \<le> cap * esz" using cap by simp
      then show "same (mem h2) p (mem ?h3) p (length vs * esz)"
        by (intro same_foot [of "{p..<p + cap * esz}"]) (use keep in \<open>auto simp: foot_block\<close>)
    qed (use hold that keep in auto)
  qed (use p cap that wf in \<open>auto simp: write_seq_loads\<close>)
  with e3 show ?thesis unfolding placed_def by auto
qed

end
