(* ===== verification/Jit_Mem.thy ===== *)
theory Jit_Mem
  imports Jit_Escape Placed
begin

text \<open>
  The emitted memory operations: the small-copy ladder and the unrolled zeroing are one
  \<open>write_bytes\<close> each, the runtime allocators satisfy the buffer contract, and a built string is a
  filled buffer.
\<close>

section \<open>Overlapping copies\<close>

text \<open>Writing a chunk that starts inside, and ends behind, what has been copied extends the copy.\<close>

lemma write_extend:
  assumes "off \<le> k" and "k \<le> off + w" and "off + w \<le> length src"
  shows "write_bytes (dst + off) (take w (drop off src)) (write_bytes dst (take k src) h)
    = write_bytes dst (take (off + w) src) h"
proof (rule heap.equality)
  have "length (take w (drop off src)) = w" "length (take k src) = k" "length (take (off + w) src) = off + w"
    using assms by auto
  then show "mem (write_bytes (dst + off) (take w (drop off src)) (write_bytes dst (take k src) h))
    = mem (write_bytes dst (take (off + w) src) h)"
    using assms by (intro ext) (auto simp: mem_write_bytes nth_append)
qed simp_all

lemma cp_extend:
  assumes src: "src = take len (drop sp b)" "sp + len \<le> length b"
    and "off \<le> k" "k \<le> off + w" "off + w \<le> len"
  shows "cp b sp dst w off (write_bytes dst (take k src) h) = Inr (write_bytes dst (take (off + w) src) h)"
proof -
  have "take w (drop off src) = take w (drop (sp + off) b)"
    using assms by (simp add: drop_take add.commute min_def)
  then show ?thesis using write_extend [of off k w src dst h] assms by (simp add: cp_def)
qed

lemma copy_words_eq:
  assumes src: "src = take len (drop sp b)" "sp + len \<le> length b"
  shows "i \<le> len \<Longrightarrow> \<exists>k. i \<le> k \<and> k \<le> len \<and> len < k + 8
    \<and> copy_words b sp dst len i (write_bytes dst (take i src) h) = Inr (write_bytes dst (take k src) h)"
proof (induction "len - i" arbitrary: i rule: less_induct)
  case less
  show ?case
  proof (cases "i + 8 \<le> len")
    case True
    then have "len - (i + 8) < len - i" by linarith
    from less.hyps [OF this True] obtain k where "i + 8 \<le> k" "k \<le> len" "len < k + 8"
      "copy_words b sp dst len (i + 8) (write_bytes dst (take (i + 8) src) h) = Inr (write_bytes dst (take k src) h)"
      by auto
    then show ?thesis using cp_extend [OF src, of i i 8 dst h] True
      by (intro exI [of _ k]) (simp add: copy_words.simps [of b sp dst len i])
  qed (use less.prems in \<open>auto simp: copy_words.simps [of b sp dst len i]\<close>)
qed

lemma two_chunks:
  assumes src: "src = take len (drop sp b)" "sp + len \<le> length b" and w: "w \<le> len" "len \<le> 2 * w"
  shows "bindR (cp b sp dst w 0 h) (\<lambda>h. cp b sp dst w (len - w) h) = Inr (write_bytes dst src h)"
proof -
  have "cp b sp dst w 0 h = Inr (write_bytes dst (take w src) h)"
    using cp_extend [OF src, of 0 0 w dst h] w by simp
  moreover have "cp b sp dst w (len - w) (write_bytes dst (take w src) h) = Inr (write_bytes dst src h)"
    using cp_extend [OF src, of "len - w" w w dst h] w src by simp
  ultimately show ?thesis by simp
qed

lemma emit_copy_eq:
  assumes len: "sp + len \<le> length b"
  shows "emit_copy b dst sp len h = Inr (write_bytes dst (take len (drop sp b)) h)"
proof -
  let ?src = "take len (drop sp b)"
  consider "8 \<le> len" | "4 \<le> len" "len < 8" | "2 \<le> len" "len < 4" | "len = 1" | "len = 0" by linarith
  then show ?thesis
  proof cases
    case 1
    obtain k where k: "k \<le> len" "len < k + 8"
      "copy_words b sp dst len 0 (write_bytes dst (take 0 ?src) h) = Inr (write_bytes dst (take k ?src) h)"
      using copy_words_eq [OF refl len, of 0] by blast
    then show ?thesis using cp_extend [OF refl len, of "len - 8" k 8 dst h] 1 by (simp add: emit_copy_def)
  next
    case 2
    then show ?thesis using two_chunks [OF refl len, of 4] by (simp add: emit_copy_def)
  next
    case 3
    then show ?thesis using two_chunks [OF refl len, of 2] by (simp add: emit_copy_def)
  next
    case 4
    then show ?thesis using len by (simp add: emit_copy_def cp_def)
  next
    case 5
    then show ?thesis by (simp add: emit_copy_def)
  qed
qed

section \<open>Zeroing\<close>

lemma zero_extend:
  "write_bytes (dst + off) (replicate w 0) (write_bytes dst (replicate off 0) h)
    = write_bytes dst (replicate (off + w) 0) h"
  using write_extend [of off off w "replicate (off + w) 0" dst h] by (simp add: min_def)

lemma zero_words_eq:
  "zero_words dst off rem (write_bytes dst (replicate off 0) h)
    = (off + (rem - rem mod 8), rem mod 8, write_bytes dst (replicate (off + (rem - rem mod 8)) 0) h)"
proof (induction rem arbitrary: off rule: less_induct)
  case (less rem)
  show ?case
  proof (cases "8 \<le> rem")
    case True
    then have "rem mod 8 = (rem - 8) mod 8" "rem - 8 - (rem - 8) mod 8 + 8 = rem - rem mod 8"
      by (simp_all add: le_mod_geq)
    moreover have "(rem - 8) mod 8 \<le> rem - 8" by simp
    ultimately have "off + 8 + (rem - 8 - (rem - 8) mod 8) = off + (rem - rem mod 8)" by linarith
    then show ?thesis
      using less.IH [of "rem - 8" "off + 8"] True \<open>rem mod 8 = (rem - 8) mod 8\<close>
      by (simp add: zero_words.simps [of dst off] zero_extend [of dst off 8, simplified add.commute [of off]]
        add.commute [of off])
  next
    case False
    then show ?thesis by (simp add: zero_words.simps [of dst off])
  qed
qed

lemma zero_chunk_eq:
  "zero_chunk dst w (off, rem, write_bytes dst (replicate off 0) h)
    = (if w \<le> rem then (off + w, rem - w, write_bytes dst (replicate (off + w) 0) h)
       else (off, rem, write_bytes dst (replicate off 0) h))"
  by (simp add: zero_chunk_def zero_extend)

lemma memset0_eq: "memset0 dst sz h = write_bytes dst (replicate sz 0) h"
proof -
  let ?r = "sz mod 8"
  let ?o = "sz - ?r"
  have r: "?r < 8" "?r \<le> sz" by simp_all
  have "zero_words dst 0 sz h = (?o, ?r, write_bytes dst (replicate ?o 0) h)"
    using zero_words_eq [of dst 0 sz h] by simp
  then have m: "memset0 dst sz h = snd (snd (zero_chunk dst 1 (zero_chunk dst 2
      (zero_chunk dst 4 (?o, ?r, write_bytes dst (replicate ?o 0) h)))))"
    by (simp add: memset0_def)
  have "\<exists>o2 r2. zero_chunk dst 4 (?o, ?r, write_bytes dst (replicate ?o 0) h)
      = (o2, r2, write_bytes dst (replicate o2 0) h) \<and> r2 < 4 \<and> o2 + r2 = sz"
    using r by (auto simp: zero_chunk_eq)
  then obtain o2 r2 where c4: "zero_chunk dst 4 (?o, ?r, write_bytes dst (replicate ?o 0) h)
      = (o2, r2, write_bytes dst (replicate o2 0) h)" "r2 < 4" "o2 + r2 = sz" by blast
  then have "\<exists>o3 r3. zero_chunk dst 2 (o2, r2, write_bytes dst (replicate o2 0) h)
      = (o3, r3, write_bytes dst (replicate o3 0) h) \<and> r3 < 2 \<and> o3 + r3 = sz"
    by (auto simp: zero_chunk_eq)
  then obtain o3 r3 where c2: "zero_chunk dst 2 (o2, r2, write_bytes dst (replicate o2 0) h)
      = (o3, r3, write_bytes dst (replicate o3 0) h)" "r3 < 2" "o3 + r3 = sz" by blast
  have "snd (snd (zero_chunk dst 1 (o3, r3, write_bytes dst (replicate o3 0) h)))
      = write_bytes dst (replicate sz 0) h"
  proof (cases "r3 = 0")
    case False
    then have "r3 = 1" using c2(2) by simp
    then show ?thesis using c2(3) zero_chunk_eq [of dst 1 o3 1 h] by (metis order_refl snd_conv)
  qed (use c2(3) in \<open>simp add: zero_chunk_eq\<close>)
  then show ?thesis using m c4(1) c2(1) by simp
qed

section \<open>Buffers and strings\<close>

lemma new_block_ok:
  assumes "heap_ok h" and "is_pow2 al" and "sz \<noteq> 0" and "sz + (al - 1) < 2 ^ 63"
  shows "\<exists>p h1. new_block sz al h = Inr (p, h1) \<and> buffer sz al h p h1"
  using assms alloc_Inr [OF assms(3), of al h] buffer_alloc [OF _ assms(1,2)]
  by (auto simp: new_block_def layout_def)

text \<open>The two allocation shims satisfy the contract of the interpreter's blocks.\<close>

interpretation jit_boxes: allocator rt_box_alloc is_pow2
proof
  fix h sz al
  assume *: "heap_ok h" "is_pow2 al" "sz + (al - 1) < 2 ^ 63"
  then have "max al 1 = al" using is_pow2_pos by fastforce
  then show "\<exists>p h1. rt_box_alloc sz al h = Inr (p, h1) \<and> buffer sz al h p h1"
    using * new_block_ok [of h al sz] buffer_dangling [of h al] by (auto simp: rt_box_alloc_def Let_def)
qed

interpretation jit_strings: allocator "\<lambda>sz al. rt_alloc sz" "\<lambda>al. al = 1"
proof
  fix h sz al
  assume "heap_ok h" "al = (1 :: nat)" "sz + (al - 1) < 2 ^ 63"
  then show "\<exists>p h1. rt_alloc sz h = Inr (p, h1) \<and> buffer sz al h p h1"
    using new_block_ok [of h 1 sz] buffer_dangling [of h 1] is_pow2_code(1)
    by (auto simp: rt_alloc_def simp del: One_nat_def)
qed

lemma rt_unescape_string:
  assumes ok: "heap_ok h" and s: "raw_slice b sp sl = Inr bd" and u: "unescape_loop bd 0 [] = Inr out"
    and len: "length out < 2 ^ 63"
  shows "\<exists>p h1. rt_unescape b sp sl h = Inr (p, length out, h1) \<and> filled out h p h1"
proof -
  obtain p h1 where "rt_alloc (length out) h = Inr (p, h1)" "filled out h p (write_bytes p out h1)"
    using jit_strings.get_string [OF ok refl len] by blast
  then show ?thesis using s u by (auto simp: rt_unescape_def rt_alloc_def)
qed

text \<open>\<open>build_str\<close> returns a buffer filled with the content of the body, on either path.\<close>

lemma body_val_raw_all: "list_all raw_char bd \<Longrightarrow> body_val bd = Some bd"
  by (induction bd) (auto simp: raw_char_def)

lemma body_val_raw_inv: "body_val bd = Some s \<Longrightarrow> \<not> has_escape bd \<Longrightarrow> s = bd"
proof -
  assume b: "body_val bd = Some s" and n: "\<not> has_escape bd"
  have "list_all raw_char bd" using b
  proof (cases rule: body_split)
    case (esc raw x bd' s')
    then show ?thesis using n by (simp add: has_escape_def)
  qed
  then show ?thesis using body_val_raw_all b by simp
qed

lemma body_val_length: "body_val bd = Some s \<Longrightarrow> length s \<le> length bd"
  by (induction bd arbitrary: s rule: body_val.induct) (fastforce split: if_splits list.splits)+

lemma build_str_filled:
  assumes ok: "heap_ok h" and v: "view b e sp (bd @ r)" and bd: "body_val bd = Some s" and len: "length s < 2 ^ 63"
  shows "\<exists>p h1. build_str b sp (length bd) (has_escape bd) h = Inr (p, length s, h1) \<and> filled s h p h1"
proof -
  have t: "take (length bd) (drop sp b) = bd" by (rule view_bytes [OF v])
  have in_b: "sp + length bd \<le> length b" using view_length [OF v] v by (simp add: view_def)
  show ?thesis
  proof (cases "has_escape bd")
    case True
    have "raw_slice b sp (length bd) = Inr bd" using t in_b by (simp add: raw_slice_def)
    moreover have "unescape_loop bd 0 [] = Inr s" using unescape_body [of 0 bd bd s "[]"] bd by simp
    ultimately show ?thesis using rt_unescape_string [OF ok _ _ len] True by (simp add: build_str_def)
  next
    case False
    then have s: "s = bd" using body_val_raw_inv bd by blast
    obtain p h1 where "rt_alloc (length s) h = Inr (p, h1)" "filled s h p (write_bytes p s h1)"
      using jit_strings.get_string [OF ok refl len] by blast
    then show ?thesis using False s emit_copy_eq [OF in_b, of p h1] t by (simp add: build_str_def)
  qed
qed

end
