(* ===== verification/Jit_Skip.thy ===== *)
theory Jit_Skip
  imports Jit_Scan
begin

text \<open>
  \<^verbatim>\<open>rt_skip\<close> skips exactly one value: on every text of the grammar it stops right behind it,
  whatever nesting, strings and escapes the text has.
\<close>

text \<open>What follows a value inside a document, or at its end.\<close>

definition ends :: "bytes \<Rightarrow> bool" where
  "ends r \<longleftrightarrow> (case r of [] \<Rightarrow> True | c # _ \<Rightarrow> c = COMMA \<or> c = RBRACE \<or> c = RBRACKET \<or> ws_byte c)"

lemma ends_simps [simp]:
  "ends []" "ends (COMMA # r)" "ends (RBRACE # r)" "ends (RBRACKET # r)"
  by (simp_all add: ends_def)

lemma ends_ws: "list_all ws_byte w \<Longrightarrow> ends r \<Longrightarrow> ends (w @ r)"
  by (cases w) (auto simp: ends_def)

lemma ends_stops: "ends r \<Longrightarrow> stops r"
  by (auto simp: ends_def stops_def dest: ws_byte_ascii ws_not_num split: list.splits)

section \<open>The three loops\<close>

lemma skip_string_body:
  "view b e i (bd @ QUOTE # r) \<Longrightarrow> body_val bd = Some s \<Longrightarrow> skip_string b e i = Inr (Suc (i + length bd))"
proof (induction bd arbitrary: i s rule: body_val.induct)
  case 1
  then show ?case using view_Cons(1,2) [of b e i QUOTE r] by (simp add: skip_string.simps [of b e i])
next
  case (2 c cs)
  have i: "i < e" "load_u8 b i = Inr c" "view b e (Suc i) (cs @ QUOTE # r)"
    using view_Cons [of b e i c] 2(3) by auto
  show ?case
  proof (cases "c = BACKSLASH")
    case True
    then obtain x es t' where cs: "cs = x # es" "simple_escape x" "body_val es = Some t'"
      using 2(4) by (auto split: list.splits if_splits)
    have "view b e (Suc (Suc i)) (es @ QUOTE # r)" using view_Cons(3) [of b e "Suc i" x] i(3) cs(1) by simp
    then have "skip_string b e (Suc (Suc i)) = Inr (Suc (Suc (Suc i) + length es))"
      using 2(1) [of x es] True cs by simp
    then show ?thesis using i True cs by (simp add: skip_string.simps [of b e i])
  next
    case False
    then obtain t' where t: "body_val cs = Some t'" using 2(4) by (auto split: if_splits)
    have "c \<noteq> QUOTE" using 2(4) by auto
    then show ?thesis using 2(2) [OF _ False i(3) t] False i by (simp add: skip_string.simps [of b e i])
  qed
qed

lemma nested_string_body:
  "view b e i (bd @ QUOTE # r) \<Longrightarrow> body_val bd = Some s \<Longrightarrow>
   skip_nested b e i d True = skip_nested b e (Suc (i + length bd)) d False"
proof (induction bd arbitrary: i s rule: body_val.induct)
  case 1
  then show ?case using view_Cons(1,2) [of b e i QUOTE r] by (simp add: skip_nested.simps [of b e i])
next
  case (2 c cs)
  have i: "i < e" "load_u8 b i = Inr c" "view b e (Suc i) (cs @ QUOTE # r)"
    using view_Cons [of b e i c] 2(3) by auto
  show ?case
  proof (cases "c = BACKSLASH")
    case True
    then obtain x es t' where cs: "cs = x # es" "simple_escape x" "body_val es = Some t'"
      using 2(4) by (auto split: list.splits if_splits)
    have "view b e (Suc (Suc i)) (es @ QUOTE # r)" using view_Cons(3) [of b e "Suc i" x] i(3) cs(1) by simp
    then have "skip_nested b e (Suc (Suc i)) d True = skip_nested b e (Suc (Suc (Suc i) + length es)) d False"
      using 2(1) [of x es] True cs by simp
    then show ?thesis using i True cs by (simp add: skip_nested.simps [of b e i])
  next
    case False
    then obtain t' where t: "body_val cs = Some t'" using 2(4) by (auto split: if_splits)
    have "c \<noteq> QUOTE" using 2(4) by auto
    then show ?thesis using 2(2) [OF _ False i(3) t] False i by (simp add: skip_nested.simps [of b e i])
  qed
qed

definition neutral :: "byte \<Rightarrow> bool" where
  "neutral c \<longleftrightarrow> c \<noteq> QUOTE \<and> c \<noteq> LBRACE \<and> c \<noteq> LBRACKET \<and> c \<noteq> RBRACE \<and> c \<noteq> RBRACKET"

lemma nested_neutral:
  "view b e i (xs @ r) \<Longrightarrow> list_all neutral xs \<Longrightarrow> skip_nested b e i d False = skip_nested b e (i + length xs) d False"
proof (induction xs arbitrary: i)
  case (Cons x xs)
  have "i < e" "load_u8 b i = Inr x" "view b e (Suc i) (xs @ r)" using Cons.prems(1) view_Cons by auto
  then show ?case using Cons by (simp add: skip_nested.simps [of b e i] neutral_def)
qed simp

lemma neutral_ws: "list_all ws_byte w \<Longrightarrow> list_all neutral w"
  by (induction w) (auto simp: ws_byte_def neutral_def)

lemma neutral_num: "list_all num_char s \<Longrightarrow> list_all neutral s"
  by (induction s) (auto simp: neutral_def num_char_def is_digit_def)

lemma nested_string:
  assumes v: "view b e i (QUOTE # bd @ QUOTE # r)" and bd: "body_val bd = Some s"
  shows "skip_nested b e i d False = skip_nested b e (i + length bd + 2) d False"
proof -
  note i = view_Cons [OF v]
  have "skip_nested b e i d False = skip_nested b e (Suc i) d True"
    using i by (simp add: skip_nested.simps [of b e i])
  also have "\<dots> = skip_nested b e (Suc (Suc i + length bd)) d False" by (rule nested_string_body [OF i(3) bd])
  finally show ?thesis by simp
qed

lemma nested_open:
  "view b e i (c # r) \<Longrightarrow> c = LBRACE \<or> c = LBRACKET \<Longrightarrow> d + 1 < 2 ^ 31 \<Longrightarrow>
   skip_nested b e i d False = skip_nested b e (Suc i) (d + 1) False"
  using view_Cons(1,2) [of b e i c r] by (auto simp: skip_nested.simps [of b e i] depth_inc_def)

lemma nested_close:
  "view b e i (c # r) \<Longrightarrow> c = RBRACE \<or> c = RBRACKET \<Longrightarrow>
   skip_nested b e i d False = (if d = 1 then Inr (Suc i) else skip_nested b e (Suc i) (d - 1) False)"
  using view_Cons(1,2) [of b e i c r] by (auto simp: skip_nested.simps [of b e i])

section \<open>Nested values\<close>

text \<open>A value inside brackets is passed over; the rest of a bracketed value closes one level.\<close>

definition passes :: "bytes \<Rightarrow> bool" where
  "passes t \<longleftrightarrow> (\<forall>b e i r d. view b e i (t @ r) \<longrightarrow> d + int (length t) < 2 ^ 31 \<longrightarrow> 1 \<le> d \<longrightarrow>
     skip_nested b e i d False = skip_nested b e (i + length t) d False)"

definition closes :: "bytes \<Rightarrow> bool" where
  "closes t \<longleftrightarrow> (\<forall>b e i r d. view b e i (t @ r) \<longrightarrow> d + int (length t) < 2 ^ 31 \<longrightarrow> 1 \<le> d \<longrightarrow>
     skip_nested b e i d False = (if d = 1 then Inr (i + length t)
       else skip_nested b e (i + length t) (d - 1) False))"

lemma passesD: "passes t \<Longrightarrow> view b e i (t @ r) \<Longrightarrow> d + int (length t) < 2 ^ 31 \<Longrightarrow> 1 \<le> d \<Longrightarrow>
   skip_nested b e i d False = skip_nested b e (i + length t) d False"
  by (auto simp: passes_def)

lemma passes_neutral: "list_all neutral t \<Longrightarrow> passes t"
  using nested_neutral by (simp add: passes_def)

lemma passes_append: "passes s \<Longrightarrow> passes t \<Longrightarrow> passes (s @ t)"
  unfolding passes_def
proof (intro allI impI)
  fix b e i r d
  assume s: "\<forall>b e i r d. view b e i (s @ r) \<longrightarrow> d + int (length s) < 2 ^ 31 \<longrightarrow> 1 \<le> d \<longrightarrow>
      skip_nested b e i d False = skip_nested b e (i + length s) d False"
    and t: "\<forall>b e i r d. view b e i (t @ r) \<longrightarrow> d + int (length t) < 2 ^ 31 \<longrightarrow> 1 \<le> d \<longrightarrow>
      skip_nested b e i d False = skip_nested b e (i + length t) d False"
    and v: "view b e i ((s @ t) @ r)" and d: "d + int (length (s @ t)) < 2 ^ 31" "1 \<le> d"
  have vs: "view b e i (s @ t @ r)" using v by simp
  show "skip_nested b e i d False = skip_nested b e (i + length (s @ t)) d False"
    using s [rule_format, OF vs] t [rule_format, OF view_append [OF vs]] d by (simp add: add.assoc)
qed

lemma closes_append:
  assumes "passes s" and "closes t"
  shows "closes (s @ t)"
  unfolding closes_def
proof (intro allI impI)
  fix b e i r d
  assume v: "view b e i ((s @ t) @ r)" and d: "d + int (length (s @ t)) < 2 ^ 31" "1 \<le> d"
  have vs: "view b e i (s @ t @ r)" using v by simp
  show "skip_nested b e i d False = (if d = 1 then Inr (i + length (s @ t))
      else skip_nested b e (i + length (s @ t)) (d - 1) False)"
    using passesD [OF assms(1) vs] assms(2) [unfolded closes_def, rule_format, OF view_append [OF vs]] d
    by (simp add: add.assoc)
qed

lemma closes_bracket: "c = RBRACE \<or> c = RBRACKET \<Longrightarrow> closes [c]"
  using nested_close by (auto simp: closes_def)

lemma passes_string: "body_val bd = Some s \<Longrightarrow> passes (QUOTE # bd @ [QUOTE])"
  using nested_string by (simp add: passes_def)

lemma passes_nested:
  assumes c: "c = LBRACE \<or> c = LBRACKET" and t: "closes t"
  shows "passes (c # t)"
  unfolding passes_def
proof (intro allI impI)
  fix b e i r d
  assume v: "view b e i ((c # t) @ r)" and d: "d + int (length (c # t)) < 2 ^ 31" "1 \<le> d"
  have vc: "view b e i (c # t @ r)" using v by simp
  have "skip_nested b e i d False = skip_nested b e (Suc i) (d + 1) False"
    by (rule nested_open [OF vc c]) (use d in simp)
  also have "\<dots> = skip_nested b e (Suc i + length t) d False"
    using t [unfolded closes_def, rule_format, OF view_Cons(3) [OF vc]] d by simp
  finally show "skip_nested b e i d False = skip_nested b e (i + length (c # t)) d False" by simp
qed

lemma passes_word: "passes [0x74, 0x72, 0x75, 0x65]" "passes [0x66, 0x61, 0x6C, 0x73, 0x65]"
  "passes [0x6E, 0x75, 0x6C, 0x6C]" "passes [COLON]" "passes [COMMA]"
  by (rule passes_neutral, simp add: neutral_def)+

lemma passes_key:
  assumes "list_all raw_char k"
  shows "passes (QUOTE # k @ [QUOTE])"
proof -
  have "body_val k = Some k" using assms by (induction k) (auto simp: raw_char_def)
  then show ?thesis by (rule passes_string)
qed

lemma passes_ws: "list_all ws_byte w \<Longrightarrow> passes w"
  by (intro passes_neutral neutral_ws)

lemma text_passes:
  "value_text j t \<Longrightarrow> passes t"
  "elems_text js t \<Longrightarrow> closes t"
  "members_text ms t \<Longrightarrow> closes t"
proof (induction rule: text_induct)
  case (text_num s)
  then show ?case by (auto simp: num_tok_def intro: passes_neutral neutral_num)
next
  case (members_last w k w1 w2 j t w')
  have "closes (w @ (QUOTE # k @ [QUOTE]) @ w1 @ [COLON] @ w2 @ t @ w' @ [RBRACE])"
    using members_last by (intro closes_append passes_key passes_word closes_bracket) (auto intro: passes_ws)
  then show ?case by simp
next
  case (members_more w k w1 w2 j t w' ms t')
  have "closes (w @ (QUOTE # k @ [QUOTE]) @ w1 @ [COLON] @ w2 @ t @ w' @ [COMMA] @ t')"
    using members_more by (intro closes_append passes_key passes_word) (auto intro: passes_ws)
  then show ?case by simp
next
  case (elems_more w j t w' js t')
  have "closes (w @ t @ w' @ [COMMA] @ t')"
    using elems_more by (intro closes_append passes_word) (auto intro: passes_ws)
  then show ?case by simp
qed (auto intro!: passes_word passes_string passes_nested closes_append closes_bracket intro: passes_ws)

section \<open>One value\<close>

definition plain_tok :: "byte \<Rightarrow> bool" where
  "plain_tok c \<longleftrightarrow> c \<noteq> COMMA \<and> c \<noteq> RBRACE \<and> c \<noteq> RBRACKET \<and> \<not> isws c"

lemma skip_scalar_view:
  "view b e i (t @ r) \<Longrightarrow> list_all plain_tok t \<Longrightarrow> ends r \<Longrightarrow> skip_scalar b e i = Inr (i + length t)"
proof (induction t arbitrary: i)
  case Nil
  then show ?case
    by (cases r) (auto simp: skip_scalar.simps [of b e i] ends_def isws_ws_byte dest: view_Cons(1,2) view_nil)
next
  case (Cons x t)
  have "i < e" "load_u8 b i = Inr x" "view b e (Suc i) (t @ r)" using Cons.prems(1) view_Cons by auto
  then show ?case using Cons by (simp add: skip_scalar.simps [of b e i] plain_tok_def)
qed

lemma plain_num: "list_all num_char s \<Longrightarrow> list_all plain_tok s"
  by (induction s) (auto simp: plain_tok_def isws_def num_char_def is_digit_def)

lemma rt_skip_scalar:
  assumes v: "view b e i (w @ t @ r)" and w: "list_all ws_byte w" and t: "list_all plain_tok t" "t = c # cs"
    and c: "c \<noteq> QUOTE" "c \<noteq> LBRACE" "c \<noteq> LBRACKET" and r: "ends r"
  shows "rt_skip b e i = Inr (i + length w + length t)"
proof -
  have "rt_ws b e i = Inr (i + length w)"
    by (rule rt_ws_view [OF v w]) (use t in \<open>simp add: plain_tok_def isws_ws_byte\<close>)
  moreover have "view b e (i + length w) (t @ r)" by (rule view_append [OF v])
  moreover from this have "i + length w < e" "load_u8 b (i + length w) = Inr c" using view_Cons t(2) by auto
  ultimately show ?thesis using skip_scalar_view [OF _ t(1) r] c by (simp add: rt_skip_def)
qed

lemma rt_skip_bracket:
  assumes v: "view b e i (w @ (c # t) @ r)" and w: "list_all ws_byte w" and t: "closes t"
    and c: "c = LBRACE \<or> c = LBRACKET" and len: "length t < 2 ^ 31 - 1"
  shows "rt_skip b e i = Inr (i + length w + length (c # t))"
proof -
  have ws: "rt_ws b e i = Inr (i + length w)"
    by (rule rt_ws_view [OF v w]) (use c in \<open>auto simp: ws_byte_def\<close>)
  have vc: "view b e (i + length w) (c # t @ r)" using view_append [OF v] by simp
  note x = view_Cons [OF vc]
  have "skip_nested b e (i + length w) 0 False = skip_nested b e (Suc (i + length w)) 1 False"
    using nested_open [OF vc c, of 0] by simp
  also have "\<dots> = Inr (Suc (i + length w) + length t)"
    using t [unfolded closes_def, rule_format, OF x(3), of 1] len by simp
  finally show ?thesis using ws x c by (auto simp: rt_skip_def)
qed

lemma rt_skip_text:
  assumes v: "view b e i (w @ t @ r)" and w: "list_all ws_byte w" and t: "value_text j t" and r: "ends r"
    and len: "length t < 2 ^ 31"
  shows "rt_skip b e i = Inr (i + length w + length t)"
  using t
proof (cases rule: value_text.cases)
  case text_num
  then obtain c cs where "t = c # cs" "num_char c" by (cases t) (auto simp: num_tok_def)
  moreover from this have "c \<noteq> QUOTE" "c \<noteq> LBRACE" "c \<noteq> LBRACKET" by (auto simp: num_char_def is_digit_def)
  moreover have "list_all plain_tok t" using text_num by (simp add: num_tok_def plain_num)
  ultimately show ?thesis using rt_skip_scalar [OF v w] r by blast
next
  case (text_str bd s)
  have vt: "view b e i (w @ QUOTE # bd @ QUOTE # r)" using v text_str by simp
  have "rt_ws b e i = Inr (i + length w)" by (rule rt_ws_view [OF vt w]) (simp add: ws_byte_def)
  moreover note x = view_Cons [OF view_append [OF vt]]
  moreover have "skip_string b e (Suc (i + length w)) = Inr (Suc (Suc (i + length w) + length bd))"
    by (rule skip_string_body [OF x(3) text_str(3)])
  ultimately show ?thesis using text_str by (simp add: rt_skip_def)
next
  case (text_array js t')
  then have "closes t'" using text_passes(2) by blast
  then show ?thesis using rt_skip_bracket [of b e i w LBRACKET t' r] v w len text_array by simp
next
  case (text_object ms t')
  then have "closes t'" using text_passes(3) by blast
  then show ?thesis using rt_skip_bracket [of b e i w LBRACE t' r] v w len text_object by simp
qed (use rt_skip_scalar [OF v w _ _ _ _ _ r] in \<open>auto simp: plain_tok_def isws_def\<close>)

end
