(* ===== verification/Jit_Read.thy ===== *)
theory Jit_Read
  imports Jit_Mem Jit_Skip
begin

text \<open>
  What it means that a compiled parser reads a value: on any text of the grammar for a JSON value
  that denotes \<open>v\<close>, it places \<open>v\<close> and stops right behind the text. Here the definition, and the
  parsers without loops over elements.
\<close>

section \<open>The layouts and inputs covered\<close>

text \<open>
  \<open>jit_ty N\<close>: no \<^verbatim>\<open>char\<close> (its parser keeps only a byte), integers and tags of at most 8 bytes
  (wider ones are stored truncated), field names of at most \<open>N\<close> bytes.
\<close>

fun jit_ty :: "nat \<Rightarrow> ty \<Rightarrow> bool" where
  "jit_ty N TChar \<longleftrightarrow> False"
| "jit_ty N (TU w) \<longleftrightarrow> w \<le> 8"
| "jit_ty N (TI w) \<longleftrightarrow> w \<le> 8"
| "jit_ty N (TStruct _ fs) \<longleftrightarrow> (\<forall>f \<in> set fs. length (f_name f) \<le> N \<and> jit_ty N (f_ty f))"
| "jit_ty N (TTuple fs) \<longleftrightarrow> (\<forall>f \<in> set fs. jit_ty N (f_ty f))"
| "jit_ty N (TVec t _ _ _) \<longleftrightarrow> jit_ty N t"
| "jit_ty N (TBoxed t _ _) \<longleftrightarrow> jit_ty N t"
| "jit_ty N (TOpt _ ds _ _ _ _ t) \<longleftrightarrow> ds \<le> 8 \<and> jit_ty N t"
| "jit_ty N (TMap k _ t _ _ _) \<longleftrightarrow> jit_ty N k \<and> jit_ty N t"
| "jit_ty N (TUnknown _) \<longleftrightarrow> False"
| "jit_ty N _ \<longleftrightarrow> True"

definition jit_cells :: "nat \<Rightarrow> (cell_id \<rightharpoonup> ty) \<Rightarrow> bool" where
  "jit_cells N C \<longleftrightarrow> (\<forall>c t. C c = Some t \<longrightarrow> jit_ty N t)"

text \<open>
  What fast-float2 documents of \<^verbatim>\<open>parse_partial\<close>, against the standard library's parser: on a
  number token it returns the same value and the token's length.
\<close>

definition fast_ok :: "ext_ops \<Rightarrow> bool" where
  "fast_ok F \<longleftrightarrow> (\<forall>s r w. num_tok s \<longrightarrow> stops r \<longrightarrow> std_f64 F s = Some w \<longrightarrow>
     fast_f64 F (s @ r) = Some (w, length s))"

definition ops_ok :: "ext_ops \<Rightarrow> bool" where
  "ops_ok F \<longleftrightarrow> memchr2_ok F \<and> fast_ok F"

lemma sample_ops_ok: "ops_ok sample_ops"
  using sample_memchr2 by (simp add: ops_ok_def fast_ok_def) (simp add: sample_ops_def)

text \<open>
  \<open>text_at\<close>: at cursor \<open>i\<close> stands whitespace and a text for \<open>j\<close>, ending at \<open>i'\<close>; behind it, whatever
  else, at least \<open>N\<close> bytes are readable (a key comparison loads as many bytes as the field name
  has), and the memory is below 2 GiB (\<^verbatim>\<open>rt_skip\<close> counts nesting in an \<^verbatim>\<open>i32\<close>).
\<close>

definition text_at :: "nat \<Rightarrow> bytes \<Rightarrow> nat \<Rightarrow> nat \<Rightarrow> json \<Rightarrow> nat \<Rightarrow> bool" where
  "text_at N b e i j i' \<longleftrightarrow> (\<exists>w tx r. view b e i (w @ tx @ r) \<and> list_all ws_byte w \<and> value_text j tx
     \<and> ends r \<and> i' = i + length w + length tx \<and> i' + N \<le> length b \<and> length b < 2 ^ 31)"

definition reads ::
  "nat \<Rightarrow> (cell_id \<rightharpoonup> ty) \<Rightarrow> (cell_id \<Rightarrow> shape) \<Rightarrow> ext_ops \<Rightarrow> ty \<Rightarrow> json \<Rightarrow> val \<Rightarrow> bool" where
  "reads N C S F t j v \<longleftrightarrow> (\<forall>b e i i' a h. text_at N b e i j i' \<longrightarrow> lay_ok S t \<longrightarrow> jit_ty N t \<longrightarrow>
     heap_ok h \<longrightarrow> inside S t a h \<longrightarrow>
     (\<exists>h'. returns (\<lambda>n. parse n C F b e t a i h) (i', h') \<and> placed C S t a v h h'))"

lemma text_atE:
  assumes "text_at N b e i j i'"
  obtains w tx r where "view b e i (w @ tx @ r)" "list_all ws_byte w" "value_text j tx" "ends r"
    "i' = i + length w + length tx" "i' + N \<le> length b" "length b < 2 ^ 31"
  using assms unfolding text_at_def by blast

lemma readsI:
  assumes "\<And>b e i i' a h. text_at N b e i j i' \<Longrightarrow> lay_ok S t \<Longrightarrow> jit_ty N t \<Longrightarrow> heap_ok h \<Longrightarrow>
     inside S t a h \<Longrightarrow> \<exists>h'. returns (\<lambda>n. parse (Suc n) C F b e t a i h) (i', h') \<and> placed C S t a v h h'"
  shows "reads N C S F t j v"
  unfolding reads_def using assms returns_Suc [where f = "\<lambda>n. parse n C F _ _ t _ _ _"] by meson

lemma readsD:
  assumes "reads N C S F t j v" and "text_at N b e i j i'" and "lay_ok S t" and "jit_ty N t"
    and "heap_ok h" and "inside S t a h"
  obtains h' where "returns (\<lambda>n. parse n C F b e t a i h) (i', h')" and "placed C S t a v h h'"
  using assms unfolding reads_def by blast

text \<open>The first token behind the whitespace.\<close>

lemma text_at_ws:
  assumes "text_at N b e i j i'"
  obtains c cs where "ws b e i = Inr c" "text_at N b e c j i'" "value_start (hd cs)"
    "load_u8 b c = Inr (hd cs)" "value_text j cs" "i' = c + length cs"
proof -
  obtain w tx r where v: "view b e i (w @ tx @ r)" and w: "list_all ws_byte w" and t: "value_text j tx"
    and r: "ends r" "i' = i + length w + length tx" "i' + N \<le> length b" "length b < 2 ^ 31"
    by (rule text_atE [OF assms])
  obtain c cs where tx: "tx = c # cs" "value_start c" by (rule value_text_start [OF t])
  have ws: "ws b e i = Inr (i + length w)"
    by (rule ws_view [OF v ws_byte_le [OF w]]) (use tx value_start_gt in simp)
  have vt: "view b e (i + length w) (tx @ r)" by (rule view_append [OF v])
  have at: "text_at N b e (i + length w) j i'"
    unfolding text_at_def
  proof (intro exI conjI)
    show "view b e (i + length w) ([] @ tx @ r)" using vt by simp
  qed (use t r in auto)
  have "load_u8 b (i + length w) = Inr c" using vt tx view_Cons(2) by simp
  then show thesis using that [OF ws at, of tx] tx t r by simp
qed

section \<open>Scalars\<close>

lemma reads_bool: "reads N C S F TBool (Bool x) (VBool x)"
proof (rule readsI)
  fix b e i i' a h
  assume at: "text_at N b e i (Bool x) i'" and ok: "heap_ok h"
  obtain c cs where c: "ws b e i = Inr c" "load_u8 b c = Inr (hd cs)" "value_text (Bool x) cs" "i' = c + length cs"
    using text_at_ws [OF at] by metis
  have "parse (Suc n) C F b e TBool a i h = Inr (i', write_bytes a [of_bool x] h)" for n
    using c(3) by (cases rule: value_text.cases) (use c in auto)
  then show "\<exists>h'. returns (\<lambda>n. parse (Suc n) C F b e TBool a i h) (i', h') \<and> placed C S TBool a (VBool x) h h'"
    using placed_bool [OF ok] by auto
qed

lemma num_text: "value_text (Num s) tx \<Longrightarrow> tx = s \<and> num_tok s"
  by (auto elim: value_text.cases)

lemma parse_u128_digits:
  assumes "parse_u128 s = Some k"
  obtains ds where "digits_val 0 ds = Some k" "ds \<noteq> []" "s = ds \<or> s = PLUS # ds"
proof -
  let ?ds = "case s of c # cs \<Rightarrow> if c = PLUS then cs else s | [] \<Rightarrow> []"
  have "digits_val 0 ?ds = Some k" "?ds \<noteq> []"
    using assms by (auto simp: parse_u128_def Let_def split: option.splits if_splits)
  moreover from this have "s = ?ds \<or> s = PLUS # ?ds" by (auto split: list.splits if_splits)
  ultimately show thesis using that by blast
qed

lemma parse_i128_digits:
  assumes "parse_i128 s = Some k"
  obtains ds m where "digits_val 0 ds = Some m" "ds \<noteq> []" "s = ds \<or> s = PLUS # ds \<or> s = MINUS # ds"
    "k = (if s = MINUS # ds then - int m else int m)"
proof -
  let ?ds = "case s of c # cs \<Rightarrow> if c = PLUS \<or> c = MINUS then cs else s | [] \<Rightarrow> []"
  let ?neg = "case s of c # _ \<Rightarrow> c = MINUS | [] \<Rightarrow> False"
  obtain m where m: "digits_val 0 ?ds = Some m" "?ds \<noteq> []" "k = (if ?neg then - int m else int m)"
    using assms by (auto simp: parse_i128_def Let_def split: option.splits if_splits)
  moreover have s: "s = ?ds \<or> s = PLUS # ?ds \<or> s = MINUS # ?ds"
    using m(2) by (auto split: list.splits if_splits)
  moreover have "?neg \<longleftrightarrow> s = MINUS # ?ds" using m(2) by (auto split: list.splits if_splits)
  ultimately show thesis using that [of ?ds m] by (simp del: list.case_distrib)
qed

lemma store_sized_eq: "int_width w \<Longrightarrow> w \<le> 8 \<Longrightarrow> store_sized a v w h = write_bytes a (le_bytes w (unat v)) h"
  by (auto simp: store_sized_def store_width_def int_width_def)

lemma le_bytes_u64: "w \<le> 8 \<Longrightarrow> le_bytes w (unat (word_of_nat k :: u64)) = le_bytes w k"
proof -
  assume "w \<le> 8"
  then have "(256 :: nat) ^ w dvd 256 ^ 8" by (rule le_imp_power_dvd)
  then have "unat (word_of_nat k :: u64) mod 256 ^ w = k mod 256 ^ w"
    by (simp add: unat_of_nat mod_mod_cancel)
  then show ?thesis by (metis le_bytes_mod)
qed

lemma le_bytes_i64: "w \<le> 8 \<Longrightarrow> le_bytes w (unat (word_of_int k :: u64)) = le_bytes w (nat (k mod 256 ^ w))"
proof -
  assume "w \<le> 8"
  then have "(256 :: int) ^ w dvd 256 ^ 8" by (rule le_imp_power_dvd)
  then have "k mod 2 ^ 64 mod 256 ^ w = k mod 256 ^ w" by (simp add: mod_mod_cancel)
  moreover have "unat (word_of_int k :: u64) = nat (k mod 2 ^ 64)"
    by (simp add: unsigned_of_int take_bit_eq_mod)
  ultimately have "unat (word_of_int k :: u64) mod 256 ^ w = nat (k mod 256 ^ w)"
    using nat_mod_distrib [of "k mod 2 ^ 64" "256 ^ w"] by (simp add: nat_power_eq)
  then show ?thesis by (metis le_bytes_mod)
qed

lemma reads_u:
  assumes s: "parse_u128 s = Some k" and k: "k < 256 ^ w"
  shows "reads N C S F (TU w) (Num s) (VU k)"
proof (rule readsI)
  fix b e i i' a h
  assume at: "text_at N b e i (Num s) i'" and wf: "lay_ok S (TU w)" "jit_ty N (TU w)" and ok: "heap_ok h"
  obtain u tx r where v: "view b e i (u @ tx @ r)" "list_all ws_byte u" "value_text (Num s) tx" "ends r"
    "i' = i + length u + length tx" by (rule text_atE [OF at])
  have tx: "tx = s" using num_text v(3) by blast
  obtain ds where ds: "digits_val 0 ds = Some k" "ds \<noteq> []" "s = ds \<or> s = PLUS # ds"
    by (rule parse_u128_digits [OF s])
  have "intval b e i False = Inr (word_of_nat k, i')"
    using intval_view [OF v(1) [unfolded tx] v(2) ends_stops [OF v(4)] ds(1,2), of False] ds(3) v(5) tx by auto
  then have "parse (Suc n) C F b e (TU w) a i h = Inr (i', write_bytes a (le_bytes w k) h)" for n
    using wf by (simp add: store_sized_eq le_bytes_u64)
  then show "\<exists>h'. returns (\<lambda>n. parse (Suc n) C F b e (TU w) a i h) (i', h') \<and> placed C S (TU w) a (VU k) h h'"
    using placed_u [OF ok k] by auto
qed

lemma reads_i:
  assumes s: "parse_i128 s = Some k" and k: "- (256 ^ w div 2) \<le> k" "k < 256 ^ w div 2"
  shows "reads N C S F (TI w) (Num s) (VI k)"
proof (rule readsI)
  fix b e i i' a h
  assume at: "text_at N b e i (Num s) i'" and wf: "lay_ok S (TI w)" "jit_ty N (TI w)" and ok: "heap_ok h"
  obtain u tx r where v: "view b e i (u @ tx @ r)" "list_all ws_byte u" "value_text (Num s) tx" "ends r"
    "i' = i + length u + length tx" by (rule text_atE [OF at])
  have tx: "tx = s" using num_text v(3) by blast
  obtain ds m where ds: "digits_val 0 ds = Some m" "ds \<noteq> []" "s = ds \<or> s = PLUS # ds \<or> s = MINUS # ds"
    "k = (if s = MINUS # ds then - int m else int m)"
    by (rule parse_i128_digits [OF s])
  have "intval b e i True = Inr (word_of_int k, i')"
    using intval_view [OF v(1) [unfolded tx] v(2) ends_stops [OF v(4)] ds(1,2), of True] ds(3,4) v(5) tx by auto
  then have "parse (Suc n) C F b e (TI w) a i h = Inr (i', write_bytes a (le_bytes w (nat (k mod 256 ^ w))) h)" for n
    using wf by (simp add: store_sized_eq le_bytes_i64)
  then show "\<exists>h'. returns (\<lambda>n. parse (Suc n) C F b e (TI w) a i h) (i', h') \<and> placed C S (TI w) a (VI k) h h'"
    using placed_i [OF ok k] by auto
qed

lemma rt_f64v_view:
  assumes F: "fast_ok F" and v: "view b e i (u @ s @ r)" and u: "list_all ws_byte u" and s: "num_tok s"
    and r: "ends r" and w: "std_f64 F s = Some x"
  shows "rt_f64v F b e i = Inr (x, i + length u + length s)"
proof -
  obtain c cs where c: "s = c # cs" "num_char c" using s by (cases s) (auto simp: num_tok_def)
  then have "\<not> ws_byte c" using ws_not_num ws_byte_ascii by blast
  then have "rt_ws b e i = Inr (i + length u)" by (intro rt_ws_view [OF v u]) (simp add: c)
  moreover have "raw_slice b (i + length u) (e - (i + length u)) = Inr (s @ r)"
    by (rule view_slice [OF view_append [OF v]])
  moreover have "fast_f64 F (s @ r) = Some (x, length s)"
    using F s w ends_stops [OF r] by (simp add: fast_ok_def)
  ultimately show ?thesis by (simp add: rt_f64v_def)
qed

lemma reads_float:
  assumes F: "fast_ok F" and x: "std_f64 F s = Some x"
  shows "reads N C S F TF64 (Num s) (VF64 x)" and "reads N C S F TF32 (Num s) (VF32 (demote F x))"
proof -
  have f: "rt_f64v F b e i = Inr (x, i')" if "text_at N b e i (Num s) i'" for b e i i'
    using rt_f64v_view [OF F _ _ _ _ x] num_text text_atE [OF that] by metis
  show "reads N C S F TF64 (Num s) (VF64 x)"
    by (rule readsI) (use f placed_f64 in fastforce)
  show "reads N C S F TF32 (Num s) (VF32 (demote F x))"
    by (rule readsI) (use f placed_f32 in fastforce)
qed

lemma reads_unit: "reads N C S F TUnit j VUnit"
proof (rule readsI)
  fix b e i i' a h
  assume at: "text_at N b e i j i'" and ok: "heap_ok h"
  obtain u tx r where v: "view b e i (u @ tx @ r)" "list_all ws_byte u" "value_text j tx" "ends r"
    "i' = i + length u + length tx" "i' + N \<le> length b" "length b < 2 ^ 31" by (rule text_atE [OF at])
  have "rt_skip b e i = Inr i'"
    using rt_skip_text [OF v(1,2,3,4)] v(5-7) by simp
  then show "\<exists>h'. returns (\<lambda>n. parse (Suc n) C F b e TUnit a i h) (i', h') \<and> placed C S TUnit a VUnit h h'"
    using placed_unit [OF ok] by auto
qed

section \<open>Strings\<close>

lemma str_text:
  assumes "value_text (Str s) tx"
  obtains bd where "tx = QUOTE # bd @ [QUOTE]" "body_val bd = Some s"
  using assms by (auto elim: value_text.cases)

lemma string_read:
  assumes F: "memchr2_ok F" and at: "text_at N b e i (Str s) i'" and ok: "heap_ok h" and len: "length s < 2 ^ 63"
  obtains sp sl esc p h1 where "strspan F b e i = Inr (sp, sl, i', esc)"
    "build_str b sp sl esc h = Inr (p, length s, h1)" "filled s h p h1"
proof -
  obtain u tx r where v: "view b e i (u @ tx @ r)" "list_all ws_byte u" "value_text (Str s) tx" "ends r"
    "i' = i + length u + length tx" by (rule text_atE [OF at])
  obtain bd where bd: "tx = QUOTE # bd @ [QUOTE]" "body_val bd = Some s" by (rule str_text [OF v(3)])
  have vs: "view b e i (u @ QUOTE # bd @ QUOTE # r)" using v(1) bd(1) by simp
  have vb: "view b e (Suc (i + length u)) (bd @ QUOTE # r)" by (rule view_Cons(3) [OF view_append [OF vs]])
  obtain p h1 where "build_str b (Suc (i + length u)) (length bd) (has_escape bd) h = Inr (p, length s, h1)"
    "filled s h p h1"
    using build_str_filled [OF ok vb bd(2) len] by blast
  moreover have "strspan F b e i = Inr (Suc (i + length u), length bd, i', has_escape bd)"
    using strspan_view [OF F vs v(2) bd(2)] v(5) bd(1) by simp
  ultimately show thesis using that by blast
qed

lemma reads_str:
  assumes F: "memchr2_ok F" and s: "utf8_valid s" "length s < 2 ^ 63"
  shows "reads N C S F (TStr q) (Str s) (VStr s)"
proof (rule readsI)
  fix b e i i' a h
  assume at: "text_at N b e i (Str s) i'" and wf: "lay_ok S (TStr q)" and ok: "heap_ok h" and dst: "inside S (TStr q) a h"
  obtain sp sl esc p h1 where "strspan F b e i = Inr (sp, sl, i', esc)"
    "build_str b sp sl esc h = Inr (p, length s, h1)" "filled s h p h1"
    by (rule string_read [OF F at ok s(2)])
  then show "\<exists>h'. returns (\<lambda>n. parse (Suc n) C F b e (TStr q) a i h) (i', h') \<and> placed C S (TStr q) a (VStr s) h h'"
    using placed_string [OF _ wf s dst] by (auto simp: store_at_def write_seq_def)
qed

lemma reads_strref:
  assumes F: "memchr2_ok F" and s: "utf8_valid s" "length s < 2 ^ 63"
  shows "reads N C S F (TStrRef po lo) (Str s) (VStr s)"
proof (rule readsI)
  fix b e i i' a h
  assume at: "text_at N b e i (Str s) i'" and wf: "lay_ok S (TStrRef po lo)" and ok: "heap_ok h"
    and dst: "inside S (TStrRef po lo) a h"
  obtain sp sl esc p h1 where "strspan F b e i = Inr (sp, sl, i', esc)"
    "build_str b sp sl esc h = Inr (p, length s, h1)" "filled s h p h1"
    by (rule string_read [OF F at ok s(2)])
  then show "\<exists>h'. returns (\<lambda>n. parse (Suc n) C F b e (TStrRef po lo) a i h) (i', h')
      \<and> placed C S (TStrRef po lo) a (VStr s) h h'"
    using placed_strref [OF _ wf s dst] by (auto simp: store_at_def)
qed

section \<open>Boxes, options, back-edges\<close>

lemma reads_box:
  assumes wfc: "cells_ok C S" and inner: "reads N C S F t j v"
  shows "reads N C S F (TBoxed t sz al) j (VBox v)"
proof (rule readsI)
  fix b e i i' a h
  assume at: "text_at N b e i j i'" and wf: "lay_ok S (TBoxed t sz al)" and jt: "jit_ty N (TBoxed t sz al)"
    and ok: "heap_ok h" and dst: "inside S (TBoxed t sz al) a h"
  have al: "is_pow2 (max 1 al)" and wft: "lay_ok S t" "jit_ty N t" using wf jt by auto
  have same: "rt_box_alloc sz al h = rt_box_alloc sz (max 1 al) h"
    by (simp add: rt_box_alloc_def max.commute)
  obtain p h1 where get: "rt_box_alloc sz (max 1 al) h = Inr (p, h1)" "heap_ok h1" "inside S t p h1"
    and box: "\<And>h2 v. placed C S t p v h1 h2 \<Longrightarrow> placed C S (TBoxed t sz al) a (VBox v) h (write_word a p h2)"
    using jit_boxes.get_box [OF ok al wf wfc dst] by blast
  obtain h2 where h2: "returns (\<lambda>n. parse n C F b e t p i h1) (i', h2)" "placed C S t p v h1 h2"
    by (rule readsD [OF inner at wft get(2,3)])
  have "returns (\<lambda>n. parse (Suc n) C F b e (TBoxed t sz al) a i h) (i', write_word a p h2)"
    using returns_bind [OF h2(1), of "\<lambda>(c, h) _. Inr (c, write_word a p h)"] get(1) same
    by (simp add: case_prod_unfold)
  then show "\<exists>h'. returns (\<lambda>n. parse (Suc n) C F b e (TBoxed t sz al) a i h) (i', h')
      \<and> placed C S (TBoxed t sz al) a (VBox v) h h'" using box [OF h2(2)] by blast
qed

lemma store_imm_eq: "int_width ds \<Longrightarrow> ds \<le> 8 \<Longrightarrow> store_imm a off v ds h = write_bytes (a + off) (le_bytes ds v) h"
  by (auto simp: store_imm_def store_width_def int_width_def)

lemma none_stores:
  assumes "lay_ok S (TOpt disc_off ds nd sd payload_off sz t)" and "ds \<le> 8" and "heap_ok h"
  shows "placed C S (TOpt disc_off ds nd sd payload_off sz t) a VNone h (store_imm a disc_off nd ds (memset0 a sz h))"
  using placed_none [OF assms(3), of disc_off ds sz] assms(1,2) by (simp add: store_imm_eq memset0_eq)

lemma null_first:
  assumes "value_text j cs"
  shows "hd cs = 0x6E \<longleftrightarrow> j = Null"
  using assms
proof (cases rule: value_text.cases)
  case text_num
  then show ?thesis by (cases cs) (auto simp: num_tok_def num_char_def is_digit_def)
qed auto

lemma reads_none: "reads N C S F (TOpt disc_off ds nd sd payload_off sz t) Null VNone"
proof (rule readsI)
  fix b e i i' a h
  let ?t = "TOpt disc_off ds nd sd payload_off sz t"
  assume at: "text_at N b e i Null i'" and wf: "lay_ok S ?t" and jt: "jit_ty N ?t" and ok: "heap_ok h"
  obtain c cs where c: "ws b e i = Inr c" "load_u8 b c = Inr (hd cs)" "value_text Null cs" "i' = c + length cs"
    using text_at_ws [OF at] by metis
  have "cs = [0x6E, 0x75, 0x6C, 0x6C]" using c(3) by (auto elim: value_text.cases)
  then have "parse (Suc n) C F b e ?t a i h = Inr (i', store_imm a disc_off nd ds (memset0 a sz h))" for n
    using c by simp
  then show "\<exists>h'. returns (\<lambda>n. parse (Suc n) C F b e ?t a i h) (i', h') \<and> placed C S ?t a VNone h h'"
    using none_stores [OF wf _ ok] jt by auto
qed

lemma reads_some:
  assumes wfc: "cells_ok C S" and inner: "reads N C S F t j v" and j: "j \<noteq> Null"
  shows "reads N C S F (TOpt disc_off ds nd sd payload_off sz t) j (VSome v)"
proof (rule readsI)
  fix b e i i' a h
  let ?t = "TOpt disc_off ds nd sd payload_off sz t"
  assume at: "text_at N b e i j i'" and wf: "lay_ok S ?t" and jt: "jit_ty N ?t" and ok: "heap_ok h"
    and dst: "inside S ?t a h"
  obtain c cs where c: "ws b e i = Inr c" "load_u8 b c = Inr (hd cs)" "value_text j cs" "text_at N b e c j i'"
    using text_at_ws [OF at] by metis
  have first: "hd cs \<noteq> 0x6E" using null_first [OF c(3)] j by simp
  have wft: "lay_ok S t" "jit_ty N t" using wf jt by auto
  have "inside S t (a + payload_off) h" using inside_payload [OF dst] wf by simp
  then obtain h1 where h1: "returns (\<lambda>n. parse n C F b e t (a + payload_off) c h) (i', h1)"
    "placed C S t (a + payload_off) v h h1"
    by (rule readsD [OF inner c(4) wft ok])
  define h2 where "h2 = (case sd of Some d \<Rightarrow> store_imm a disc_off d ds h1 | None \<Rightarrow> h1)"
  have "returns (\<lambda>n. parse (Suc n) C F b e ?t a i h) (i', h2)"
    using returns_bind [OF h1(1), of "\<lambda>(c, h) _. Inr (c, case sd of Some d \<Rightarrow> store_imm a disc_off d ds h | None \<Rightarrow> h)"]
      c first by (cases sd) (simp_all add: h2_def case_prod_unfold)
  moreover have "placed C S ?t a (VSome v) h h2"
  proof (cases sd)
    case None
    then show ?thesis using placed_some_niche [OF h1(2)] wf wfc by (simp add: h2_def)
  next
    case (Some d)
    then show ?thesis using placed_some_tag [OF h1(2)] wf wfc dst jt by (simp add: h2_def store_imm_eq)
  qed
  ultimately show "\<exists>h'. returns (\<lambda>n. parse (Suc n) C F b e ?t a i h) (i', h') \<and> placed C S ?t a (VSome v) h h'"
    by blast
qed

lemma reads_ref:
  assumes wfc: "cells_ok C S" and jc: "jit_cells N C" and inner: "reads N C S F t j v" and c: "C c = Some t"
  shows "reads N C S F (TRef c) j v"
proof (rule readsI)
  fix b e i i' a h
  assume at: "text_at N b e i j i'" and ok: "heap_ok h" and dst: "inside S (TRef c) a h"
  have wft: "lay_ok S t" "jit_ty N t" using wfc jc c by (auto simp: cells_ok_def shaped_def jit_cells_def)
  obtain h' where "returns (\<lambda>n. parse n C F b e t a i h) (i', h')" "placed C S t a v h h'"
    by (rule readsD [OF inner at wft ok inside_ref [OF dst c wfc]])
  then show "\<exists>h'. returns (\<lambda>n. parse (Suc n) C F b e (TRef c) a i h) (i', h') \<and> placed C S (TRef c) a v h h'"
    using placed_ref [OF _ c wfc] c by auto
qed

end
