(* ===== verification/Jit_Seq.thy ===== *)
theory Jit_Seq
  imports Jit_Read
begin

text \<open>
  Tuples and vectors: the element loops of the compiled parsers, with the geometric growth of the
  vector's buffer.
\<close>

section \<open>One element of an array text\<close>

text \<open>What stands behind a text at a cursor, and the room and size conditions that go with it.\<close>

definition room :: "nat \<Rightarrow> bytes \<Rightarrow> nat \<Rightarrow> bool" where
  "room N b i' \<longleftrightarrow> i' + N \<le> length b \<and> length b < 2 ^ 31"

lemma room_mono: "room N b i' \<Longrightarrow> i \<le> i' \<Longrightarrow> room N b i"
  by (simp add: room_def)

lemma text_atI:
  "view b e i (w @ tx @ r) \<Longrightarrow> list_all ws_byte w \<Longrightarrow> value_text j tx \<Longrightarrow> ends r \<Longrightarrow>
   room N b (i + length w + length tx) \<Longrightarrow> text_at N b e i j (i + length w + length tx)"
  unfolding text_at_def room_def by blast

lemma opt_comma_next:
  assumes v: "view b e c (w @ x # r)" and w: "list_all ws_byte w" and x: "0x20 < x"
  shows "opt_comma b e c = Inr (if x = COMMA then c + length w + 1 else c + length w)"
proof -
  have "ws b e c = Inr (c + length w)" by (rule ws_view [OF v ws_byte_le [OF w]]) (simp add: x)
  then show ?thesis using view_Cons(2) [OF view_append [OF v]] by (simp add: opt_comma_def)
qed

text \<open>
  An array text with a first element: the element's text, and a cursor behind the optional comma
  where the remaining array text starts.
\<close>

lemma elems_step:
  assumes t: "elems_text (j # js) t" and v: "view b e i (t @ r)" and rm: "room N b (i + length t)"
  obtains c t2 c2 where "text_at N b e i j c" "opt_comma b e c = Inr c2"
    "view b e c2 (t2 @ r)" "elems_text js t2" "c2 + length t2 = i + length t"
  using t
proof (cases rule: elems_text.cases)
  case (elems_last w tx w')
  have vt: "view b e i (w @ tx @ w' @ RBRACKET # r)" using v elems_last by simp
  have vw: "view b e (i + length w + length tx) (w' @ RBRACKET # r)" by (intro view_append vt)
  have at: "text_at N b e i j (i + length w + length tx)"
    by (rule text_atI [OF vt]) (use elems_last room_mono [OF rm] in \<open>auto intro: ends_ws\<close>)
  have "opt_comma b e (i + length w + length tx) = Inr (i + length w + length tx + length w')"
    using opt_comma_next [OF vw] elems_last by simp
  moreover have "view b e (i + length w + length tx + length w') ([RBRACKET] @ r)"
    using view_append [OF vw] by simp
  moreover have "elems_text js [RBRACKET]" using elems_last elems_end [of "[]"] by simp
  ultimately show thesis using that [OF at, of _ "[RBRACKET]"] elems_last by simp
next
  case (elems_more w tx w' t')
  have vt: "view b e i (w @ tx @ w' @ COMMA # t' @ r)" using v elems_more by simp
  have vw: "view b e (i + length w + length tx) (w' @ COMMA # t' @ r)" by (intro view_append vt)
  have at: "text_at N b e i j (i + length w + length tx)"
    by (rule text_atI [OF vt]) (use elems_more room_mono [OF rm] in \<open>auto intro: ends_ws\<close>)
  have "opt_comma b e (i + length w + length tx) = Inr (i + length w + length tx + length w' + 1)"
    using opt_comma_next [OF vw] elems_more by simp
  moreover have "view b e (i + length w + length tx + length w' + 1) (t' @ r)"
    using view_Cons(3) [OF view_append [OF vw]] by simp
  ultimately show thesis using that [OF at] elems_more by simp
qed

lemma elems_first:
  assumes "elems_text (j # js) t" and v: "view b e i (t @ r)"
  obtains c w u where "ws b e i = Inr c" "load_u8 b c = Inr (hd u)" "value_start (hd u)" "c = i + length w"
    "t = w @ u" "elems_text (j # js) u"
  using assms(1)
proof (cases rule: elems_text.cases)
  case (elems_last w tx w')
  obtain x xs where x: "tx = x # xs" "value_start x" using value_text_start [of j tx] elems_last by metis
  have vt: "view b e i (w @ x # xs @ w' @ RBRACKET # r)" using v elems_last x by simp
  have "ws b e i = Inr (i + length w)"
    by (rule ws_view [OF vt]) (use elems_last ws_byte_le x value_start_gt in auto)
  moreover have "load_u8 b (i + length w) = Inr x" by (rule view_Cons(2) [OF view_append [OF vt]])
  moreover have "elems_text (j # js) (tx @ w' @ [RBRACKET])"
    using text_intros(9) [of "[]" j tx w'] elems_last by simp
  ultimately show thesis using that [of "i + length w" "tx @ w' @ [RBRACKET]" w] elems_last x by simp
next
  case (elems_more w tx w' t')
  obtain x xs where x: "tx = x # xs" "value_start x" using value_text_start [of j tx] elems_more by metis
  have vt: "view b e i (w @ x # xs @ w' @ COMMA # t' @ r)" using v elems_more x by simp
  have "ws b e i = Inr (i + length w)"
    by (rule ws_view [OF vt]) (use elems_more ws_byte_le x value_start_gt in auto)
  moreover have "load_u8 b (i + length w) = Inr x" by (rule view_Cons(2) [OF view_append [OF vt]])
  moreover have "elems_text (j # js) (tx @ w' @ COMMA # t')"
    using text_intros(10) [of "[]" j tx w' js t'] elems_more by simp
  ultimately show thesis using that [of "i + length w" "tx @ w' @ COMMA # t'" w] elems_more x by simp
qed

lemma elems_done:
  assumes "elems_text [] t" and v: "view b e i (t @ r)"
  obtains c where "ws b e i = Inr c" "load_u8 b c = Inr RBRACKET" "Suc c = i + length t"
    "view b e c ([RBRACKET] @ r)"
  using assms(1)
proof (cases rule: elems_text.cases)
  case (elems_end w)
  have vt: "view b e i (w @ RBRACKET # r)" using v elems_end by simp
  have "ws b e i = Inr (i + length w)"
    by (rule ws_view [OF vt]) (use elems_end ws_byte_le in auto)
  moreover have "load_u8 b (i + length w) = Inr RBRACKET" by (rule view_Cons(2) [OF view_append [OF vt]])
  ultimately show thesis using that elems_end view_append [OF vt] by simp
qed

section \<open>Tuples\<close>

definition tuple_step ::
  "nat \<Rightarrow> (cell_id \<rightharpoonup> ty) \<Rightarrow> ext_ops \<Rightarrow> bytes \<Rightarrow> nat \<Rightarrow> addr \<Rightarrow> field \<Rightarrow> nat \<times> heap \<Rightarrow> (nat \<times> heap) res" where
  "tuple_step n C F b e a f s = (case s of (c, h) \<Rightarrow>
     bindR (parse n C F b e (f_ty f) (a + f_offset f) c h) (\<lambda>(c, h).
     bindR (opt_comma b e c) (\<lambda>c. Inr (c, h))))"

definition slots_read ::
  "nat \<Rightarrow> (cell_id \<rightharpoonup> ty) \<Rightarrow> (cell_id \<Rightarrow> shape) \<Rightarrow> ext_ops \<Rightarrow> slot list \<Rightarrow> val list \<Rightarrow> bool" where
  "slots_read N C S F ss vs \<longleftrightarrow> list_all2 (\<lambda>(f, jo) v. case jo of
       Some j \<Rightarrow> reads N C S F (f_ty f) j v
     | None \<Rightarrow> is_opt (f_ty f) \<and> v = VNone) ss vs"

lemma returns_fold_res:
  "returns (\<lambda>n. f n x s) s' \<Longrightarrow> returns (\<lambda>n. fold_res (f n) xs s') s'' \<Longrightarrow>
   returns (\<lambda>n. fold_res (f n) (x # xs) s) s''"
  using returns_bind [of "\<lambda>n. f n x s" s' "\<lambda>s n. fold_res (f n) xs s" s''] by simp

lemma tuple_fields_read:
  assumes wfc: "cells_ok C S" and len: "length js = length fs"
  shows "slots_read N C S F (tuple_slots fs js) vs \<Longrightarrow> elems_text js t \<Longrightarrow> view b e i (t @ r) \<Longrightarrow>
    room N b (i + length t) \<Longrightarrow> heap_ok h \<Longrightarrow> sorted_wrt (fields_apart S) fs \<Longrightarrow>
    (\<forall>f \<in> set fs. lay_ok S (f_ty f) \<and> jit_ty N (f_ty f) \<and> inside S (f_ty f) (a + f_offset f) h) \<Longrightarrow>
    \<exists>c h' t2. returns (\<lambda>n. fold_res (tuple_step n C F b e a) fs (i, h)) (c, h')
      \<and> placed_fields C S fs a vs h h' \<and> elems_text [] t2 \<and> view b e c (t2 @ r) \<and> c + length t2 = i + length t"
  using len
proof (induction js fs arbitrary: vs t i h rule: list_induct2)
  case Nil
  then show ?case by (auto simp: slots_read_def tuple_slots_def intro: placed_fields_nil)
next
  case (Cons j js f fs)
  obtain v vs' where vs: "vs = v # vs'" "reads N C S F (f_ty f) j v" "slots_read N C S F (tuple_slots fs js) vs'"
    using Cons.prems(1) by (auto simp: slots_read_def tuple_slots_def list_all2_Cons1)
  obtain c t2 c2 where c: "text_at N b e i j c" "opt_comma b e c = Inr c2" "view b e c2 (t2 @ r)"
    "elems_text js t2" "c2 + length t2 = i + length t"
    by (rule elems_step [OF Cons.prems(2,3,4)])
  obtain h1 where h1: "returns (\<lambda>n. parse n C F b e (f_ty f) (a + f_offset f) i h) (c, h1)"
    "placed C S (f_ty f) (a + f_offset f) v h h1"
    using readsD [OF vs(2) c(1)] Cons.prems(5,7) by auto
  have step: "returns (\<lambda>n. tuple_step n C F b e a f (i, h)) (c2, h1)"
    using returns_bind [OF h1(1), of "\<lambda>(c, h) _. bindR (opt_comma b e c) (\<lambda>c. Inr (c, h))"] c(2)
    by (simp add: tuple_step_def case_prod_unfold)
  have fs: "\<forall>f \<in> set fs. lay_ok S (f_ty f) \<and> jit_ty N (f_ty f) \<and> inside S (f_ty f) (a + f_offset f) h1"
    using Cons.prems(7) inside_mono [OF _ placed_brk [OF h1(2)]] by auto
  have rm: "room N b (c2 + length t2)" and sorted: "sorted_wrt (fields_apart S) fs"
    using Cons.prems(4,6) c(5) by auto
  from Cons.IH [OF vs(3) c(4,3) rm placed_ok [OF h1(2)] sorted fs] obtain c' h' t' where rest: "returns (\<lambda>n. fold_res (tuple_step n C F b e a) fs (c2, h1)) (c', h')"
    "placed_fields C S fs a vs' h1 h'" "elems_text [] t'" "view b e c' (t' @ r)" "c' + length t' = c2 + length t2"
    by blast
  have "placed_fields C S (f # fs) a vs h h'"
    unfolding vs(1) by (rule placed_fields_cons [OF h1(2) rest(2) wfc]) (use Cons.prems in auto)
  then show ?case using returns_fold_res [where f = "\<lambda>n. tuple_step n C F b e a", OF step rest(1)] rest(3-5) c(5)
    by metis
qed

lemma array_text:
  assumes "value_text (Array js) tx"
  obtains t where "tx = LBRACKET # t" "elems_text js t"
  using assms by (auto elim: value_text.cases)

lemma reads_tuple:
  assumes wfc: "cells_ok C S" and len: "length js = length fs" and ss: "slots_read N C S F (tuple_slots fs js) vs"
  shows "reads N C S F (TTuple fs) (Array js) (VTuple vs)"
proof (rule readsI)
  fix b e i i' a h
  assume at: "text_at N b e i (Array js) i'" and wf: "lay_ok S (TTuple fs)" and jt: "jit_ty N (TTuple fs)"
    and ok: "heap_ok h" and dst: "inside S (TTuple fs) a h"
  obtain w tx r where v: "view b e i (w @ tx @ r)" "list_all ws_byte w" "value_text (Array js) tx" "ends r"
    "i' = i + length w + length tx" "i' + N \<le> length b" "length b < 2 ^ 31" by (rule text_atE [OF at])
  obtain t where t: "tx = LBRACKET # t" "elems_text js t" by (rule array_text [OF v(3)])
  have vt: "view b e i (w @ LBRACKET # t @ r)" using v(1) t by simp
  have ws: "ws b e i = Inr (i + length w)" by (rule ws_view [OF vt ws_byte_le [OF v(2)]]) simp
  have v1: "view b e (Suc (i + length w)) (t @ r)" by (rule view_Cons(3) [OF view_append [OF vt]])
  have rm: "room N b (Suc (i + length w) + length t)" using v(5-7) t by (simp add: room_def)
  have fs: "\<forall>f \<in> set fs. lay_ok S (f_ty f) \<and> jit_ty N (f_ty f) \<and> inside S (f_ty f) (a + f_offset f) h"
    using wf jt inside_field [OF dst [unfolded inside_tuple [where nm = "[]"]]] by auto
  have "sorted_wrt (fields_apart S) fs" using wf by simp
  from tuple_fields_read [OF wfc len ss t(2) v1 rm ok this fs] obtain c h' t2 where c: "returns (\<lambda>n. fold_res (tuple_step n C F b e a) fs (Suc (i + length w), h)) (c, h')"
    "placed_fields C S fs a vs h h'" "elems_text [] t2" "view b e c (t2 @ r)"
    "c + length t2 = Suc (i + length w) + length t"
    by blast
  obtain c1 where d: "ws b e c = Inr c1" "Suc c1 = c + length t2" using elems_done [OF c(3,4)] by metis
  have "returns (\<lambda>n. parse (Suc n) C F b e (TTuple fs) a i h) (i', h')"
    using returns_bind [OF c(1), of "\<lambda>(c, h) _. bindR (ws b e c) (\<lambda>c. Inr (c + 1, h))"] ws d c(5) v(5) t(1)
    by (simp add: parse_tuple_def tuple_step_def [abs_def] case_prod_unfold)
  then show "\<exists>h'. returns (\<lambda>n. parse (Suc n) C F b e (TTuple fs) a i h) (i', h')
      \<and> placed C S (TTuple fs) a (VTuple vs) h h'"
    using placed_struct(2) [OF c(2)] by blast
qed

end
