(* ===== verification/Jit_Struct.thy ===== *)
theory Jit_Struct
  imports Jit_Seq
begin

text \<open>
  Objects: the compiled struct parser finds the field of each key, whatever the order of the
  members, skips unknown keys, and leaves absent option fields at the defaults written first.
\<close>

section \<open>One member of an object text\<close>

definition member_at ::
  "nat \<Rightarrow> ext_ops \<Rightarrow> bytes \<Rightarrow> nat \<Rightarrow> nat \<Rightarrow> bytes \<Rightarrow> json \<Rightarrow> nat \<Rightarrow> bool" where
  "member_at N F b e i k j c1 \<longleftrightarrow> (\<exists>hc kp ca cb. ws b e i = Inr hc \<and> load_u8 b hc = Inr QUOTE
     \<and> strspan F b e hc = Inr (kp, length k, ca, False) \<and> ws b e ca = Inr cb
     \<and> take (length k) (drop kp b) = k \<and> kp + length k \<le> e \<and> e \<le> length b \<and> kp + N \<le> length b
     \<and> text_at N b e (Suc cb) j c1)"

lemma member_atE:
  assumes "member_at N F b e i k j c1"
  obtains hc kp ca cb where "ws b e i = Inr hc" "load_u8 b hc = Inr QUOTE"
    "strspan F b e hc = Inr (kp, length k, ca, False)" "ws b e ca = Inr cb"
    "take (length k) (drop kp b) = k" "kp + length k \<le> e" "e \<le> length b" "kp + N \<le> length b"
    "text_at N b e (Suc cb) j c1"
  using assms unfolding member_at_def by blast

lemma member_atI:
  assumes F: "memchr2_ok F" and v: "view b e i (w @ QUOTE # k @ QUOTE # w1 @ COLON # w2 @ tx @ w' @ rest)"
    and ws: "list_all ws_byte w" "list_all ws_byte w1" "list_all ws_byte w2" "list_all ws_byte w'"
    and k: "list_all raw_char k" and tx: "value_text j tx" and rest: "ends rest"
    and rm: "room N b (i + length w + length k + length w1 + length w2 + length tx + 3)"
  shows "member_at N F b e i k j (i + length w + length k + length w1 + length w2 + length tx + 3)"
proof -
  let ?r1 = "w1 @ COLON # w2 @ tx @ w' @ rest"
  have hc: "ws b e i = Inr (i + length w)" by (rule ws_view [OF v ws_byte_le [OF ws(1)]]) simp
  have vq: "view b e (i + length w) (QUOTE # k @ QUOTE # ?r1)" by (rule view_append [OF v])
  have vk: "view b e (Suc (i + length w)) (k @ QUOTE # ?r1)" by (rule view_Cons(3) [OF vq])
  have "\<not> has_escape k" using k by (auto simp: has_escape_def list_all_iff raw_char_def)
  then have sp: "strspan F b e (i + length w)
      = Inr (Suc (i + length w), length k, i + length w + length k + 2, False)"
    using strspan_view [OF F, of b e "i + length w" "[]" k ?r1 k] vq body_val_raw_all [OF k] by simp
  have va: "view b e (i + length w + length k + 2) (w1 @ COLON # w2 @ tx @ w' @ rest)"
    using view_Cons(3) [OF view_append [OF vk]] by simp
  have cb: "ws b e (i + length w + length k + 2) = Inr (i + length w + length k + 2 + length w1)"
    by (rule ws_view [OF va ws_byte_le [OF ws(2)]]) simp
  have vb: "view b e (i + length w + length k + 2 + length w1 + 1) (w2 @ tx @ w' @ rest)"
    using view_Cons(3) [OF view_append [OF va]] by simp
  have "text_at N b e (i + length w + length k + 2 + length w1 + 1) j
      (i + length w + length k + 2 + length w1 + 1 + length w2 + length tx)"
    by (rule text_atI [OF vb ws(3) tx ends_ws [OF ws(4) rest]]) (use rm in \<open>simp add: room_def\<close>)
  moreover have "i + length w + length k + 2 + length w1 + 1 + length w2 + length tx
      = i + length w + length k + length w1 + length w2 + length tx + 3" by simp
  ultimately have at: "text_at N b e (i + length w + length k + 2 + length w1 + 1) j
      (i + length w + length k + length w1 + length w2 + length tx + 3)"
    by metis
  have key: "take (length k) (drop (Suc (i + length w)) b) = k" by (rule view_bytes [OF vk])
  have "Suc (i + length w) + length k \<le> e" "e \<le> length b"
    using view_length [OF vk] vk by (auto simp: view_def)
  moreover have "Suc (i + length w) + N \<le> length b" using rm by (simp add: room_def)
  ultimately show ?thesis
    unfolding member_at_def
    using hc view_Cons(2) [OF vq] sp cb at key
    by (intro exI [of _ "i + length w"] exI [of _ "Suc (i + length w)"]
      exI [of _ "i + length w + length k + 2"] exI [of _ "i + length w + length k + 2 + length w1"]) simp
qed

lemma members_step:
  assumes F: "memchr2_ok F" and t: "members_text ((k, j) # ms) t" and v: "view b e i (t @ r)"
    and rm: "room N b (i + length t)"
  obtains c1 c2 t2 where "member_at N F b e i k j c1" "opt_comma b e c1 = Inr c2" "view b e c2 (t2 @ r)"
    "members_text ms t2" "c2 + length t2 = i + length t"
  using t
proof (cases rule: members_text.cases)
  case (members_last w w1 w2 tx w')
  let ?c1 = "i + length w + length k + length w1 + length w2 + length tx + 3"
  have vt: "view b e i (w @ QUOTE # k @ QUOTE # w1 @ COLON # w2 @ tx @ w' @ RBRACE # r)"
    using v members_last by simp
  have m: "member_at N F b e i k j ?c1"
    by (rule member_atI [OF F vt]) (use members_last room_mono [OF rm] in auto)
  have vw: "view b e ?c1 (w' @ RBRACE # r)"
    using view_append [of b e i "w @ QUOTE # k @ QUOTE # w1 @ COLON # w2 @ tx" "w' @ RBRACE # r"] vt
    by (simp add: ac_simps numeral_3_eq_3)
  have "opt_comma b e ?c1 = Inr (?c1 + length w')" using opt_comma_next [OF vw] members_last by simp
  moreover have "view b e (?c1 + length w') ([RBRACE] @ r)" using view_append [OF vw] by simp
  moreover have "members_text ms [RBRACE]" using members_last members_end [of "[]"] by simp
  ultimately show thesis using that [OF m, of _ "[RBRACE]"] members_last by simp
next
  case (members_more w w1 w2 tx w' t')
  let ?c1 = "i + length w + length k + length w1 + length w2 + length tx + 3"
  have vt: "view b e i (w @ QUOTE # k @ QUOTE # w1 @ COLON # w2 @ tx @ w' @ COMMA # t' @ r)"
    using v members_more by simp
  have m: "member_at N F b e i k j ?c1"
    by (rule member_atI [OF F vt]) (use members_more room_mono [OF rm] in auto)
  have vw: "view b e ?c1 (w' @ COMMA # t' @ r)"
    using view_append [of b e i "w @ QUOTE # k @ QUOTE # w1 @ COLON # w2 @ tx" "w' @ COMMA # t' @ r"] vt
    by (simp add: ac_simps numeral_3_eq_3)
  have "opt_comma b e ?c1 = Inr (?c1 + length w' + 1)" using opt_comma_next [OF vw] members_more by simp
  moreover have "view b e (?c1 + length w' + 1) (t' @ r)" using view_Cons(3) [OF view_append [OF vw]] by simp
  ultimately show thesis using that [OF m] members_more by simp
qed

lemma members_done:
  assumes "members_text [] t" and v: "view b e i (t @ r)"
  obtains c where "ws b e i = Inr c" "load_u8 b c = Inr RBRACE" "Suc c = i + length t"
  using assms(1)
proof (cases rule: members_text.cases)
  case (members_end w)
  have vt: "view b e i (w @ RBRACE # r)" using v members_end by simp
  have "ws b e i = Inr (i + length w)"
    by (rule ws_view [OF vt]) (use members_end ws_byte_le in auto)
  moreover have "load_u8 b (i + length w) = Inr RBRACE" by (rule view_Cons(2) [OF view_append [OF vt]])
  ultimately show thesis using that members_end by simp
qed

section \<open>The fields written so far\<close>

text \<open>
  \<open>filling C S a h0 D ps h\<close>: since \<open>h0\<close> only \<open>D\<close> has been written, and the fields \<open>ps\<close> hold their
  values, with all blocks allocated.
\<close>

definition holds_pairs ::
  "(cell_id \<rightharpoonup> ty) \<Rightarrow> memory \<Rightarrow> addr \<Rightarrow> (field \<times> val) list \<Rightarrow> block multiset \<Rightarrow> bool" where
  "holds_pairs C m a ps B \<longleftrightarrow> holds_fields C m (map fst ps) a (map snd ps) B"

definition filling ::
  "(cell_id \<rightharpoonup> ty) \<Rightarrow> addr \<Rightarrow> heap \<Rightarrow> addr set \<Rightarrow> (field \<times> val) list \<Rightarrow> heap \<Rightarrow> bool" where
  "filling C a h0 D ps h \<longleftrightarrow> (\<exists>B. extends h0 h D B
     \<and> (brk h \<le> 2 ^ 64 \<longrightarrow> holds_pairs C (mem h) a ps B))"

abbreviation fbytes :: "(cell_id \<Rightarrow> shape) \<Rightarrow> addr \<Rightarrow> field \<Rightarrow> addr set" where
  "fbytes S a f \<equiv> dst_bytes S (f_ty f) (a + f_offset f)"

lemma holds_pairs_Nil: "holds_pairs C m a [] B \<longleftrightarrow> B = {#}"
  by (auto simp: holds_pairs_def elim: holds_fields.cases intro: holds_intros)

lemma holds_pairs_Cons:
  "holds_pairs C m a (p # ps) B \<longleftrightarrow> (\<exists>B1 B2. B = B1 + B2
     \<and> holds C m (f_ty (fst p)) (a + f_offset (fst p)) (snd p) B1 \<and> holds_pairs C m a ps B2)"
  by (auto simp: holds_pairs_def elim!: holds_fieldsE intro: h_fields_cons_intro)

lemma holds_pairs_move: "holds_pairs C m a (us @ p # zs) B \<longleftrightarrow> holds_pairs C m a (p # us @ zs) B"
proof (induction us arbitrary: B)
  case (Cons u us)
  have swap: "holds_pairs C m a (u # p # xs) B \<Longrightarrow> holds_pairs C m a (p # u # xs) B" for u p xs B
  proof -
    assume "holds_pairs C m a (u # p # xs) B"
    then obtain B1 B2 B3 where B: "B = B1 + (B2 + B3)" "holds_pairs C m a xs B3"
      "holds C m (f_ty (fst u)) (a + f_offset (fst u)) (snd u) B1"
      "holds C m (f_ty (fst p)) (a + f_offset (fst p)) (snd p) B2"
      by (auto simp: holds_pairs_Cons)
    have "B = B2 + (B1 + B3)" using B(1) by (simp add: union_lcomm)
    then show "holds_pairs C m a (p # u # xs) B" using B(2-4) unfolding holds_pairs_Cons by blast
  qed
  have "holds_pairs C m a ((u # us) @ p # zs) B \<longleftrightarrow> holds_pairs C m a (u # p # us @ zs) B"
    by (simp add: holds_pairs_Cons [of _ _ _ u] Cons.IH)
  also have "\<dots> \<longleftrightarrow> holds_pairs C m a (p # u # us @ zs) B" by (rule iffI) (erule swap)+
  finally show ?case by simp
qed simp

lemma holds_pairs_perm: "mset ps = mset qs \<Longrightarrow> holds_pairs C m a ps B \<Longrightarrow> holds_pairs C m a qs B"
proof (induction qs arbitrary: ps B)
  case (Cons x qs)
  then have "x \<in> set ps" by (metis list.set_intros(1) set_mset_mset)
  then obtain us zs where ps: "ps = us @ x # zs" by (meson split_list)
  then have rest: "mset (us @ zs) = mset qs" using Cons.prems(1) by simp
  show ?case
    using Cons.prems(2) Cons.IH [OF rest] unfolding ps holds_pairs_move holds_pairs_Cons by blast
qed simp

lemma holds_pairs_keep:
  assumes "holds_pairs C (mem h1) a ps B" and wfc: "cells_ok C S" and "\<forall>f \<in> fst ` set ps. lay_ok S (f_ty f)"
    and "fresh lo (brk h1) B" and ext: "extends h1 h2 W B'" and "\<And>x. x \<in> W \<Longrightarrow> x < lo"
    and "\<And>f. f \<in> fst ` set ps \<Longrightarrow> W \<inter> fbytes S a f = {} \<and> fbytes S a f \<subseteq> {..<brk h1}"
  shows "holds_pairs C (mem h2) a ps B"
  using assms
proof (induction ps arbitrary: B)
  case Nil
  then show ?case by (simp add: holds_pairs_Nil)
next
  case (Cons p ps)
  then obtain B1 B2 where B: "B = B1 + B2" "holds C (mem h1) (f_ty (fst p)) (a + f_offset (fst p)) (snd p) B1"
    "holds_pairs C (mem h1) a ps B2" by (auto simp: holds_pairs_Cons)
  have fr: "fresh lo (brk h1) B1" "fresh lo (brk h1) B2" using Cons.prems(4) B(1) by auto
  have "holds C (mem h2) (f_ty (fst p)) (a + f_offset (fst p)) (snd p) B1"
    by (rule keeps_holds [OF B(2) wfc _ fr(1) ext]) (use Cons.prems in auto)
  moreover have "holds_pairs C (mem h2) a ps B2" using Cons.IH [OF B(3)] Cons.prems fr(2) by auto
  ultimately show ?case using B(1) by (auto simp: holds_pairs_Cons)
qed

text \<open>The fields of a struct being filled: well formed, apart, inside the destination.\<close>

definition frame_ok ::
  "(cell_id \<rightharpoonup> ty) \<Rightarrow> (cell_id \<Rightarrow> shape) \<Rightarrow> field list \<Rightarrow> addr \<Rightarrow> heap \<Rightarrow> addr set \<Rightarrow> bool" where
  "frame_ok C S fs a h0 D \<longleftrightarrow> cells_ok C S \<and> (\<forall>f \<in> set fs. lay_ok S (f_ty f) \<and> fbytes S a f \<subseteq> D)
     \<and> D \<subseteq> {..<brk h0} \<and> (\<forall>f \<in> set fs. \<forall>g \<in> set fs. f \<noteq> g \<longrightarrow> fbytes S a f \<inter> fbytes S a g = {})"

lemma frame_apart:
  "frame_ok C S fs a h0 D \<Longrightarrow> f \<in> set fs \<Longrightarrow> g \<in> set fs \<Longrightarrow> f \<noteq> g \<Longrightarrow> brk h0 \<le> brk h \<Longrightarrow>
   fbytes S a f \<inter> fbytes S a g = {} \<and> fbytes S a g \<subseteq> {..<brk h}"
  unfolding frame_ok_def by (meson dual_order.trans lessThan_subset_iff)

lemma frame_below: "frame_ok C S fs a h0 D \<Longrightarrow> f \<in> set fs \<Longrightarrow> x \<in> fbytes S a f \<Longrightarrow> x < brk h0"
  unfolding frame_ok_def by blast

lemma filling_start: "heap_ok h \<Longrightarrow> filling C a h D [] h"
  by (auto simp: filling_def holds_pairs_Nil intro: extends_refl)

lemma filling_write:
  assumes st: "filling C a h0 D ps h" and fr: "frame_ok C S fs a h0 D" and ps: "fst ` set ps \<subseteq> set fs"
    and f: "f \<in> set fs" "f \<notin> fst ` set ps" and ext: "extends h h' (fbytes S a f) {#}"
  shows "filling C a h0 D ps h'"
proof -
  obtain B where B: "extends h0 h D B" "brk h \<le> 2 ^ 64 \<longrightarrow> holds_pairs C (mem h) a ps B"
    using st unfolding filling_def by blast
  have "extends h0 h' D (B + {#})"
    by (rule extends_trans [OF B(1) ext]) (use fr f in \<open>auto simp: frame_ok_def\<close>)
  moreover have "holds_pairs C (mem h') a ps B" if "brk h' \<le> 2 ^ 64"
  proof (rule holds_pairs_keep [OF _ _ _ _ ext])
    show "holds_pairs C (mem h) a ps B" using B(2) that extends_brk [OF ext] by simp
    show "fresh (brk h0) (brk h) B" using B(1) by (simp add: extends_def)
    show "fbytes S a f \<inter> fbytes S a g = {} \<and> fbytes S a g \<subseteq> {..<brk h}" if "g \<in> fst ` set ps" for g
      by (rule frame_apart [OF fr f(1) _ _ extends_brk [OF B(1)]]) (use that f ps in auto)
  qed (use fr ps frame_below [OF fr f(1)] in \<open>auto simp: frame_ok_def\<close>)
  ultimately show ?thesis unfolding filling_def by auto
qed

lemma filling_add:
  assumes st: "filling C a h0 D ps h" and fr: "frame_ok C S fs a h0 D" and ps: "fst ` set ps \<subseteq> set fs"
    and f: "f \<in> set fs" "f \<notin> fst ` set ps" and pl: "placed C S (f_ty f) (a + f_offset f) v h h'"
  shows "filling C a h0 D (ps @ [(f, v)]) h'"
proof -
  obtain B where B: "extends h0 h D B" "brk h \<le> 2 ^ 64 \<longrightarrow> holds_pairs C (mem h) a ps B"
    using st unfolding filling_def by blast
  obtain B' where B': "extends h h' (fbytes S a f) B'"
    "brk h' \<le> 2 ^ 64 \<longrightarrow> holds C (mem h') (f_ty f) (a + f_offset f) v B'"
    by (rule placedE [OF pl])
  have "extends h0 h' D (B + B')"
    by (rule extends_trans [OF B(1) B'(1)]) (use fr f in \<open>auto simp: frame_ok_def\<close>)
  moreover have "holds_pairs C (mem h') a (ps @ [(f, v)]) (B + B')" if le: "brk h' \<le> 2 ^ 64"
  proof -
    have "holds_pairs C (mem h') a ps B"
    proof (rule holds_pairs_keep [OF _ _ _ _ B'(1)])
      show "holds_pairs C (mem h) a ps B" using B(2) le extends_brk [OF B'(1)] by simp
      show "fresh (brk h0) (brk h) B" using B(1) by (simp add: extends_def)
      show "fbytes S a f \<inter> fbytes S a g = {} \<and> fbytes S a g \<subseteq> {..<brk h}" if "g \<in> fst ` set ps" for g
        by (rule frame_apart [OF fr f(1) _ _ extends_brk [OF B(1)]]) (use that f ps in auto)
    qed (use fr ps frame_below [OF fr f(1)] in \<open>auto simp: frame_ok_def\<close>)
    then show ?thesis
      using B'(2) le unfolding holds_pairs_move [where zs = "[]", simplified]
      by (auto simp: holds_pairs_Cons add.commute)
  qed
  ultimately show ?thesis unfolding filling_def by auto
qed

lemma filling_ok: "filling C a h0 D ps h \<Longrightarrow> heap_ok h \<and> brk h0 \<le> brk h"
  by (auto simp: filling_def dest: extends_ok extends_brk)

section \<open>The defaults\<close>

lemma none_default_extends:
  assumes "lay_ok S (f_ty f)" and "jit_ty N (f_ty f)" and "heap_ok h"
  shows "extends h (none_default a f h) (fbytes S a f) {#}"
proof (cases "f_ty f")
  case (TOpt disc_off ds nd sd payload_off sz t)
  have "extends h (memset0 (a + f_offset f) sz h) (fbytes S a f) {#}"
    using TOpt by (simp add: memset0_eq dst_bytes_def extends_write [OF assms(3)])
  then show ?thesis
    using TOpt assms by (auto simp: none_default_def store_imm_eq dst_bytes_def intro!: extends_then_write)
qed (use assms in \<open>auto simp: none_default_def intro: extends_refl\<close>)

lemma none_default_placed:
  assumes "lay_ok S (f_ty f)" and "jit_ty N (f_ty f)" and "heap_ok h" and "is_opt (f_ty f)"
  shows "placed C S (f_ty f) (a + f_offset f) VNone h (none_default a f h)"
  using assms none_stores by (cases "f_ty f") (auto simp: is_opt_def none_default_def)

definition absent :: "field list \<Rightarrow> (bytes \<times> json) list \<Rightarrow> field list" where
  "absent fs ms = filter (\<lambda>f. is_opt (f_ty f) \<and> map_of ms (f_name f) = None) fs"

lemma defaults_filling:
  assumes fr: "frame_ok C S fs a h0 D" and jt: "\<forall>f \<in> set fs. jit_ty N (f_ty f)"
  shows "distinct gs \<Longrightarrow> set gs \<subseteq> set fs \<Longrightarrow> fst ` set ps \<subseteq> set fs \<Longrightarrow> fst ` set ps \<inter> set gs = {} \<Longrightarrow>
    filling C a h0 D ps h \<Longrightarrow>
    filling C a h0 D (ps @ map (\<lambda>f. (f, VNone)) (absent gs ms)) (fold (none_default a) gs h)"
proof (induction gs arbitrary: ps h)
  case Nil
  then show ?case by (simp add: absent_def)
next
  case (Cons g gs)
  have g: "g \<in> set fs" "g \<notin> fst ` set ps" "lay_ok S (f_ty g)" "jit_ty N (f_ty g)" "heap_ok h"
    using Cons.prems fr jt filling_ok [OF Cons.prems(5)] by (auto simp: frame_ok_def)
  show ?case
  proof (cases "is_opt (f_ty g) \<and> map_of ms (f_name g) = None")
    case True
    have st: "filling C a h0 D (ps @ [(g, VNone)]) (none_default a g h)"
      using g True by (intro filling_add [OF Cons.prems(5) fr Cons.prems(3)] none_default_placed) auto
    have "filling C a h0 D ((ps @ [(g, VNone)]) @ map (\<lambda>f. (f, VNone)) (absent gs ms))
        (fold (none_default a) gs (none_default a g h))"
      by (rule Cons.IH [OF _ _ _ _ st]) (use Cons.prems in auto)
    then show ?thesis using True by (simp add: absent_def)
  next
    case False
    have st: "filling C a h0 D ps (none_default a g h)"
      by (rule filling_write [OF Cons.prems(5) fr Cons.prems(3) g(1,2) none_default_extends [OF g(3,4,5)]])
    have "filling C a h0 D (ps @ map (\<lambda>f. (f, VNone)) (absent gs ms))
        (fold (none_default a) gs (none_default a g h))"
      by (rule Cons.IH [OF _ _ _ _ st]) (use Cons.prems in auto)
    then show ?thesis using False by (auto simp: absent_def)
  qed
qed

section \<open>The loop over the members\<close>

definition found :: "field list \<Rightarrow> (field \<Rightarrow> val) \<Rightarrow> (bytes \<times> json) list \<Rightarrow> (field \<times> val) list" where
  "found fs W ms = concat (map (\<lambda>(k, j). map (\<lambda>f. (f, W f)) (filter (\<lambda>f. f_name f = k) fs)) ms)"

lemma found_iff: "p \<in> set (found fs W ms) \<longleftrightarrow> fst p \<in> set fs \<and> f_name (fst p) \<in> fst ` set ms \<and> snd p = W (fst p)"
proof (induction ms)
  case (Cons m ms)
  have "found fs W (m # ms) = map (\<lambda>f. (f, W f)) (filter (\<lambda>f. f_name f = fst m) fs) @ found fs W ms"
    by (simp add: found_def case_prod_unfold)
  then show ?case using Cons by (cases p) auto
qed (simp add: found_def)

lemma position_filter:
  "distinct (map f_name fs) \<Longrightarrow> filter (\<lambda>f. f_name f = k) fs
    = (case field_named fs k of Some i \<Rightarrow> [fs ! i] | None \<Rightarrow> [])"
  unfolding field_named_def
proof (induction fs)
  case (Cons f fs)
  have "f_name f = k \<Longrightarrow> filter (\<lambda>f. f_name f = k) fs = []"
    using Cons.prems by (simp add: filter_empty_conv) (metis imageI)
  then show ?case using Cons by (auto split: option.splits)
qed simp

lemma field_named_Some:
  "field_named fs k = Some i \<Longrightarrow> i < length fs \<and> f_name (fs ! i) = k"
  unfolding field_named_def by (induction fs arbitrary: i) (auto split: if_splits)

lemma text_at_skip: "text_at N b e i j i' \<Longrightarrow> rt_skip b e i = Inr i'"
  by (elim text_atE) (use rt_skip_text in auto)

lemma struct_loop_read:
  assumes F: "memchr2_ok F" and fr: "frame_ok C S fs a h0 D" and nm: "distinct (map f_name fs)"
    and jt: "\<forall>f \<in> set fs. length (f_name f) \<le> N \<and> jit_ty N (f_ty f)"
  shows "members_text ms tx \<Longrightarrow> view b e i (tx @ r) \<Longrightarrow> room N b (i + length tx) \<Longrightarrow>
    distinct (map fst ms) \<Longrightarrow> filling C a h0 D ps h \<Longrightarrow> fst ` set ps \<subseteq> set fs \<Longrightarrow>
    (\<forall>f \<in> fst ` set ps. f_name f \<notin> fst ` set ms) \<Longrightarrow>
    (\<forall>f \<in> set fs. \<forall>j. (f_name f, j) \<in> set ms \<longrightarrow> reads N C S F (f_ty f) j (W f)) \<Longrightarrow>
    \<exists>h'. returns2 (\<lambda>k n. struct_loop k (parse n C F b e) F b e fs a i h) (i + length tx, h')
      \<and> filling C a h0 D (ps @ found fs W ms) h'"
proof (induction ms arbitrary: tx i ps h)
  case Nil
  obtain c where c: "ws b e i = Inr c" "load_u8 b c = Inr RBRACE" "Suc c = i + length tx"
    by (rule members_done [OF Nil.prems(1,2)])
  have "returns2 (\<lambda>k n. struct_loop k (parse n C F b e) F b e fs a i h) (i + length tx, h)"
    by (rule returns2_Suc) (simp add: c(1,2) c(3) [symmetric])
  then show ?case using Nil.prems(5) by (intro exI conjI) (simp_all add: found_def)
next
  case (Cons m ms)
  obtain k j where m: "m = (k, j)" by (cases m)
  obtain c1 c2 t2 where st: "member_at N F b e i k j c1" "opt_comma b e c1 = Inr c2" "view b e c2 (t2 @ r)"
    "members_text ms t2" "c2 + length t2 = i + length tx"
    using members_step [OF F Cons.prems(1) [unfolded m] Cons.prems(2,3)] by blast
  obtain hc kp ca cb where at: "ws b e i = Inr hc" "load_u8 b hc = Inr QUOTE"
    "strspan F b e hc = Inr (kp, length k, ca, False)" "ws b e ca = Inr cb"
    "take (length k) (drop kp b) = k" "kp + length k \<le> e" "e \<le> length b" "kp + N \<le> length b"
    "text_at N b e (Suc cb) j c1"
    by (rule member_atE [OF st(1)])
  have disp: "dispatch fs b e kp (length k) = Inr (field_named fs k)"
    using dispatch_named [OF at(7,6), of fs] at(5,8) jt by fastforce
  have rm: "room N b (c2 + length t2)" using Cons.prems(3) st(5) by simp
  have hok: "heap_ok h" "brk h0 \<le> brk h" using filling_ok [OF Cons.prems(5)] by auto
  have named: "filter (\<lambda>f. f_name f = k) fs = (case field_named fs k of Some i \<Rightarrow> [fs ! i] | None \<Rightarrow> [])"
    by (rule position_filter [OF nm])
  have step: "\<exists>h1. returns (\<lambda>n. case field_named fs k of
          Some i \<Rightarrow> parse n C F b e (f_ty (fs ! i)) (a + f_offset (fs ! i)) (Suc cb) h
        | None \<Rightarrow> bindR (rt_skip b e (Suc cb)) (\<lambda>c. Inr (c, h))) (c1, h1)
      \<and> filling C a h0 D (ps @ map (\<lambda>f. (f, W f)) (filter (\<lambda>f. f_name f = k) fs)) h1"
  proof (cases "field_named fs k")
    case None
    then show ?thesis using text_at_skip [OF at(9)] Cons.prems(5) named by auto
  next
    case (Some l)
    let ?f = "fs ! l"
    have f: "?f \<in> set fs" "f_name ?f = k" using field_named_Some [OF Some] by auto
    have rd: "reads N C S F (f_ty ?f) j (W ?f)" using Cons.prems(8) f m by auto
    have wf: "lay_ok S (f_ty ?f)" "jit_ty N (f_ty ?f)" using fr jt f by (auto simp: frame_ok_def)
    have ins: "inside S (f_ty ?f) (a + f_offset ?f) h"
      using frame_below [OF fr f(1)] hok(2) by (fastforce simp: inside_def)
    obtain h1 where h1: "returns (\<lambda>n. parse n C F b e (f_ty ?f) (a + f_offset ?f) (Suc cb) h) (c1, h1)"
      "placed C S (f_ty ?f) (a + f_offset ?f) (W ?f) h h1"
      by (rule readsD [OF rd at(9) wf hok(1) ins])
    have new: "?f \<notin> fst ` set ps" using Cons.prems(7) f m by auto
    have "filling C a h0 D (ps @ [(?f, W ?f)]) h1"
      by (rule filling_add [OF Cons.prems(5) fr Cons.prems(6) f(1) new h1(2)])
    then show ?thesis using h1(1) Some named by auto
  qed
  then obtain h1 where h1: "returns (\<lambda>n. case field_named fs k of
          Some i \<Rightarrow> parse n C F b e (f_ty (fs ! i)) (a + f_offset (fs ! i)) (Suc cb) h
        | None \<Rightarrow> bindR (rt_skip b e (Suc cb)) (\<lambda>c. Inr (c, h))) (c1, h1)"
    "filling C a h0 D (ps @ map (\<lambda>f. (f, W f)) (filter (\<lambda>f. f_name f = k) fs)) h1" by blast
  have dist: "distinct (map fst ms)" "k \<notin> fst ` set ms" using Cons.prems(4) m by auto
  have "\<exists>h'. returns2 (\<lambda>k n. struct_loop k (parse n C F b e) F b e fs a c2 h1) (c2 + length t2, h')
      \<and> filling C a h0 D ((ps @ map (\<lambda>f. (f, W f)) (filter (\<lambda>f. f_name f = k) fs)) @ found fs W ms) h'"
    by (rule Cons.IH [OF st(4,3) rm dist(1) h1(2)])
      (use Cons.prems(6,7,8) dist(2) in \<open>auto simp: image_iff\<close>)
  then obtain h' where rest: "returns2 (\<lambda>k n. struct_loop k (parse n C F b e) F b e fs a c2 h1) (i + length tx, h')"
      "filling C a h0 D (ps @ found fs W (m # ms)) h'"
    using st(5) m by (auto simp: found_def)
  have "returns2 (\<lambda>k n. struct_loop k (parse n C F b e) F b e fs a i h) (i + length tx, h')"
  proof (rule returns2_Suc)
    show "returns2 (\<lambda>k n. struct_loop (Suc k) (parse n C F b e) F b e fs a i h) (i + length tx, h')"
      using returns2_bind [OF returns2_lift [OF h1(1)], of "\<lambda>(ac, h) k n. bindR (opt_comma b e ac)
          (\<lambda>ac. struct_loop k (parse n C F b e) F b e fs a ac h)"] st(2) rest(1) at(1-4) disp
      by (simp add: case_prod_unfold Let_def)
  qed
  then show ?case using rest(2) by blast
qed

section \<open>The struct parser\<close>

lemma slots_read_fun:
  assumes "slots_read N C S F (struct_slots fs ms) vs" and "distinct fs"
  obtains W where "vs = map W fs"
    "\<forall>f \<in> set fs. case map_of ms (f_name f) of Some j \<Rightarrow> reads N C S F (f_ty f) j (W f)
       | None \<Rightarrow> is_opt (f_ty f) \<and> W f = VNone"
proof -
  define W where "W f = the (map_of (zip fs vs) f)" for f
  have len: "length fs = length vs"
    using assms(1) by (auto simp: slots_read_def struct_slots_def dest: list_all2_lengthD)
  have W: "W (fs ! i) = vs ! i" if "i < length fs" for i
    using that len map_of_zip_nth [OF len assms(2)] by (simp add: W_def)
  have "vs = map W fs" using len W by (auto intro: nth_equalityI)
  moreover have "case map_of ms (f_name f) of Some j \<Rightarrow> reads N C S F (f_ty f) j (W f)
       | None \<Rightarrow> is_opt (f_ty f) \<and> W f = VNone" if fm: "f \<in> set fs" for f
  proof -
    obtain i where i: "i < length fs" "f = fs ! i" using fm unfolding in_set_conv_nth by blast
    have "case (f, map_of ms (f_name f)) of (f, jo) \<Rightarrow> (case jo of Some j \<Rightarrow> reads N C S F (f_ty f) j (vs ! i)
        | None \<Rightarrow> is_opt (f_ty f) \<and> vs ! i = VNone)"
      using list_all2_nthD [OF assms(1) [unfolded slots_read_def struct_slots_def], of i] i by simp
    then show ?thesis using W [OF i(1)] i(2) by (simp split: option.splits)
  qed
  ultimately show thesis using that by blast
qed

lemma pairs_complete:
  assumes nm: "distinct (map f_name fs)" "distinct (map fst ms)"
    and W: "\<forall>f \<in> set fs. map_of ms (f_name f) = None \<longrightarrow> is_opt (f_ty f) \<and> W f = VNone"
  shows "mset (map (\<lambda>f. (f, VNone)) (absent fs ms) @ found fs W ms) = mset (map (\<lambda>f. (f, W f)) fs)"
proof -
  have fs: "distinct fs" using nm(1) by (simp add: distinct_map)
  have img: "fst ` set (found fs W zs) = {f \<in> set fs. f_name f \<in> fst ` set zs}" for zs
    using found_iff [of _ fs W zs] by (force simp: image_iff)
  have "distinct (map fst (found fs W zs))" if "distinct (map fst zs)" for zs
    using that
  proof (induction zs)
    case (Cons z zs)
    obtain k j where z: "z = (k, j)" by (cases z)
    have "map fst (found fs W (z # zs)) = filter (\<lambda>f. f_name f = k) fs @ map fst (found fs W zs)"
      by (simp add: z found_def comp_def)
    moreover have "set (filter (\<lambda>f. f_name f = k) fs) \<inter> set (map fst (found fs W zs)) = {}"
      using Cons.prems z img [of zs] by auto
    ultimately show ?case using Cons fs z by simp
  qed (simp add: found_def)
  then have d: "distinct (map fst (found fs W ms))" using nm(2) by blast
  have "distinct (map fst (map (\<lambda>f. (f, VNone)) (absent fs ms) @ found fs W ms))"
    using d fs img [of ms] by (auto simp: absent_def comp_def map_of_eq_None_iff)
  then have "distinct (map (\<lambda>f. (f, VNone)) (absent fs ms) @ found fs W ms)" unfolding distinct_map by blast
  moreover have "distinct (map (\<lambda>f. (f, W f)) fs)" using fs by (simp add: distinct_map inj_on_def)
  moreover have "set (map (\<lambda>f. (f, VNone)) (absent fs ms) @ found fs W ms) = set (map (\<lambda>f. (f, W f)) fs)"
  proof -
    have "p \<in> set (found fs W ms) \<longleftrightarrow> (\<exists>f \<in> set fs. map_of ms (f_name f) \<noteq> None \<and> p = (f, W f))" for p
      by (cases p) (auto simp: found_iff map_of_eq_None_iff)
    then show ?thesis using W by (auto simp: absent_def)
  qed
  ultimately show ?thesis using set_eq_iff_mset_eq_distinct by blast
qed

lemma reads_struct:
  assumes wfc: "cells_ok C S" and F: "memchr2_ok F" and keys: "distinct (map fst ms)"
    and ss: "slots_read N C S F (struct_slots fs ms) vs"
  shows "reads N C S F (TStruct nm fs) (Object ms) (VStruct vs)"
proof (rule readsI)
  fix b e i i' a h
  let ?t = "TStruct nm fs" and ?D = "dst_bytes S (TStruct nm fs) a"
  assume at: "text_at N b e i (Object ms) i'" and wf: "lay_ok S ?t" and jt: "jit_ty N ?t"
    and ok: "heap_ok h" and dst: "inside S ?t a h"
  have names: "distinct (map f_name fs)" "distinct fs" using wf by (simp_all add: distinct_map)
  obtain W where W: "vs = map W fs" "\<forall>f \<in> set fs. case map_of ms (f_name f) of
       Some j \<Rightarrow> reads N C S F (f_ty f) j (W f) | None \<Rightarrow> is_opt (f_ty f) \<and> W f = VNone"
    by (rule slots_read_fun [OF ss names(2)])
  have fr: "frame_ok C S fs a h ?D"
  proof -
    have sorted: "sorted_wrt (fields_apart S) fs" using wf by simp
    have apart: "fbytes S a f \<inter> fbytes S a g = {}" if fg: "f \<in> set fs" "g \<in> set fs" "f \<noteq> g" for f g
    proof -
      obtain x y where xy: "x < length fs" "y < length fs" "f = fs ! x" "g = fs ! y" "x \<noteq> y"
        using fg unfolding in_set_conv_nth by blast
      then have "fields_apart S f g \<or> fields_apart S g f"
        using sorted_wrt_nth_less [OF sorted, of x y] sorted_wrt_nth_less [OF sorted, of y x]
        by (cases x y rule: linorder_cases) auto
      then show ?thesis by (auto simp: fields_apart_def dst_bytes_def)
    qed
    show ?thesis
      using wfc wf dst apart fields_in_dst [of S a fs nm] by (fastforce simp: frame_ok_def inside_def)
  qed
  obtain w tx r where v: "view b e i (w @ tx @ r)" "list_all ws_byte w" "value_text (Object ms) tx" "ends r"
    "i' = i + length w + length tx" "i' + N \<le> length b" "length b < 2 ^ 31" by (rule text_atE [OF at])
  obtain t where t: "tx = LBRACE # t" "members_text ms t" using v(3) by (auto elim: value_text.cases)
  have vt: "view b e i (w @ LBRACE # t @ r)" using v(1) t by simp
  have ws: "ws b e i = Inr (i + length w)" by (rule ws_view [OF vt ws_byte_le [OF v(2)]]) simp
  have v1: "view b e (Suc (i + length w)) (t @ r)" by (rule view_Cons(3) [OF view_append [OF vt]])
  have rm: "room N b (Suc (i + length w) + length t)" using v(5-7) t by (simp add: room_def)
  have jfs: "\<forall>f \<in> set fs. length (f_name f) \<le> N \<and> jit_ty N (f_ty f)" using jt by simp
  let ?ps = "map (\<lambda>f. (f, VNone)) (absent fs ms)"
  have start: "filling C a h ?D ?ps (fold (none_default a) fs h)"
    using defaults_filling [OF fr _ names(2) _ _ _ filling_start [OF ok], of N ms] jfs by simp
  have "\<exists>h'. returns2 (\<lambda>k n. struct_loop k (parse n C F b e) F b e fs a (Suc (i + length w))
        (fold (none_default a) fs h)) (Suc (i + length w) + length t, h')
      \<and> filling C a h ?D (?ps @ found fs W ms) h'"
  proof (rule struct_loop_read [OF F fr names(1) jfs t(2) v1 rm keys start])
    show "fst ` set ?ps \<subseteq> set fs" by (auto simp: absent_def)
    show "\<forall>f \<in> fst ` set ?ps. f_name f \<notin> fst ` set ms" by (auto simp: absent_def map_of_eq_None_iff)
    show "\<forall>f \<in> set fs. \<forall>j. (f_name f, j) \<in> set ms \<longrightarrow> reads N C S F (f_ty f) j (W f)"
      using W(2) map_of_is_SomeI [OF keys] by fastforce
  qed
  then obtain h' where l: "returns2 (\<lambda>k n. struct_loop k (parse n C F b e) F b e fs a (Suc (i + length w))
        (fold (none_default a) fs h)) (i', h')" "filling C a h ?D (?ps @ found fs W ms) h'"
    using v(5) t(1) by auto
  have "returns (\<lambda>n. parse (Suc n) C F b e ?t a i h) (i', h')"
    using returns2_diag [OF l(1)] ws by (simp add: parse_struct_def)
  moreover have "placed C S ?t a (VStruct vs) h h'"
  proof -
    obtain B where B: "extends h h' ?D B" "brk h' \<le> 2 ^ 64 \<longrightarrow> holds_pairs C (mem h') a (?ps @ found fs W ms) B"
      using l(2) unfolding filling_def by blast
    have perm: "mset (?ps @ found fs W ms) = mset (map (\<lambda>f. (f, W f)) fs)"
      by (rule pairs_complete [OF names(1) keys]) (use W(2) in fastforce)
    have "holds C (mem h') ?t a (VStruct vs) B" if "brk h' \<le> 2 ^ 64"
    proof -
      have "holds_pairs C (mem h') a (map (\<lambda>f. (f, W f)) fs) B"
        using holds_pairs_perm [OF perm] B(2) that by blast
      then have "holds_fields C (mem h') fs a vs B" using W(1) by (simp add: holds_pairs_def comp_def)
      then show ?thesis by (intro holds_intros)
    qed
    then show ?thesis using B(1) unfolding placed_def by blast
  qed
  ultimately show "\<exists>h'. returns (\<lambda>n. parse (Suc n) C F b e ?t a i h) (i', h') \<and> placed C S ?t a (VStruct vs) h h'"
    by blast
qed

end
