(* ===== verification/Jit_Vec.thy ===== *)
theory Jit_Vec
  imports Jit_Seq
begin

text \<open>
  The vector loop of the compiled parsers: the buffer is reallocated while elements, with blocks of
  their own, already live in it.
\<close>

section \<open>Disjoint live blocks\<close>

lemma live_disjoint:
  assumes ok: "heap_ok h" and live: "live h = L + (add_mset (p, s, al) B)"
  shows "{p..<p + s} \<inter> foot B = {}"
proof (rule ccontr)
  assume "\<not> ?thesis"
  then obtain x where x: "p \<le> x" "x < p + s" "x \<in> foot B" by auto
  then obtain bl where bl: "bl \<in># B" "covers x bl" by (auto simp: foot_def)
  then obtain B' where B: "B = add_mset bl B'" by (meson mset_add)
  have "filter_mset (covers x) (live h) = filter_mset (covers x) L
      + add_mset (p, s, al) (add_mset bl (filter_mset (covers x) B'))"
    using live B x bl by (auto simp: covers_def)
  then have "2 \<le> size (filter_mset (covers x) (live h))" by simp
  then show False using ok unfolding heap_ok_def by (metis not_less_eq_eq numeral_2_eq_2 One_nat_def)
qed

lemma holds_elems_snoc:
  "holds_elems C m t esz a vs B \<Longrightarrow> holds C m t (a + length vs * esz) v B' \<Longrightarrow>
   holds_elems C m t esz a (vs @ [v]) (B + B')"
proof (induction vs arbitrary: a B)
  case Nil
  have B: "B = {#}" using Nil(1) by (auto elim: holds_elems.cases)
  have "holds_elems C m t esz a [v] (B' + {#})"
    using Nil(2) by (intro holds_intros) simp_all
  then show ?case using B by simp
next
  case (Cons u vs)
  from Cons.prems(1) obtain B1 B2 where B: "B = B1 + B2" "holds C m t a u B1" "holds_elems C m t esz (a + esz) vs B2"
    by (rule holds_elemsE) blast
  have "holds_elems C m t esz (a + esz) (vs @ [v]) (B2 + B')"
    using Cons.IH [OF B(3)] Cons.prems(2) by (simp add: add.assoc)
  then have "holds_elems C m t esz a (u # (vs @ [v])) (B1 + (B2 + B'))" by (intro h_elems_cons_intro B)
  then show ?case using B(1) by (simp add: add.assoc)
qed

section \<open>The state of the loop\<close>

text \<open>
  \<open>vec_state\<close>: \<open>k\<close> elements have been parsed into the buffer at \<open>base\<close>, of capacity \<open>cap\<close>; the
  buffer and the elements' blocks are all that was allocated since \<open>h0\<close>, and no other memory of
  \<open>h0\<close> has changed. The capacity is at most twice the number of elements, plus four.
\<close>

definition vec_state ::
  "(cell_id \<rightharpoonup> ty) \<Rightarrow> ty \<Rightarrow> nat \<Rightarrow> nat \<Rightarrow> heap \<Rightarrow> addr \<Rightarrow> nat \<Rightarrow> val list \<Rightarrow> heap \<Rightarrow> bool" where
  "vec_state C t esz al h0 base cap vs h \<longleftrightarrow>
     0 < base \<and> al dvd base \<and> length vs \<le> cap \<and> cap \<le> 2 * length vs + 4 \<and> (brk h \<le> 2 ^ 64 \<longrightarrow> base < 2 ^ 64)
     \<and> (\<exists>B. extends h0 h {} (block_of base (cap * esz) al + B)
        \<and> (brk h \<le> 2 ^ 64 \<longrightarrow> holds_elems C (mem h) t esz base vs B))"

lemma vec_state_init:
  "heap_ok h \<Longrightarrow> is_pow2 al \<Longrightarrow> vec_state C t esz al h al 0 [] h"
  using pow2_lt is_pow2_pos
  by (auto simp: vec_state_def block_of_def intro!: exI [of _ "{#}"] extends_refl holds_intros)

lemma realloc_facts:
  assumes r: "realloc p old al new h = Inr (q, h')" and ok: "heap_ok h" and al: "is_pow2 al" and le: "old \<le> new"
  shows "brk h \<le> q" "brk h' = q + new" "al dvd q" "live h' = add_mset (q, new, al) (live h - {#(p, old, al)#})"
    "(p, old, al) \<in># live h" "heap_ok h'" "0 < new"
    "\<And>x. x < q \<Longrightarrow> mem h' x = mem h x" "same (mem h) p (mem h') q old"
proof -
  let ?q = "align_up (brk h) al"
  let ?h1 = "h\<lparr>brk := ?q + new, live := add_mset (?q, new, al) (live h - {#(p, old, al)#})\<rparr>"
  have *: "q = ?q" "(p, old, al) \<in># live h" "0 < new" "h' = write_bytes q (load (mem h) p (min old new)) ?h1"
    using r by (auto simp: realloc_def Let_def split: if_splits)
  show "brk h \<le> q" using align_up_ge [OF is_pow2_pos [OF al], of "brk h"] * by simp
  have "heap_ok ((h\<lparr>live := live h - {#(p, old, al)#}\<rparr>)\<lparr>brk := q + new,
      live := add_mset (q, new, al) (live (h\<lparr>live := live h - {#(p, old, al)#}\<rparr>))\<rparr>)"
    using heap_ok_free [OF ok] \<open>brk h \<le> q\<close> by (intro heap_ok_grow) simp_all
  then show "heap_ok h'" using * by simp
  show "brk h' = q + new" "live h' = add_mset (q, new, al) (live h - {#(p, old, al)#})" "al dvd q"
    using * align_up_dvd by auto
  show "mem h' x = mem h x" if "x < q" for x using * that by (auto simp: mem_write_outside)
  show "same (mem h) p (mem h') q old"
    using * le by (auto simp: same_def mem_write_bytes)
qed (use r in \<open>auto simp: realloc_def Let_def split: if_splits\<close>)

text \<open>A reallocated block takes the place of the old one among the new blocks.\<close>

lemma extends_realloc:
  assumes e: "extends h0 h {} (add_mset (p, old, al) B)" and r: "realloc p old al new h = Inr (q, h')"
    and al: "is_pow2 al" and le: "old \<le> new"
  shows "extends h0 h' {} (block_of q new al + B)"
proof -
  note rf = realloc_facts [OF r extends_ok [OF e] al le]
  have live: "live h = live h0 + add_mset (p, old, al) B" using e by (simp add: extends_def)
  have "brk h0 \<le> brk h" "fresh (brk h0) (brk h) B" using e by (auto simp: extends_def)
  then have "brk h0 \<le> brk h'" "fresh (brk h0) (brk h') B" using rf(1,2) by (auto intro: fresh_mono)
  then show ?thesis
    using rf live extends_same [OF e] \<open>brk h0 \<le> brk h\<close> by (simp add: extends_def block_of_def)
qed

text \<open>Growing keeps the state: the elements move, their blocks stay.\<close>

lemma vec_state_grow:
  assumes st: "vec_state C t esz al h0 base cap vs h" and al: "is_pow2 al" and wf: "cells_ok C S" "lay_ok S t"
    and esz: "0 < esz" "span S t \<le> esz" and full: "length vs = cap"
    and bound: "(2 * length vs + 4) * esz + (al - 1) < 2 ^ 63"
  shows "\<exists>base' cap' h'. grow (length vs) esz al base cap h = Inr (base', cap', h') \<and> length vs < cap'
    \<and> vec_state C t esz al h0 base' cap' vs h'"
proof -
  obtain B where B: "extends h0 h {} (block_of base (cap * esz) al + B)"
    "brk h \<le> 2 ^ 64 \<longrightarrow> holds_elems C (mem h) t esz base vs B"
    using st unfolding vec_state_def by blast
  have ok: "heap_ok h" using B(1) by (rule extends_ok)
  have almax: "max al 1 = al" using is_pow2_pos [OF al] by simp
  define nc where "nc = (if cap = 0 then 4 else cap * 2)"
  have nc: "nc \<le> 2 * length vs + 4" "cap < nc" using full by (auto simp: nc_def)
  have le: "nc * esz \<le> (2 * length vs + 4) * esz" using nc by simp
  then have small: "nc * esz + (al - 1) < 2 ^ 63" using bound by linarith
  have nc_le: "nc \<le> nc * esz" "cap * esz \<le> nc * esz" using esz nc by simp_all
  have "(2 :: nat) ^ 63 < 2 ^ 64" by simp
  then have "nc * esz < 2 ^ 64" using small by linarith
  moreover from this have "cap * esz < 2 ^ 64" "nc < 2 ^ 64" using nc_le by linarith+
  ultimately have im: "imul cap esz = cap * esz" "imul nc esz = nc * esz" "cap \<noteq> 0 \<Longrightarrow> imul cap 2 = cap * 2"
    by (auto simp: imul_def nc_def)
  then have g: "grow (length vs) esz al base cap h
      = bindR (rt_realloc base (cap * esz) (nc * esz) al h) (\<lambda>(base, h). Inr (base, nc, h))"
    using full by (auto simp: grow_def Let_def nc_def)
  show ?thesis
  proof (cases "cap = 0")
    case True
    then have vs: "vs = []" "B = {#} \<or> \<not> brk h \<le> 2 ^ 64" using full B(2) by (auto elim: holds_elems.cases)
    obtain p h' where nb: "new_block (nc * esz) al h = Inr (p, h')" and b: "buffer (nc * esz) al h p h'"
      using new_block_ok [OF ok al _ small] esz nc by auto
    have "rt_realloc base (cap * esz) (nc * esz) al h = Inr (p, h')"
      using nb esz nc True almax by (simp add: rt_realloc_def Let_def)
    moreover have "extends h0 h {} B" using B(1) True by (simp add: block_of_def)
    then have "extends h0 h' {} (B + block_of p (nc * esz) al)"
      by (rule extends_trans) (use b in \<open>auto simp: buffer_def\<close>)
    moreover have "brk h \<le> brk h'" using b extends_brk by (auto simp: buffer_def)
    ultimately show ?thesis
      using g b nc vs by (auto simp: vec_state_def buffer_def add.commute intro!: exI [of _ B] holds_intros)
  next
    case False
    have blk: "block_of base (cap * esz) al = {#(base, cap * esz, al)#}" using False esz by (simp add: block_of_def)
    have live: "live h = live h0 + add_mset (base, cap * esz, al) B" using B(1) blk by (simp add: extends_def)
    have "cap * esz + (al - 1) < 2 ^ 63" using small nc_le(2) by linarith
    then have lay: "layout (cap * esz) al = Inr ()" using al by (simp add: layout_def)
    obtain q h' where rl: "realloc base (cap * esz) al (nc * esz) h = Inr (q, h')"
      using live small nc_le nc esz by (auto simp: realloc_def Let_def)
    note rf = realloc_facts [OF rl ok al nc_le(2)]
    have "rt_realloc base (cap * esz) (nc * esz) al h = Inr (q, h')"
      using rl lay False esz almax by (simp add: rt_realloc_def Let_def)
    moreover have ext: "extends h0 h' {} (block_of q (nc * esz) al + B)"
      using extends_realloc [OF _ rl al nc_le(2)] B(1) blk by simp
    moreover have "holds_elems C (mem h') t esz q vs B" if le64: "brk h' \<le> 2 ^ 64"
    proof (rule holds_elems_move [OF _ wf(1) wf(2) esz(2)])
      show "holds_elems C (mem h) t esz base vs B" using B(2) rf(1,2) le64 by simp
      show "same (mem h) base (mem h') q (length vs * esz)" using rf(9) full by simp
      fix x assume "x \<in> foot B"
      moreover have "fresh (brk h0) (brk h) B" using B(1) by (simp add: extends_def)
      ultimately show "mem h' x = mem h x" using rf(1,8) fresh_foot by (meson order_less_le_trans)
    qed
    moreover have "0 < q" using heap_ok_pos [OF ok] rf(1) by simp
    moreover have "brk h' \<le> 2 ^ 64 \<longrightarrow> q < 2 ^ 64" using rf(2,7) by linarith
    ultimately show ?thesis
      using g nc rf(3) full by (auto simp: vec_state_def intro!: exI [of _ B])
  qed
qed

text \<open>Parsing one element into the next slot keeps the state.\<close>

lemma vec_state_push:
  assumes st: "vec_state C t esz al h0 base cap vs h" and room: "length vs < cap" and wf: "cells_ok C S" "lay_ok S t"
    and esz: "0 < esz" "span S t \<le> esz"
    and pl: "placed C S t (base + length vs * esz) v h h'"
  shows "vec_state C t esz al h0 base cap (vs @ [v]) h'"
proof -
  let ?d = "base + length vs * esz"
  obtain B where B: "extends h0 h {} (block_of base (cap * esz) al + B)"
    "brk h \<le> 2 ^ 64 \<longrightarrow> holds_elems C (mem h) t esz base vs B"
    using st unfolding vec_state_def by blast
  obtain B' where B': "extends h h' (dst_bytes S t ?d) B'" "brk h' \<le> 2 ^ 64 \<longrightarrow> holds C (mem h') t ?d v B'"
    by (rule placedE [OF pl])
  have blk: "block_of base (cap * esz) al = {#(base, cap * esz, al)#}" using room esz by (simp add: block_of_def)
  have fr: "brk h0 \<le> base" "base + cap * esz \<le> brk h" "fresh (brk h0) (brk h) B"
    using B(1) blk by (auto simp: extends_def)
  have "Suc (length vs) * esz \<le> cap * esz" using room by (intro mult_le_mono1) simp
  then have dst: "dst_bytes S t ?d \<subseteq> {base + length vs * esz..<base + cap * esz}"
    using esz by (auto simp: dst_bytes_def)
  have "extends h0 h' {} (block_of base (cap * esz) al + B + B')"
    by (rule extends_trans [OF B(1) B'(1)]) (use dst fr in force)
  moreover have "holds_elems C (mem h') t esz base (vs @ [v]) (B + B')" if le: "brk h' \<le> 2 ^ 64"
  proof (rule holds_elems_snoc)
    have "live h = live h0 + add_mset (base, cap * esz, al) B" using B(1) blk by (simp add: extends_def)
    then have dj: "{base..<base + cap * esz} \<inter> foot B = {}" by (rule live_disjoint [OF extends_ok [OF B(1)]])
    show "holds_elems C (mem h') t esz base vs B"
    proof (rule holds_elems_move [OF _ wf(1) wf(2) esz(2)])
      show "holds_elems C (mem h) t esz base vs B" using B(2) le extends_brk [OF B'(1)] by simp
      show "same (mem h) base (mem h') base (length vs * esz)"
        unfolding same_def
      proof (intro allI impI)
        fix i assume i: "i < length vs * esz"
        then have "base + i \<notin> dst_bytes S t ?d" "base + i < brk h"
          using dst fr \<open>Suc (length vs) * esz \<le> cap * esz\<close> by (auto simp: dst_bytes_def)
        then show "mem h' (base + i) = mem h (base + i)" using extends_same [OF B'(1)] by blast
      qed
      fix x assume x: "x \<in> foot B"
      moreover have "dst_bytes S t ?d \<subseteq> {base..<base + cap * esz}" using dst by auto
      ultimately have "x \<notin> dst_bytes S t ?d" using dj by blast
      then show "mem h' x = mem h x" using extends_same [OF B'(1)] fresh_foot [OF fr(3) x] by blast
    qed
    show "holds C (mem h') t ?d v B'" using B'(2) le by simp
  qed
  ultimately show ?thesis
    using st room extends_brk [OF B'(1)] unfolding vec_state_def
    by (auto simp: add.assoc intro!: exI [of _ "B + B'"])
qed

section \<open>The loop\<close>

lemma vec_loop_read:
  assumes al: "is_pow2 al" and wf: "cells_ok C S" "lay_ok S t" "jit_ty N t" and esz: "0 < esz" "span S t \<le> esz"
    and bound: "(2 * length (vs0 @ vs) + 4) * esz + (al - 1) < 2 ^ 63"
    and elems: "list_all2 (reads N C S F t) js vs"
  shows "elems_text js tx \<Longrightarrow> view b e i (tx @ r) \<Longrightarrow> room N b (i + length tx) \<Longrightarrow>
    vec_state C t esz al h0 base cap vs0 h \<Longrightarrow>
    \<exists>c base' cap' h'. returns2 (\<lambda>k n. vec_loop k (parse n C F b e t) b e esz al i base cap (length vs0) h)
        (c, base', cap', length (vs0 @ vs), h')
      \<and> vec_state C t esz al h0 base' cap' (vs0 @ vs) h' \<and> view b e c ([RBRACKET] @ r) \<and> Suc c = i + length tx"
  using elems bound
proof (induction js vs arbitrary: vs0 tx i base cap h rule: list_all2_induct)
  case Nil
  obtain c where d: "ws b e i = Inr c" "load_u8 b c = Inr RBRACKET" "Suc c = i + length tx"
    "view b e c ([RBRACKET] @ r)" by (rule elems_done [OF Nil.prems(1,2)])
  have "returns2 (\<lambda>k n. vec_loop k (parse n C F b e t) b e esz al i base cap (length vs0) h)
      (c, base, cap, length vs0, h)"
    by (rule returns2_Suc) (simp add: d)
  then show ?case using Nil.prems(4) d(3,4) by (intro exI conjI) simp_all
next
  case (Cons j js v vs)
  obtain c0 w u where u: "ws b e i = Inr c0" "load_u8 b c0 = Inr (hd u)" "value_start (hd u)" "c0 = i + length w"
    "tx = w @ u" "elems_text (j # js) u"
    by (rule elems_first [OF Cons.prems(1,2)])
  have vu: "view b e c0 (u @ r)" using Cons.prems(2) u(4,5) view_append [of b e i w "u @ r"] by simp
  have rm: "room N b (c0 + length u)" using Cons.prems(3) u(4,5) by (simp add: add.assoc)
  obtain c t2 c2 where c: "text_at N b e c0 j c" "opt_comma b e c = Inr c2" "view b e c2 (t2 @ r)"
    "elems_text js t2" "c2 + length t2 = c0 + length u"
    by (rule elems_step [OF u(6) vu rm])
  have notend: "hd u \<noteq> RBRACKET" using u(3) by auto
  obtain base1 cap1 h1 where g: "grow (length vs0) esz al base cap h = Inr (base1, cap1, h1)" "length vs0 < cap1"
    and st1: "vec_state C t esz al h0 base1 cap1 vs0 h1"
  proof (cases "length vs0 = cap")
    case True
    have "(2 * length vs0 + 4) * esz \<le> (2 * length (vs0 @ v # vs) + 4) * esz" by simp
    then have "(2 * length vs0 + 4) * esz + (al - 1) < 2 ^ 63" using Cons.prems(5) by linarith
    from vec_state_grow [OF Cons.prems(4) al wf(1,2) esz True this] show thesis using that by blast
  next
    case False
    then have "length vs0 < cap" using Cons.prems(4) by (simp add: vec_state_def)
    then show thesis using that [of base cap h] False Cons.prems(4) by (simp add: grow_def)
  qed
  obtain B where B: "extends h0 h1 {} (block_of base1 (cap1 * esz) al + B)"
    using st1 unfolding vec_state_def by blast
  have ok: "heap_ok h1" using B by (rule extends_ok)
  have "block_of base1 (cap1 * esz) al = {#(base1, cap1 * esz, al)#}" using g(2) esz by (simp add: block_of_def)
  then have top: "base1 + cap1 * esz \<le> brk h1" using B by (simp add: extends_def)
  have slot: "Suc (length vs0) * esz \<le> cap1 * esz" using g(2) by (intro mult_le_mono1) simp
  have ins: "inside S t (base1 + length vs0 * esz) h1"
    using slot top esz by (auto simp: inside_def dst_bytes_def)
  obtain h2 where h2: "returns (\<lambda>n. parse n C F b e t (base1 + length vs0 * esz) c0 h1) (c, h2)"
    "placed C S t (base1 + length vs0 * esz) v h1 h2"
    by (rule readsD [OF Cons.hyps(1) c(1) wf(2,3) ok ins])
  have st2: "vec_state C t esz al h0 base1 cap1 (vs0 @ [v]) h2"
    by (rule vec_state_push [OF st1 g(2) wf(1,2) esz h2(2)])
  have "length vs0 * esz \<le> (2 * length (vs0 @ v # vs) + 4) * esz" by (intro mult_le_mono1) simp
  moreover have "(2 :: nat) ^ 63 < 2 ^ 64" by simp
  ultimately have "length vs0 * esz < 2 ^ 64" using Cons.prems(5) by linarith
  then have im: "imul (length vs0) esz = length vs0 * esz" by (simp add: imul_def)
  have rm2: "room N b (c2 + length t2)" using rm c(5) by simp
  have bd2: "(2 * length ((vs0 @ [v]) @ vs) + 4) * esz + (al - 1) < 2 ^ 63" using Cons.prems(5) by simp
  from Cons.IH [where ?vs0.0 = "vs0 @ [v]", OF c(4,3) rm2 st2 bd2]
  obtain c' base' cap' h' where rest:
    "returns2 (\<lambda>k n. vec_loop k (parse n C F b e t) b e esz al c2 base1 cap1 (Suc (length vs0)) h2)
      (c', base', cap', length (vs0 @ v # vs), h')"
    "vec_state C t esz al h0 base' cap' (vs0 @ v # vs) h'" "view b e c' ([RBRACKET] @ r)" "Suc c' = c2 + length t2"
    by auto
  have "returns2 (\<lambda>k n. vec_loop k (parse n C F b e t) b e esz al i base cap (length vs0) h)
      (c', base', cap', length (vs0 @ v # vs), h')"
  proof (rule returns2_Suc)
    show "returns2 (\<lambda>k n. vec_loop (Suc k) (parse n C F b e t) b e esz al i base cap (length vs0) h)
        (c', base', cap', length (vs0 @ v # vs), h')"
      using returns2_bind [OF returns2_lift [OF h2(1)], of "\<lambda>(c, h) k n. bindR (opt_comma b e c)
          (\<lambda>c. vec_loop k (parse n C F b e t) b e esz al c base1 cap1 (Suc (length vs0)) h)"] c(2) rest(1)
        u(1,2) notend g(1) im
      by (simp add: case_prod_unfold)
  qed
  moreover have "Suc c' = i + length tx" using rest(4) c(5) u(4,5) by simp
  ultimately show ?case using rest(2,3) by blast
qed

lemma reads_vec:
  assumes wfc: "cells_ok C S" and elems: "list_all2 (reads N C S F t) js vs"
    and bound: "(2 * length js + 4) * esz + (max 1 al - 1) < 2 ^ 63"
  shows "reads N C S F (TVec t esz al q) (Array js) (VVec vs)"
proof (rule readsI)
  fix b e i i' a h
  let ?t = "TVec t esz al q" and ?al = "max 1 al"
  assume at: "text_at N b e i (Array js) i'" and wf: "lay_ok S ?t" and jt: "jit_ty N ?t"
    and ok: "heap_ok h" and dst: "inside S ?t a h"
  have wft: "lay_ok S t" "jit_ty N t" "0 < esz" "span S t \<le> esz" "is_pow2 ?al" using wf jt by auto
  have len: "length js = length vs" using elems by (rule list_all2_lengthD)
  obtain w tx r where v: "view b e i (w @ tx @ r)" "list_all ws_byte w" "value_text (Array js) tx" "ends r"
    "i' = i + length w + length tx" "i' + N \<le> length b" "length b < 2 ^ 31" by (rule text_atE [OF at])
  obtain t' where t': "tx = LBRACKET # t'" "elems_text js t'" by (rule array_text [OF v(3)])
  have vt: "view b e i (w @ LBRACKET # t' @ r)" using v(1) t' by simp
  have ws: "ws b e i = Inr (i + length w)" by (rule ws_view [OF vt ws_byte_le [OF v(2)]]) simp
  have v1: "view b e (Suc (i + length w)) (t' @ r)" by (rule view_Cons(3) [OF view_append [OF vt]])
  have rm: "room N b (Suc (i + length w) + length t')" using v(5-7) t' by (simp add: room_def)
  have bd: "(2 * length ([] @ vs) + 4) * esz + (?al - 1) < 2 ^ 63" using bound len by simp
  from vec_loop_read [OF wft(5) wfc wft(1,2,3,4) bd elems t'(2) v1 rm vec_state_init [OF ok wft(5)]]
  obtain c base cap h2 where l: "returns2 (\<lambda>k n. vec_loop k (parse n C F b e t) b e esz ?al (Suc (i + length w)) ?al 0 0 h)
      (c, base, cap, length vs, h2)" "vec_state C t esz ?al h base cap vs h2" "view b e c ([RBRACKET] @ r)"
      "Suc c = Suc (i + length w) + length t'"
    by auto
  have wc: "ws b e c = Inr c" using ws_view [of b e c "[]" "RBRACKET # r"] l(3) by simp
  have "placed C S ?t a (VVec vs) h (write_seq a q base cap (length vs) h2)"
  proof -
    obtain B where B: "extends h h2 {} (block_of base (cap * esz) ?al + B)"
      "brk h2 \<le> 2 ^ 64 \<longrightarrow> holds_elems C (mem h2) t esz base vs B"
      using l(2) unfolding vec_state_def by blast
    have cap: "length vs \<le> cap" "cap \<le> 2 * length vs + 4" using l(2) by (auto simp: vec_state_def)
    have "2 * length vs + 4 \<le> (2 * length vs + 4) * esz" using wft(3) by simp
    moreover have "(2 * length vs + 4) * esz + (?al - 1) < 2 ^ 63" using bd by simp
    ultimately have "cap < 2 ^ 63" using cap by linarith
    then show ?thesis
      using l(2) cap by (intro placed_vec [OF B _ _ _ _ _ wf wfc dst]) (auto simp: vec_state_def)
  qed
  moreover have "returns (\<lambda>n. parse (Suc n) C F b e ?t a i h) (i', write_seq a q base cap (length vs) h2)"
    using returns_bind [OF returns2_diag [OF l(1)], of "\<lambda>(fc, base, cap, len, h) _.
        bindR (ws b e fc) (\<lambda>fc. Inr (fc + 1, store_at a (len_off q) len (store_at a (cap_off q) cap
          (store_at a (ptr_off q) base h))))"] ws wc l(4) v(5) t'(1)
    by (simp add: parse_vec_def max.commute [of al] store_at_def write_seq_def Let_def case_prod_unfold)
  ultimately show "\<exists>h'. returns (\<lambda>n. parse (Suc n) C F b e ?t a i h) (i', h') \<and> placed C S ?t a (VVec vs) h h'"
    by blast
qed

end
