(* ===== verification/Jit_Map.thy ===== *)
theory Jit_Map
  imports Jit_Struct Tramp
begin

text \<open>
  Maps in the compiled parsers: each key and value is parsed into a slot on the stack and moved into
  the map by the trampoline, in the order of the text.
\<close>

section \<open>The slots\<close>

text \<open>
  What the loop writes besides blocks: the map at \<open>a\<close>, the slot \<open>ka\<close> of the key, the slot \<open>va\<close> of the
  value. They are apart and lie below the frontier of \<open>h0\<close>.
\<close>

definition map_area :: "nat \<Rightarrow> nat \<Rightarrow> addr \<Rightarrow> addr \<Rightarrow> addr \<Rightarrow> addr set" where
  "map_area ks vs a ka va = {a..<a + 24} \<union> {ka..<ka + ks} \<union> {va..<va + vs}"

definition slots_ok :: "(cell_id \<Rightarrow> shape) \<Rightarrow> ty \<Rightarrow> ty \<Rightarrow> nat \<Rightarrow> nat \<Rightarrow> heap \<Rightarrow> addr \<Rightarrow> addr \<Rightarrow> addr \<Rightarrow> bool" where
  "slots_ok S kt vt ks vs h0 a ka va \<longleftrightarrow> map_area ks vs a ka va \<subseteq> {..<brk h0}
     \<and> span S kt \<le> ks \<and> span S vt \<le> vs
     \<and> {a..<a + 24} \<inter> {ka..<ka + ks} = {} \<and> {a..<a + 24} \<inter> {va..<va + vs} = {} \<and> {ka..<ka + ks} \<inter> {va..<va + vs} = {}"

text \<open>Writing elsewhere keeps the map.\<close>

lemma rep_keep:
  assumes bt: "btree_ok C kt vt ks vs bt rep" and r: "rep (mem h1) (load (mem h1) a 24) f B" and fr: "fresh (brk h0) (brk h1) B"
    and e: "extends h1 h2 W B'" and W: "W \<subseteq> {..<brk h0}" "W \<inter> {a..<a + 24} = {}" and a: "{a..<a + 24} \<subseteq> {..<brk h1}"
  shows "rep (mem h2) (load (mem h2) a 24) f B"
proof -
  have same: "mem h2 x = mem h1 x" if x: "x \<in> {a..<a + 24} \<union> foot B" for x
  proof (rule extends_same [OF e])
    show "x < brk h1" using x a fresh_foot [OF fr, of x] by auto
    show "x \<notin> W" using x W fresh_foot [OF fr, of x] by force
  qed
  have "load (mem h2) a 24 = load (mem h1) a 24" by (rule load_cong) (simp add: same)
  then show ?thesis using bt r same unfolding btree_ok_def by (metis UnCI)
qed

text \<open>Both slots filled, the trampoline inserts.\<close>

lemma insert_slots:
  assumes bt: "btree_ok C kt vt ks vs bt rep" and sl: "slots_ok S kt vt ks vs h0 a ka va"
    and wf: "cells_ok C S" "lay_ok S kt" "lay_ok S vt"
    and st: "map_state rep h0 (map_area ks vs a ka va) a f h"
    and k: "placed C S kt ka (VStr s) h h1" and v: "placed C S vt va v h1 h2"
  shows "\<exists>h3. map_insert bt ks vs a ka va h2 = Inr h3 \<and> map_state rep h0 (map_area ks vs a ka va) a (f(s \<mapsto> v)) h3"
proof -
  let ?W = "map_area ks vs a ka va"
  obtain B where B: "extends h0 h ?W B" "brk h \<le> 2 ^ 64 \<longrightarrow> rep (mem h) (load (mem h) a 24) f B" using st by (auto simp: map_state_def)
  obtain Bk where Bk: "extends h h1 (dst_bytes S kt ka) Bk" "brk h1 \<le> 2 ^ 64 \<longrightarrow> holds C (mem h1) kt ka (VStr s) Bk"
    by (rule placedE [OF k])
  obtain Bv where Bv: "extends h1 h2 (dst_bytes S vt va) Bv" "brk h2 \<le> 2 ^ 64 \<longrightarrow> holds C (mem h2) vt va v Bv"
    by (rule placedE [OF v])
  have area: "dst_bytes S kt ka \<subseteq> {ka..<ka + ks}" "dst_bytes S vt va \<subseteq> {va..<va + vs}" "?W \<subseteq> {..<brk h0}"
    "{a..<a + 24} \<subseteq> ?W" "{ka..<ka + ks} \<subseteq> ?W" "{va..<va + vs} \<subseteq> ?W"
    using sl by (auto simp: slots_ok_def map_area_def dst_bytes_def)
  have apart: "{a..<a + 24} \<inter> {ka..<ka + ks} = {}" "{a..<a + 24} \<inter> {va..<va + vs} = {}" "{ka..<ka + ks} \<inter> {va..<va + vs} = {}"
    using sl by (auto simp: slots_ok_def)
  have le: "brk h0 \<le> brk h" "brk h \<le> brk h1" "brk h1 \<le> brk h2"
    using extends_brk [OF B(1)] extends_brk [OF Bk(1)] extends_brk [OF Bv(1)] .
  have e1: "extends h0 h1 ?W (B + Bk)" by (rule extends_trans [OF B(1) Bk(1)]) (use area in blast)
  have e2: "extends h0 h2 ?W (B + Bk + Bv)" by (rule extends_trans [OF e1 Bv(1)]) (use area in blast)
  have in_area: "x < brk h0" if "x \<in> ?W" for x using area(3) that by blast
  have below: "{a..<a + 24} \<subseteq> {..<brk h}" "{a..<a + 24} \<subseteq> {..<brk h1}" using in_area area(4) le by force+
  have held: "rep (mem h2) (load (mem h2) a 24) f B \<and> holds C (mem h2) kt ka (VStr s) Bk \<and> holds C (mem h2) vt va v Bv" if "brk h2 \<le> 2 ^ 64"
  proof (intro conjI)
    have fr: "fresh (brk h0) (brk h) B" "fresh (brk h) (brk h1) Bk" using B(1) Bk(1) by (simp_all add: extends_def)
    have "rep (mem h1) (load (mem h1) a 24) f B"
      by (rule rep_keep [OF bt _ fr(1) Bk(1)]) (use B(2) le that area apart below in auto)
    moreover have "fresh (brk h0) (brk h1) B" by (rule fresh_mono [OF fr(1)]) (use le in simp_all)
    ultimately show "rep (mem h2) (load (mem h2) a 24) f B"
      by (rule rep_keep [OF bt _ _ Bv(1)]) (use area apart below in auto)
    show "holds C (mem h2) kt ka (VStr s) Bk"
    proof (rule keeps_holds [OF _ wf(1,2) fr(2) Bv(1)])
      show "holds C (mem h1) kt ka (VStr s) Bk" using Bk(2) le that by simp
      show "x \<notin> dst_bytes S kt ka" if "x \<in> dst_bytes S vt va" for x
        using that area(1,2) apart(3) by blast
      show "x < brk h" if "x \<in> dst_bytes S vt va" for x
        using in_area [of x] that area(2,6) le(1) by auto
      show "dst_bytes S kt ka \<subseteq> {..<brk h1}" using in_area area(1,5) le(1,2) by force
    qed
    show "holds C (mem h2) vt va v Bv" using Bv(2) that by simp
  qed
  show ?thesis
    using map_insert_state [OF bt e2 area(4) _ held] area(3,4) by blast
qed

section \<open>The loop\<close>

text \<open>The key of a member: its place in the text, and the string that it is.\<close>

definition key_at :: "ext_ops \<Rightarrow> bytes \<Rightarrow> nat \<Rightarrow> nat \<Rightarrow> bytes \<Rightarrow> nat \<Rightarrow> bool" where
  "key_at F b e hc k ca \<longleftrightarrow> (\<exists>kp. strspan F b e hc = Inr (kp, length k, ca, False)
     \<and> take (length k) (drop kp b) = k \<and> kp + length k \<le> length b)"

lemma string_key_read:
  assumes at: "key_at F b e hc k ca" and k: "utf8_valid k" "length k < 2 ^ 63"
    and wf: "lay_ok S (TStr q)" and ok: "heap_ok h" and dst: "inside S (TStr q) ka h"
  shows "\<exists>h'. returns (\<lambda>n. parse n C F b e (TStr q) ka hc h) (ca, h') \<and> placed C S (TStr q) ka (VStr k) h h'"
proof -
  obtain kp where sp: "strspan F b e hc = Inr (kp, length k, ca, False)" and key: "take (length k) (drop kp b) = k" "kp + length k \<le> length b"
    using at by (auto simp: key_at_def)
  obtain p h1 where p: "rt_alloc (length k) h = Inr (p, h1)" "filled k h p (write_bytes p k h1)"
    using jit_strings.get_string [OF ok refl k(2)] by blast
  have "build_str b kp (length k) False h = Inr (p, length k, write_bytes p k h1)"
    using p(1) emit_copy_eq [OF key(2), of p h1] key(1) by (simp add: build_str_def)
  then have "returns (\<lambda>n. parse (Suc n) C F b e (TStr q) ka hc h) (ca, write_seq ka q p (length k) (length k) (write_bytes p k h1))"
    using sp by (simp add: store_at_def write_seq_def)
  then have "returns (\<lambda>n. parse n C F b e (TStr q) ka hc h) (ca, write_seq ka q p (length k) (length k) (write_bytes p k h1))"
    by (rule returns_Suc)
  then show ?thesis using placed_string [OF p(2) wf k dst] by blast
qed

lemma key_read:
  assumes at: "key_at F b e hc k ca" and k: "utf8_valid k" "length k < 2 ^ 63" and kt: "str_key C kt"
    and wf: "cells_ok C S" "lay_ok S kt" and ok: "heap_ok h" and dst: "inside S kt ka h"
  shows "\<exists>h'. returns (\<lambda>n. parse n C F b e kt ka hc h) (ca, h') \<and> placed C S kt ka (VStr k) h h'"
proof -
  from kt consider q where "kt = TStr q" | q c where "kt = TRef c" "C c = Some (TStr q)" by (auto simp: str_key_def)
  then show ?thesis
  proof cases
    case 1
    then show ?thesis using string_key_read [OF at k _ ok] wf(2) dst by blast
  next
    case 2
    have "lay_ok S (TStr q)" using wf(1) 2(2) unfolding cells_ok_def shaped_def by blast
    moreover have "inside S (TStr q) ka h" by (rule inside_ref [OF dst [unfolded 2(1)] 2(2) wf(1)])
    ultimately obtain h' where h': "returns (\<lambda>n. parse n C F b e (TStr q) ka hc h) (ca, h')" "placed C S (TStr q) ka (VStr k) h h'"
      using string_key_read [OF at k _ ok] by blast
    have "returns (\<lambda>n. parse (Suc n) C F b e kt ka hc h) (ca, h')"
      using h'(1) by (simp add: 2)
    then have "returns (\<lambda>n. parse n C F b e kt ka hc h) (ca, h')" by (rule returns_Suc)
    then show ?thesis using placed_ref [OF h'(2) 2(2) wf(1)] 2(1) by blast
  qed
qed

text \<open>A member: its key and the value that its value denotes.\<close>

definition denotes :: "nat \<Rightarrow> (cell_id \<rightharpoonup> ty) \<Rightarrow> (cell_id \<Rightarrow> shape) \<Rightarrow> ext_ops \<Rightarrow> ty \<Rightarrow> bytes \<times> json \<Rightarrow> bytes \<times> val \<Rightarrow> bool" where
  "denotes N C S F t m p \<longleftrightarrow> fst p = fst m \<and> utf8_valid (fst m) \<and> length (fst m) < 2 ^ 63 \<and> reads N C S F t (snd m) (snd p)"

lemma map_member_read:
  assumes link: "linked F bt ks vs na ins" and bt: "btree_ok C kt t ks vs bt rep"
    and sl: "slots_ok S kt t ks vs h0 a ka va" and wf: "cells_ok C S" "lay_ok S kt" "lay_ok S t" "jit_ty N t"
    and st: "map_state rep h0 (map_area ks vs a ka va) a f h" and m: "denotes N C S F t (k, j) (k, v)"
    and key: "str_key C kt" "key_at F b e hc k ca"
    and ws: "ws b e ca = Inr cb" and at: "text_at N b e (Suc cb) j c1"
  shows "\<exists>h'. returns (\<lambda>n. bindR (parse n C F b e kt ka hc h) (\<lambda>(c, h). bindR (ws b e c) (\<lambda>c.
      bindR (parse n C F b e t va (c + 1) h) (\<lambda>(c, h). bindR (call_addr F ins [a, ka, va] h) (\<lambda>h. Inr (c, h)))))) (c1, h')
    \<and> map_state rep h0 (map_area ks vs a ka va) a (f(k \<mapsto> v)) h'"
proof -
  have e: "heap_ok h" "brk h0 \<le> brk h" using st by (auto simp: map_state_def dest: extends_ok extends_brk)
  have "{ka..<ka + ks} \<subseteq> {..<brk h0}" "{va..<va + vs} \<subseteq> {..<brk h0}" "span S kt \<le> ks" "span S t \<le> vs"
    using sl by (simp_all add: slots_ok_def map_area_def)
  then have ins: "inside S kt ka h'" "inside S t va h'" if "brk h0 \<le> brk h'" for h'
    using that by (fastforce simp: inside_def dst_bytes_def)+
  obtain h1 where h1: "returns (\<lambda>n. parse n C F b e kt ka hc h) (ca, h1)" "placed C S kt ka (VStr k) h h1"
    using key_read [OF key(2) _ _ key(1) wf(1,2) e(1) ins(1) [OF e(2)]] m by (auto simp: denotes_def)
  have e1: "heap_ok h1" "brk h \<le> brk h1" using h1(2) by (auto simp: placed_def dest: extends_ok extends_brk)
  have r: "reads N C S F t j v" using m by (simp add: denotes_def)
  obtain h2 where h2: "returns (\<lambda>n. parse n C F b e t va (Suc cb) h1) (c1, h2)" "placed C S t va v h1 h2"
    by (rule readsD [OF r at wf(3,4) e1(1) ins(2)]) (use e(2) e1(2) in simp_all)
  obtain h3 where h3: "map_insert bt ks vs a ka va h2 = Inr h3" "map_state rep h0 (map_area ks vs a ka va) a (f(k \<mapsto> v)) h3"
    using insert_slots [OF bt sl wf(1-3) st h1(2) h2(2)] by blast
  from returns_bind [OF h1(1), of "\<lambda>(c, h) n. bindR (ws b e c) (\<lambda>c. bindR (parse n C F b e t va (c + 1) h)
      (\<lambda>(c, h). bindR (call_addr F ins [a, ka, va] h) (\<lambda>h. Inr (c, h))))" "(c1, h3)"]
  have "returns (\<lambda>n. bindR (parse n C F b e kt ka hc h) (\<lambda>(c, h). bindR (ws b e c) (\<lambda>c.
      bindR (parse n C F b e t va (c + 1) h) (\<lambda>(c, h). bindR (call_addr F ins [a, ka, va] h) (\<lambda>h. Inr (c, h)))))) (c1, h3)"
    using returns_bind [OF h2(1), of "\<lambda>(c, h) n. bindR (call_addr F ins [a, ka, va] h) (\<lambda>h. Inr (c, h))" "(c1, h3)"] ws link h3(1)
    by (simp add: linked_def case_prod_unfold)
  then show ?thesis using h3(2) by blast
qed

lemma map_loop_read:
  assumes F: "memchr2_ok F" and link: "linked F bt ks vs na ins" and bt: "btree_ok C kt t ks vs bt rep"
    and sl: "slots_ok S kt t ks vs h0 a ka va" and wf: "cells_ok C S" "lay_ok S kt" "lay_ok S t" "jit_ty N t" and key: "str_key C kt"
  shows "members_text ms tx \<Longrightarrow> view b e i (tx @ r) \<Longrightarrow> room N b (i + length tx) \<Longrightarrow>
    map_state rep h0 (map_area ks vs a ka va) a f h \<Longrightarrow> list_all2 (denotes N C S F t) ms kvs \<Longrightarrow>
    \<exists>h'. returns2 (\<lambda>k n. map_loop k (parse n C F b e kt) (parse n C F b e t) F b e ins ka va a i h) (i + length tx, h')
      \<and> map_state rep h0 (map_area ks vs a ka va) a (f ++ map_of (rev kvs)) h'"
proof (induction ms arbitrary: tx i f h kvs)
  case Nil
  obtain c where c: "ws b e i = Inr c" "load_u8 b c = Inr RBRACE" "Suc c = i + length tx"
    by (rule members_done [OF Nil.prems(1,2)])
  have "returns2 (\<lambda>k n. map_loop k (parse n C F b e kt) (parse n C F b e t) F b e ins ka va a i h) (i + length tx, h)"
    by (rule returns2_Suc) (simp add: c(1,2) c(3) [symmetric])
  then show ?case using Nil.prems(4,5) by (intro exI conjI) simp_all
next
  case (Cons m ms)
  obtain k j where m: "m = (k, j)" by (cases m)
  obtain v kvs' where kvs: "kvs = (k, v) # kvs'" "denotes N C S F t (k, j) (k, v)" "list_all2 (denotes N C S F t) ms kvs'"
  proof -
    obtain p kvs' where p: "kvs = p # kvs'" "denotes N C S F t (k, j) p" "list_all2 (denotes N C S F t) ms kvs'"
      using Cons.prems(5) m by (auto simp: list_all2_Cons1)
    then have "p = (k, snd p)" by (cases p) (simp add: denotes_def)
    then show thesis using that [of "snd p" kvs'] p by simp
  qed
  obtain c1 c2 t2 where st: "member_at N F b e i k j c1" "opt_comma b e c1 = Inr c2" "view b e c2 (t2 @ r)"
    "members_text ms t2" "c2 + length t2 = i + length tx"
    using members_step [OF F Cons.prems(1) [unfolded m] Cons.prems(2,3)] by blast
  obtain hc kp ca cb where at: "ws b e i = Inr hc" "load_u8 b hc = Inr QUOTE"
    "strspan F b e hc = Inr (kp, length k, ca, False)" "ws b e ca = Inr cb"
    "take (length k) (drop kp b) = k" "kp + length k \<le> e" "e \<le> length b" "text_at N b e (Suc cb) j c1"
    by (rule member_atE [OF st(1)])
  have kat: "key_at F b e hc k ca" using at(3,5-7) by (auto simp: key_at_def)
  obtain h1 where h1: "returns (\<lambda>n. bindR (parse n C F b e kt ka hc h) (\<lambda>(c, h). bindR (ws b e c) (\<lambda>c.
      bindR (parse n C F b e t va (c + 1) h) (\<lambda>(c, h). bindR (call_addr F ins [a, ka, va] h) (\<lambda>h. Inr (c, h)))))) (c1, h1)"
    "map_state rep h0 (map_area ks vs a ka va) a (f(k \<mapsto> v)) h1"
    using map_member_read [OF link bt sl wf Cons.prems(4) kvs(2) key kat at(4,8)] by blast
  have rm: "room N b (c2 + length t2)" using Cons.prems(3) st(5) by simp
  obtain h' where rest: "returns2 (\<lambda>k n. map_loop k (parse n C F b e kt) (parse n C F b e t) F b e ins ka va a c2 h1) (i + length tx, h')"
      "map_state rep h0 (map_area ks vs a ka va) a (f(k \<mapsto> v) ++ map_of (rev kvs')) h'"
    using Cons.IH [OF st(4,3) rm h1(2) kvs(3)] unfolding st(5) by blast
  have "returns2 (\<lambda>k n. map_loop k (parse n C F b e kt) (parse n C F b e t) F b e ins ka va a i h) (i + length tx, h')"
  proof (rule returns2_Suc)
    have "bindR (parse n C F b e kt ka hc h) (\<lambda>(c, h). bindR (ws b e c) (\<lambda>c. bindR (parse n C F b e t va (c + 1) h) (\<lambda>(c, h).
          bindR (call_addr F ins [a, ka, va] h) (\<lambda>h. bindR (opt_comma b e c) (\<lambda>c. loop c h)))))
      = bindR (bindR (parse n C F b e kt ka hc h) (\<lambda>(c, h). bindR (ws b e c) (\<lambda>c.
          bindR (parse n C F b e t va (c + 1) h) (\<lambda>(c, h). bindR (call_addr F ins [a, ka, va] h) (\<lambda>h. Inr (c, h))))))
        (\<lambda>(c, h). bindR (opt_comma b e c) (\<lambda>c. loop c h))" for n and loop :: "nat \<Rightarrow> heap \<Rightarrow> (nat \<times> heap) res"
      by (simp add: bindR_assoc case_prod_unfold)
    then show "returns2 (\<lambda>k n. map_loop (Suc k) (parse n C F b e kt) (parse n C F b e t) F b e ins ka va a i h) (i + length tx, h')"
      using returns2_bind [OF returns2_lift [OF h1(1)], of "\<lambda>(c, h) k n. bindR (opt_comma b e c)
          (\<lambda>c. map_loop k (parse n C F b e kt) (parse n C F b e t) F b e ins ka va a c h)"] st(2) rest(1) at(1,2)
      by (simp add: case_prod_unfold)
  qed
  moreover have E: "f(k \<mapsto> v) ++ map_of (rev kvs') = f ++ map_of (rev kvs)" by (simp add: kvs(1))
  ultimately show ?case using rest(2) unfolding E by blast
qed

section \<open>A map\<close>

lemma stack_slot_extends:
  assumes "heap_ok h"
  shows "extends h (snd (stack_slot sz h)) {} {#}" and "brk h \<le> fst (stack_slot sz h)"
    and "fst (stack_slot sz h) + sz \<le> brk (snd (stack_slot sz h))" and "mem (snd (stack_slot sz h)) = mem h"
proof -
  have p: "brk h \<le> align_up (brk h) 8" by (rule align_up_ge) simp
  then show "brk h \<le> fst (stack_slot sz h)" by (simp add: stack_slot_def Let_def)
  show "fst (stack_slot sz h) + sz \<le> brk (snd (stack_slot sz h))" "mem (snd (stack_slot sz h)) = mem h"
    by (simp_all add: stack_slot_def Let_def)
  have "heap_ok (h\<lparr>brk := align_up (brk h) 8 + max sz 1\<rparr>)"
    using assms p by (fastforce simp: heap_ok_def)
  then show "extends h (snd (stack_slot sz h)) {} {#}" using p by (simp add: stack_slot_def Let_def extends_def)
qed


lemma map_read:
  assumes F: "memchr2_ok F" and link: "linked F bt ks vs na ins" and bt: "btree_ok C kt t ks vs bt rep"
    and wf: "cells_ok C S" "lay_ok S kt" "lay_ok S t" "jit_ty N t" and key: "str_key C kt" and sp: "span S kt \<le> ks" "span S t \<le> vs"
    and ms: "list_all2 (denotes N C S F t) ms kvs" and at: "text_at N b e i (Object ms) i'"
    and ok: "heap_ok h" and dst: "{a..<a + 24} \<subseteq> {..<brk h}"
  shows "\<exists>h'. returns (\<lambda>n. parse n C F b e (TMap kt ks t vs na ins) a i h) (i', h')
    \<and> map_state rep h {a..<a + 24} a (map_of (rev kvs)) h'"
proof -
  obtain w tx r where v: "view b e i (w @ tx @ r)" "list_all ws_byte w" "value_text (Object ms) tx" "ends r"
    "i' = i + length w + length tx" "i' + N \<le> length b" "length b < 2 ^ 31" by (rule text_atE [OF at])
  obtain tt where tt: "tx = LBRACE # tt" "members_text ms tt" using v(3) by (auto elim: value_text.cases)
  have vt: "view b e i (w @ LBRACE # tt @ r)" using v(1) tt by simp
  have ws: "ws b e i = Inr (i + length w)" by (rule ws_view [OF vt ws_byte_le [OF v(2)]]) simp
  have v1: "view b e (Suc (i + length w)) (tt @ r)" by (rule view_Cons(3) [OF view_append [OF vt]])
  have rm: "room N b (Suc (i + length w) + length tt)" using v(5-7) tt by (simp add: room_def)
  obtain h1 where h1: "map_new_at bt a h = Inr h1" "extends h h1 {a..<a + 24} {#}" "rep (mem h1) (load (mem h1) a 24) Map.empty {#}"
      "brk h1 = brk h"
    using map_new_state [OF bt ok order.refl] by blast
  have na: "call_addr F na [a] h = Inr h1" using link h1(1) by (simp add: linked_def)
  define ka h2 va h3 where d: "ka = fst (stack_slot ks h1)" "h2 = snd (stack_slot ks h1)"
    "va = fst (stack_slot vs h2)" "h3 = snd (stack_slot vs h2)"
  note s2 = stack_slot_extends [OF extends_ok [OF h1(2)], of ks, folded d]
  note s3 = stack_slot_extends [OF extends_ok [OF s2(1)], of vs, folded d]
  have le: "brk h1 \<le> brk h2" "brk h2 \<le> brk h3" using extends_brk [OF s2(1)] extends_brk [OF s3(1)] .
  have e3: "extends h h3 {a..<a + 24} {#}"
    using extends_trans [OF extends_trans [OF h1(2) s2(1), of "{a..<a + 24}"] s3(1), of "{a..<a + 24}"] by simp
  have sl: "slots_ok S kt t ks vs h3 a ka va"
  proof -
    have "a + 23 \<in> {..<brk h}" using dst by (rule subsetD) simp
    then have "a + 24 \<le> brk h" by simp
    then show ?thesis using sp s2(2,3) s3(2,3) le h1(4) by (auto simp: slots_ok_def map_area_def)
  qed
  let ?W = "map_area ks vs a ka va"
  have "rep (mem h3) (load (mem h3) a 24) Map.empty {#}" using h1(3) s2(4) s3(4) by simp
  then have st: "map_state rep h3 ?W a Map.empty h3"
    unfolding map_state_def using extends_refl [OF extends_ok [OF s3(1)]] by blast
  obtain h' where l: "returns2 (\<lambda>k n. map_loop k (parse n C F b e kt) (parse n C F b e t) F b e ins ka va a
        (Suc (i + length w)) h3) (i', h')" "map_state rep h3 ?W a (map_of (rev kvs)) h'"
    using map_loop_read [OF F link bt sl wf key tt(2) v1 rm st ms] v(5) tt(1) by auto
  have "returns (\<lambda>n. parse (Suc n) C F b e (TMap kt ks t vs na ins) a i h) (i', h')"
    using returns2_diag [OF l(1)] ws na by (simp add: parse_map_def d case_prod_unfold Let_def)
  then have "returns (\<lambda>n. parse n C F b e (TMap kt ks t vs na ins) a i h) (i', h')" by (rule returns_Suc)
  moreover have "map_state rep h {a..<a + 24} a (map_of (rev kvs)) h'"
  proof -
    obtain B where B: "extends h3 h' ?W B" "brk h' \<le> 2 ^ 64 \<longrightarrow> rep (mem h') (load (mem h') a 24) (map_of (rev kvs)) B"
      using l(2) unfolding map_state_def by blast
    have "extends h h' {a..<a + 24} ({#} + B)"
      by (rule extends_trans [OF e3 B(1)]) (use s2(2) s3(2) le h1(4) in \<open>auto simp: map_area_def\<close>)
    then show ?thesis using B(2) unfolding map_state_def by auto
  qed
  ultimately show ?thesis by blast
qed

text \<open>A map is read wherever a layout has one.\<close>

lemma reads_map:
  assumes wfc: "cells_ok C S" and F: "memchr2_ok F" and lib: "map_lib C F kt ks t vs na ins rep" and key: "str_key C kt"
    and keys: "\<forall>k \<in> fst ` set ms. utf8_valid k \<and> length k < 2 ^ 63"
    and vals: "list_all2 (reads N C S F t) (map snd ms) us"
  shows "reads N C S F (TMap kt ks t vs na ins) (Object ms)
    (VMap (\<lambda>m xs. rep m xs (map_of (rev (zip (map fst ms) us)))))"
  unfolding reads_def
proof (intro allI impI)
  fix b e i i' a h
  let ?t = "TMap kt ks t vs na ins" and ?kvs = "zip (map fst ms) us"
  let ?f = "map_of (rev ?kvs)"
  assume at: "text_at N b e i (Object ms) i'" and wf: "lay_ok S ?t" and jt: "jit_ty N ?t"
    and ok: "heap_ok h" and dst: "inside S ?t a h"
  obtain bt where bt: "linked F bt ks vs na ins" "btree_ok C kt t ks vs bt rep" using lib by (auto simp: map_lib_def)
  have "list_all2 (denotes N C S F t) ms ?kvs"
    using vals keys by (auto simp: list_all2_conv_all_nth denotes_def)
  from map_read [OF F bt wfc _ _ _ key _ _ this at ok] dst wf jt
  obtain h' where h': "returns (\<lambda>n. parse n C F b e ?t a i h) (i', h')" "map_state rep h {a..<a + 24} a ?f h'"
    by (auto simp: inside_def dst_bytes_def)
  obtain B where B: "extends h h' {a..<a + 24} B" "brk h' \<le> 2 ^ 64 \<longrightarrow> rep (mem h') (load (mem h') a 24) ?f B"
    using h'(2) unfolding map_state_def by blast
  have "holds C (mem h') ?t a (VMap (\<lambda>m xs. rep m xs ?f)) B" if "brk h' \<le> 2 ^ 64"
    by (rule h_map_intro) (use B(2) bt(2) that in \<open>unfold btree_ok_def, blast\<close>)
  then have "placed C S ?t a (VMap (\<lambda>m xs. rep m xs ?f)) h h'"
    using B(1) unfolding placed_def dst_bytes_def by auto
  then show "\<exists>h'. returns (\<lambda>n. parse n C F b e ?t a i h) (i', h') \<and> placed C S ?t a (VMap (\<lambda>m xs. rep m xs ?f)) h h'"
    using h'(1) by blast
qed

end
