(* ===== verification/Jit_Cells.thy ===== *)
theory Jit_Cells
  imports Jit Layout
begin

text \<open>
  The discovery of the recursive cells before code generation: the walk ends on every closed store
  of cells, however the cells refer to each other, and finds each reachable cell once.
\<close>

section \<open>What a walk owes\<close>

text \<open>
  From the state \<open>(seen, out)\<close> the walk over something that mentions the cells \<open>X\<close> adds cells
  reachable from \<open>X\<close> only, adds \<open>X\<close>, and leaves no added cell with an unseen successor.
\<close>

definition walked ::
  "(cell_id \<rightharpoonup> ty) \<Rightarrow> cell_id set \<Rightarrow> cell_id set \<times> cell_id list \<Rightarrow> cell_id set \<times> cell_id list \<Rightarrow> bool" where
  "walked C X s s' \<longleftrightarrow> fst s \<subseteq> fst s' \<and> fst s' \<subseteq> dom C \<and> set (snd s') = fst s' \<and> distinct (snd s')
     \<and> X \<subseteq> fst s' \<and> cell_edges C `` (fst s' - fst s) \<subseteq> fst s' \<and> fst s' \<subseteq> fst s \<union> reachable C X"

definition walk_ok :: "(cell_id \<rightharpoonup> ty) \<Rightarrow> cell_id set \<times> cell_id list \<Rightarrow> bool" where
  "walk_ok C s \<longleftrightarrow> fst s \<subseteq> dom C \<and> set (snd s) = fst s \<and> distinct (snd s)"

lemma walked_ok: "walked C X s s' \<Longrightarrow> walk_ok C s'"
  by (simp add: walked_def walk_ok_def)

lemma walked_refl: "walk_ok C s \<Longrightarrow> X \<subseteq> fst s \<Longrightarrow> walked C X s s"
  by (auto simp: walked_def walk_ok_def)

lemma reachable_mono: "X \<subseteq> Y \<Longrightarrow> reachable C X \<subseteq> reachable C Y"
  by (auto simp: reachable_def)

lemma walked_trans: "walked C X s s1 \<Longrightarrow> walked C Y s1 s2 \<Longrightarrow> walked C (X \<union> Y) s s2"
  using reachable_mono [of X "X \<union> Y" C] reachable_mono [of Y "X \<union> Y" C]
  unfolding walked_def by blast

lemma walked_cell:
  assumes c: "C c = Some t" "c \<notin> fst s" and w: "walked C (set (ty_cells t)) (Set.insert c (fst s), snd s @ [c]) s'"
  shows "walked C {c} s s'"
proof -
  have step: "cell_edges C `` {c} = set (ty_cells t)" using c(1) by (auto simp: cell_edges_def)
  have "reachable C (set (ty_cells t)) \<subseteq> reachable C {c}"
    unfolding reachable_def step [symmetric] by (auto intro: converse_rtrancl_into_rtrancl)
  moreover have "c \<in> reachable C {c}" by (auto simp: reachable_def)
  moreover have "fst s' - fst s \<subseteq> Set.insert c (fst s' - Set.insert c (fst s))" by auto
  then have "cell_edges C `` (fst s' - fst s) \<subseteq> set (ty_cells t) \<union> cell_edges C `` (fst s' - Set.insert c (fst s))"
    using step by blast
  moreover have "Set.insert c (fst s) \<subseteq> fst s'" "set (ty_cells t) \<subseteq> fst s'"
    "cell_edges C `` (fst s' - Set.insert c (fst s)) \<subseteq> fst s'" "fst s' \<subseteq> dom C" "set (snd s') = fst s'"
    "distinct (snd s')" "fst s' \<subseteq> Set.insert c (fst s) \<union> reachable C (set (ty_cells t))"
    using w by (simp_all add: walked_def)
  moreover from calculation have "cell_edges C `` (fst s' - fst s) \<subseteq> fst s'" by (meson Un_least order_trans)
  ultimately show ?thesis unfolding walked_def by blast
qed

section \<open>The walk\<close>

lemma fold_walk:
  assumes "\<And>t s. t \<in> set ts \<Longrightarrow> walk_ok C s \<Longrightarrow> card (dom C - fst s) \<le> k \<Longrightarrow>
      \<exists>s'. returns (\<lambda>n. collect_cells n C t s) s' \<and> walked C (set (ty_cells t)) s s'"
    and fin: "finite (dom C)"
  shows "walk_ok C s \<Longrightarrow> card (dom C - fst s) \<le> k \<Longrightarrow>
    \<exists>s'. returns (\<lambda>n. fold_res (collect_cells n C) ts s) s' \<and> walked C (\<Union>t \<in> set ts. set (ty_cells t)) s s'"
  using assms(1)
proof (induction ts arbitrary: s)
  case Nil
  then show ?case using walked_refl by auto
next
  case (Cons t ts)
  obtain s1 where s1: "returns (\<lambda>n. collect_cells n C t s) s1" "walked C (set (ty_cells t)) s s1"
    using Cons.prems by (metis list.set_intros(1))
  have "card (dom C - fst s1) \<le> card (dom C - fst s)"
    using s1(2) fin by (intro card_mono) (auto simp: walked_def)
  then have "card (dom C - fst s1) \<le> k" using Cons.prems(2) by simp
  then obtain s2 where s2: "returns (\<lambda>n. fold_res (collect_cells n C) ts s1) s2"
    "walked C (\<Union>t \<in> set ts. set (ty_cells t)) s1 s2"
    using Cons.IH [OF walked_ok [OF s1(2)]] Cons.prems(3) by (meson list.set_intros(2))
  have "returns (\<lambda>n. fold_res (collect_cells n C) (t # ts) s) s2"
    using returns_bind [OF s1(1), of "\<lambda>s n. fold_res (collect_cells n C) ts s"] s2(1) by simp
  then show ?case using walked_trans [OF s1(2) s2(2)] by (intro exI [of _ s2]) simp
qed

lemma collect_walks:
  assumes fin: "finite (dom C)" and cl: "\<And>c b. C c = Some b \<Longrightarrow> set (ty_cells b) \<subseteq> dom C"
  shows "card (dom C - fst s) \<le> k \<Longrightarrow> walk_ok C s \<Longrightarrow> set (ty_cells t) \<subseteq> dom C \<Longrightarrow>
    \<exists>s'. returns (\<lambda>n. collect_cells n C t s) s' \<and> walked C (set (ty_cells t)) s s'"
proof (induction k arbitrary: s t rule: less_induct)
  case (less k)
  from less.prems show ?case
  proof (induction t arbitrary: s rule: measure_induct_rule [where f = size])
    case (less t)
    note outer = \<open>\<And>j s t. j < k \<Longrightarrow> card (dom C - fst s) \<le> j \<Longrightarrow> walk_ok C s \<Longrightarrow> set (ty_cells t) \<subseteq> dom C \<Longrightarrow>
      \<exists>s'. returns (\<lambda>n. collect_cells n C t s) s' \<and> walked C (set (ty_cells t)) s s'\<close>
    obtain seen out where s: "s = (seen, out)" by (cases s)
    show ?case
    proof (cases "\<exists>c. t = TRef c")
      case True
      then obtain c where t: "t = TRef c" by blast
      then obtain b where b: "C c = Some b" using less.prems(3) by auto
      show ?thesis
      proof (cases "c \<in> seen")
        case True
        have "returns (\<lambda>n. collect_cells (Suc n) C t s) s" using t s True by simp
        then have "returns (\<lambda>n. collect_cells n C t s) s" by (rule returns_Suc)
        moreover have "walked C (set (ty_cells t)) s s" using walked_refl [OF less.prems(2)] t s True by simp
        ultimately show ?thesis by blast
      next
        case False
        let ?s = "(Set.insert c seen, out @ [c])"
        have ok: "walk_ok C ?s" using less.prems(2) s b False by (auto simp: walk_ok_def)
        have "card (dom C - fst ?s) < card (dom C - fst s)"
          using fin b False s by (intro psubset_card_mono) auto
        then obtain s' where s': "returns (\<lambda>n. collect_cells n C b ?s) s'" "walked C (set (ty_cells b)) ?s s'"
          using outer [OF _ order_refl ok cl [OF b]] less.prems(1) by fastforce
        have "returns (\<lambda>n. collect_cells (Suc n) C t s) s'" using t s False b s'(1) by simp
        then have "returns (\<lambda>n. collect_cells n C t s) s'" by (rule returns_Suc)
        moreover have "walked C {c} s s'" by (rule walked_cell [where C = C and t = b]) (use b False s s'(2) in auto)
        ultimately show ?thesis using t by (intro exI [of _ s']) simp
      qed
    next
      case False
      have "\<exists>s'. returns (\<lambda>n. fold_res (collect_cells n C) (sub_tys t) s) s'
          \<and> walked C (\<Union>u \<in> set (sub_tys t). set (ty_cells u)) s s'"
      proof (rule fold_walk [OF _ fin less.prems(2,1)])
        fix u s assume "u \<in> set (sub_tys t)" "walk_ok C s" "card (dom C - fst s) \<le> k"
        then show "\<exists>s'. returns (\<lambda>n. collect_cells n C u s) s' \<and> walked C (set (ty_cells u)) s s'"
          using less.IH [OF size_sub_tys] ty_cells_sub less.prems(3) by (meson order_trans)
      qed
      then obtain s' where s': "returns (\<lambda>n. fold_res (collect_cells n C) (sub_tys t) s) s'"
        "walked C (set (ty_cells t)) s s'"
        using ty_cells_eq [of t] False by auto
      have "collect_cells (Suc n) C t s = fold_res (collect_cells n C) (sub_tys t) s" for n
        using False s by (cases t) auto
      then have "returns (\<lambda>n. collect_cells (Suc n) C t s) s'" using s'(1) by simp
      then show ?thesis using s'(2) returns_Suc [of "\<lambda>n. collect_cells n C t s"] by blast
    qed
  qed
qed

lemma collect_cells_all:
  assumes "closed C t"
  obtains cells where "returns (\<lambda>n. collect_cells n C t ({}, [])) (set cells, cells)" "distinct cells"
    "set cells = reachable C (set (ty_cells t))" "set cells \<subseteq> dom C"
proof -
  obtain s' where s': "returns (\<lambda>n. collect_cells n C t ({}, [])) s'" "walked C (set (ty_cells t)) ({}, []) s'"
    using collect_walks [of C "({}, [])" "card (dom C)" t] assms by (auto simp: closed_def walk_ok_def)
  have "d \<in> fst s'" if "(c, d) \<in> (cell_edges C)\<^sup>*" "c \<in> set (ty_cells t)" for c d
    using that s'(2) by (induction rule: rtrancl_induct) (auto simp: walked_def)
  then have "reachable C (set (ty_cells t)) \<subseteq> fst s'" by (auto simp: reachable_def)
  then have "reachable C (set (ty_cells t)) = fst s'" using s'(2) by (auto simp: walked_def)
  then show thesis using that [of "snd s'"] s' by (auto simp: walked_def)
qed

end
