(* ===== verification/Interp.thy ===== *)
theory Interp
  imports Bind
begin

text \<open>
  The interpreter backend, \<^verbatim>\<open>crates/bilbo-json/src/interp.rs\<close>: \<open>run\<close> walks a layout and a parsed
  JSON value together and writes the bytes of the value at the destination. The recursion
  follows the value and the layout, but a back-edge \<open>TRef\<close> leads to a layout that is not
  smaller, so \<open>run\<close> has fuel, one unit per call.
\<close>

section \<open>Helpers\<close>

text \<open>\<^verbatim>\<open>bytes[..n]\<close>\<close>

definition prefix_of :: "bytes \<Rightarrow> nat \<Rightarrow> bytes res" where
  "prefix_of bs n =
     (if n \<le> length bs then Inr (take n bs) else Inl (Panic ''range end index out of range''))"

definition alloc_copy :: "bytes \<Rightarrow> nat \<Rightarrow> heap \<Rightarrow> (addr \<times> heap) res" where
  "alloc_copy bs al h =
     (if bs = [] then Inr (max al 1, h)
      else bindR (new_block (length bs) al h) (\<lambda>(p, h). Inr (p, write_bytes p bs h)))"

text \<open>The pointer of a \<^verbatim>\<open>Box\<close>: dangling and aligned for a zero-sized pointee.\<close>

definition box_block :: "nat \<Rightarrow> nat \<Rightarrow> heap \<Rightarrow> (addr \<times> heap) res" where
  "box_block sz al h = (if sz = 0 then Inr (al, h) else new_block sz al h)"

text \<open>\<^verbatim>\<open>esz * n\<close> on \<^verbatim>\<open>usize\<close>, with the overflow check.\<close>

definition usize_mul :: "nat \<Rightarrow> nat \<Rightarrow> nat res" where
  "usize_mul x y =
     (if x * y < 2 ^ 64 then Inr (x * y) else Inl (Panic ''attempt to multiply with overflow''))"

definition vec_block :: "nat \<Rightarrow> nat \<Rightarrow> nat \<Rightarrow> heap \<Rightarrow> (addr \<times> heap) res" where
  "vec_block n esz al h =
     (if n = 0 then Inr (al, h) else bindR (usize_mul esz n) (\<lambda>sz. new_block sz al h))"

section \<open>The interpreter\<close>

fun run :: "nat \<Rightarrow> (cell_id \<rightharpoonup> ty) \<Rightarrow> ext_ops \<Rightarrow> ty \<Rightarrow> addr \<Rightarrow> json \<Rightarrow> heap \<Rightarrow> heap res" where
  "run 0 C F t dst v h = Inl OutOfFuel"
| "run (Suc n) C F TBool dst v h = Inr (write_bytes dst [of_bool (v = Bool True)] h)"
| "run (Suc n) C F TChar dst v h =
     bindR (as_str v) (\<lambda>s.
       let c = (case first_char s of Some c \<Rightarrow> c | None \<Rightarrow> 0) in
       Inr (write_bytes dst (le_bytes 4 c) h))"
| "run (Suc n) C F (TU w) dst v h =
     bindR (as_u128 v) (\<lambda>k.
     bindR (prefix_of (le_bytes 16 k) w) (\<lambda>bs.
       Inr (write_bytes dst bs h)))"
| "run (Suc n) C F (TI w) dst v h =
     bindR (as_i128 v) (\<lambda>k.
     bindR (prefix_of (le_bytes 16 (nat (k mod 2 ^ 128))) w) (\<lambda>bs.
       Inr (write_bytes dst bs h)))"
| "run (Suc n) C F TF32 dst v h =
     bindR (as_f64 (std_f64 F) v) (\<lambda>x. Inr (write_bytes dst (le_bytes 4 (unat (demote F x))) h))"
| "run (Suc n) C F TF64 dst v h =
     bindR (as_f64 (std_f64 F) v) (\<lambda>x. Inr (write_bytes dst (le_bytes 8 (unat x)) h))"
| "run (Suc n) C F (TStruct nm fs) dst v h =
     fold_res (\<lambda>f h. case get v (f_name f) of
         Some fv \<Rightarrow> run n C F (f_ty f) (dst + f_offset f) fv h
       | None \<Rightarrow>
           if is_opt (f_ty f) then run n C F (f_ty f) (dst + f_offset f) Null h
           else Inl (Panic ''JSON missing key'')) fs h"
| "run (Suc n) C F (TTuple fs) dst v h =
     (case v of
        Array items \<Rightarrow>
          fold_res (\<lambda>(f, it) h. run n C F (f_ty f) (dst + f_offset f) it h) (zip fs items) h
      | _ \<Rightarrow> Inl (Panic ''expected JSON array for tuple''))"
| "run (Suc n) C F (TStr q) dst v h =
     bindR (as_str v) (\<lambda>s.
     bindR (alloc_copy s 1 h) (\<lambda>(p, h).
       Inr (write_seq dst q p (length s) (length s) h)))"
| "run (Suc n) C F (TStrRef po lo) dst v h =
     bindR (as_str v) (\<lambda>s.
     bindR (alloc_copy s 1 h) (\<lambda>(p, h).
       Inr (write_word (dst + lo) (length s) (write_word (dst + po) p h))))"
| "run (Suc n) C F (TVec t esz al q) dst v h =
     (case v of
        Array items \<Rightarrow>
          let len = length items; al = max al 1 in
          bindR (vec_block len esz al h) (\<lambda>(p, h).
          bindR (fold_res (\<lambda>(i, item) h. run n C F t (p + i * esz) item h) (enumerate 0 items) h) (\<lambda>h.
            Inr (write_seq dst q p len len h)))
      | _ \<Rightarrow> Inl (Panic ''expected JSON array for Vec''))"
| "run (Suc n) C F (TBoxed t sz al) dst v h =
     bindR (box_block sz (max al 1) h) (\<lambda>(p, h).
     bindR (run n C F t p v h) (\<lambda>h.
       Inr (write_word dst p h)))"
| "run (Suc n) C F TUnit dst v h = Inr h"
| "run (Suc n) C F (TOpt disc_off ds nd sd payload_off sz t) dst v h =
     (if v = Null then
        let h = write_bytes dst (replicate sz 0) h in
        bindR (prefix_of (le_bytes 16 nd) ds) (\<lambda>bs. Inr (write_bytes (dst + disc_off) bs h))
      else
        bindR (run n C F t (dst + payload_off) v h) (\<lambda>h.
          case sd of
            None \<Rightarrow> Inr h
          | Some d \<Rightarrow>
              bindR (prefix_of (le_bytes 16 d) ds) (\<lambda>bs. Inr (write_bytes (dst + disc_off) bs h))))"
| "run (Suc n) C F (TMap k ks w ws na ins) dst v h = Inl (Panic ''interp backend does not build maps'')"
| "run (Suc n) C F (TRef c) dst v h = bindR (cell_get C c) (\<lambda>t. run n C F t dst v h)"
| "run (Suc n) C F (TUnknown what) dst v h = Inl (Panic ''do not know how to write type'')"

end
