(* ===== verification/Within.thy ===== *)
theory Within
  imports Bind
begin

text \<open>
  Memory safety of a run, whatever its input: it either fails with a fault that is allowed, or ends
  with a heap that differs from the one before in the bytes \<open>W\<close> and in new blocks only. \<open>hp\<close> is the
  heap in what the run returns.
\<close>

definition within :: "(fault \<Rightarrow> bool) \<Rightarrow> ('a \<Rightarrow> heap) \<Rightarrow> heap \<Rightarrow> addr set \<Rightarrow> 'a res \<Rightarrow> bool" where
  "within ok hp h W r \<longleftrightarrow> (case r of Inl e \<Rightarrow> ok e | Inr x \<Rightarrow> \<exists>B. extends h (hp x) W B)"

lemma within_Inl [simp]: "within ok hp h W (Inl e) \<longleftrightarrow> ok e"
  by (simp add: within_def)

lemma within_Inr: "within ok hp h W (Inr x) \<longleftrightarrow> (\<exists>B. extends h (hp x) W B)"
  by (simp add: within_def)

lemma within_bind:
  assumes "within ok hp h V m" and "\<And>x B. m = Inr x \<Longrightarrow> extends h (hp x) V B \<Longrightarrow> within ok hp' (hp x) W' (f x)"
    and "\<And>x. x < brk h \<Longrightarrow> x \<in> V \<or> x \<in> W' \<Longrightarrow> x \<in> W"
  shows "within ok hp' h W (bindR m f)"
proof (cases m)
  case (Inl e)
  then show ?thesis using assms(1) by simp
next
  case (Inr x)
  then obtain B where B: "extends h (hp x) V B" using assms(1) by (auto simp: within_Inr)
  show ?thesis
  proof (cases "f x")
    case (Inl e)
    then show ?thesis using assms(2) [OF Inr B] Inr by simp
  next
    case f: (Inr y)
    then obtain B' where B': "extends (hp x) (hp' y) W' B'" using assms(2) [OF Inr B] by (auto simp: within_Inr)
    have "extends h (hp' y) W (B + B')" by (rule extends_trans [OF B B']) (use assms(3) in blast)
    then show ?thesis using Inr f by (auto simp: within_Inr)
  qed
qed

lemma within_pure:
  "(\<And>e. m = Inl e \<Longrightarrow> ok e) \<Longrightarrow> (\<And>x. m = Inr x \<Longrightarrow> within ok hp h W (f x)) \<Longrightarrow> within ok hp h W (bindR m f)"
  by (cases m) auto

lemma within_weaken:
  assumes "extends h h1 V B" and "within ok hp h1 W' r" and "\<And>x. x < brk h \<Longrightarrow> x \<in> V \<or> x \<in> W' \<Longrightarrow> x \<in> W"
  shows "within ok hp h W r"
proof (cases r)
  case (Inr y)
  then obtain B' where "extends h1 (hp y) W' B'" using assms(2) by (auto simp: within_Inr)
  then have "extends h (hp y) W (B + B')" by (rule extends_trans [OF assms(1)]) (use assms(3) in blast)
  then show ?thesis using Inr by (auto simp: within_Inr)
qed (use assms(2) in simp)

lemma within_mono:
  "within ok hp h V r \<Longrightarrow> (\<And>x. x \<in> V \<Longrightarrow> x < brk h \<Longrightarrow> x \<in> W) \<Longrightarrow> within ok hp h W r"
  by (auto simp: within_def split: sum.splits intro: extends_mono)

lemma within_fold:
  assumes "heap_ok (hp s)" and "\<And>x s'. x \<in> set xs \<Longrightarrow> heap_ok (hp s') \<Longrightarrow> brk (hp s) \<le> brk (hp s') \<Longrightarrow> within ok hp (hp s') W (f x s')"
  shows "within ok hp (hp s) W (fold_res f xs s)"
  using assms
proof (induction xs arbitrary: s)
  case Nil
  then show ?case by (auto simp: within_Inr intro: extends_refl)
next
  case (Cons x xs)
  show ?case unfolding fold_res.simps
  proof (rule within_bind)
    show "within ok hp (hp s) W (f x s)" using Cons.prems by simp
    show "within ok hp (hp s1) W (fold_res f xs s1)" if "extends (hp s) (hp s1) W B" for s1 B
      using Cons.IH [of s1] Cons.prems extends_ok [OF that] extends_brk [OF that] by auto
  qed blast
qed

end
