(* ===== verification/Interp_Props.thy ===== *)
theory Interp_Props
  imports Interp Placed Within
begin

text \<open>
  The interpreter binds: with enough fuel it places at the destination exactly the value the
  JSON value denotes, and on whatever JSON value it is given it never leaves the destination
  and its own blocks, nor meets undefined behaviour.
\<close>

section \<open>The blocks it allocates\<close>

lemma new_block_buffer:
  assumes "heap_ok h" and "is_pow2 al" and "sz \<noteq> 0" and "sz + (al - 1) < 2 ^ 63"
  shows "\<exists>p h1. new_block sz al h = Inr (p, h1) \<and> buffer sz al h p h1"
  using assms alloc_Inr [OF assms(3), of al h] buffer_alloc [OF _ assms(1,2)]
  by (auto simp: new_block_def layout_def)

interpretation boxes: allocator box_block is_pow2
proof
  fix h sz al
  assume "heap_ok h" "is_pow2 al" "sz + (al - 1) < 2 ^ 63"
  then show "\<exists>p h1. box_block sz al h = Inr (p, h1) \<and> buffer sz al h p h1"
    using new_block_buffer [of h al sz] buffer_dangling [of h al] by (auto simp: box_block_def)
qed

text \<open>The string buffers of \<^verbatim>\<open>alloc_copy\<close>: the same blocks, filled.\<close>

lemma alloc_copy_box:
  "alloc_copy s 1 h = bindR (box_block (length s) 1 h) (\<lambda>(p, h). Inr (p, write_bytes p s h))"
  by (simp add: alloc_copy_def box_block_def)

lemma alloc_copy_filled:
  assumes "heap_ok h" and "length s < 2 ^ 63"
  shows "\<exists>p h1. alloc_copy s 1 h = Inr (p, h1) \<and> filled s h p h1"
  using boxes.get_string [OF assms(1) _ assms(2)] is_pow2_code(1)
  by (auto simp: alloc_copy_box simp del: One_nat_def)

lemma vec_block_buffer:
  assumes "heap_ok h" and "is_pow2 al" and "0 < esz" and "n * esz + (al - 1) < 2 ^ 63"
  shows "\<exists>p h1. vec_block n esz al h = Inr (p, h1) \<and> buffer (n * esz) al h p h1"
proof (cases "n = 0")
  case True
  then show ?thesis using buffer_dangling [OF assms(1,2)] by (simp add: vec_block_def)
next
  case False
  then have "new_block (n * esz) al h = box_block (n * esz) al h" using assms by (simp add: box_block_def)
  moreover have "esz * n < 2 ^ 64" using assms(4) by (simp add: mult.commute)
  ultimately show ?thesis
    using boxes.get_buffer [OF assms(1,2,4)] False by (simp add: vec_block_def usize_mul_def mult.commute)
qed

section \<open>Loops over fields and elements\<close>

lemma returns_fold_Cons:
  "returns (\<lambda>n. f n x s) s' \<Longrightarrow> returns (\<lambda>n. fold_res (f n) xs s') s'' \<Longrightarrow>
   returns (\<lambda>n. fold_res (f n) (x # xs) s) s''"
  using returns_bind [of "\<lambda>n. f n x s" s' "\<lambda>s n. fold_res (f n) xs s" s''] by simp

lemma fold_res_map: "fold_res f (map g xs) s = fold_res (\<lambda>x. f (g x)) xs s"
  by (induction xs arbitrary: s) (simp_all add: bindR_def split: sum.splits)

lemma fold_res_cong: "(\<And>x s. f x s = g x s) \<Longrightarrow> fold_res f xs s = fold_res g xs s"
  by (induction xs arbitrary: s) (simp_all add: bindR_def split: sum.splits)

definition run_slot ::
  "nat \<Rightarrow> (cell_id \<rightharpoonup> ty) \<Rightarrow> ext_ops \<Rightarrow> addr \<Rightarrow> slot \<Rightarrow> heap \<Rightarrow> heap res" where
  "run_slot n C F a s h = (case s of
      (f, Some j) \<Rightarrow> run n C F (f_ty f) (a + f_offset f) j h
    | (f, None) \<Rightarrow> if is_opt (f_ty f) then run n C F (f_ty f) (a + f_offset f) Null h
        else Inl (Panic ''JSON missing key''))"

lemma run_struct_slots:
  "run (Suc n) C F (TStruct nm fs) a (Object ms) h = fold_res (run_slot n C F a) (struct_slots fs ms) h"
  by (auto simp: struct_slots_def fold_res_map run_slot_def get_def split: option.splits intro!: fold_res_cong)

lemma run_tuple_slots:
  "run (Suc n) C F (TTuple fs) a (Array js) h = fold_res (run_slot n C F a) (tuple_slots fs js) h"
  by (auto simp: tuple_slots_def zip_map2 fold_res_map run_slot_def intro!: fold_res_cong)

lemma opt_none_run:
  assumes "is_opt t" and "wf_ty S t" and "heap_ok h"
  shows "\<exists>h'. run (Suc n) C F t a Null h = Inr h' \<and> placed C S t a VNone h h'"
proof -
  obtain disc_off ds nd sd payload_off sz t' where t: "t = TOpt disc_off ds nd sd payload_off sz t'"
    using assms(1) by (auto simp: is_opt_def split: ty.splits)
  have "ds \<le> 16" using assms(2) t by (auto simp: int_width_def)
  then show ?thesis
    using placed_none [OF assms(3)] assms(2) t by (simp add: prefix_of_def le_bytes_take)
qed

section \<open>Correctness\<close>

definition run_places ::
  "(cell_id \<rightharpoonup> ty) \<Rightarrow> (cell_id \<Rightarrow> shape) \<Rightarrow> ext_ops \<Rightarrow> ty \<Rightarrow> json \<Rightarrow> val \<Rightarrow> bool" where
  "run_places C S F t j v \<longleftrightarrow> (\<forall>a h. wf_ty S t \<longrightarrow> heap_ok h \<longrightarrow> inside S t a h \<longrightarrow>
     (\<exists>h'. returns (\<lambda>n. run n C F t a j h) h' \<and> placed C S t a v h h'))"

lemma run_placesI:
  assumes "\<And>a h. wf_ty S t \<Longrightarrow> heap_ok h \<Longrightarrow> inside S t a h \<Longrightarrow>
     \<exists>h'. returns (\<lambda>n. run (Suc n) C F t a j h) h' \<and> placed C S t a v h h'"
  shows "run_places C S F t j v"
  unfolding run_places_def using assms returns_Suc [where f = "\<lambda>n. run n C F t _ j _"] by meson

lemma run_placesD:
  assumes "run_places C S F t j v" and "wf_ty S t" and "heap_ok h" and "inside S t a h"
  obtains h' where "returns (\<lambda>n. run n C F t a j h) h'" and "placed C S t a v h h'"
  using assms unfolding run_places_def by blast

definition slots_placed ::
  "(cell_id \<rightharpoonup> ty) \<Rightarrow> (cell_id \<Rightarrow> shape) \<Rightarrow> ext_ops \<Rightarrow> slot list \<Rightarrow> val list \<Rightarrow> bool" where
  "slots_placed C S F ss vs \<longleftrightarrow> (\<forall>a h. (\<forall>f \<in> set (map fst ss). wf_ty S (f_ty f) \<and> inside S (f_ty f) (a + f_offset f) h) \<longrightarrow>
     sorted_wrt (fields_apart S) (map fst ss) \<longrightarrow> heap_ok h \<longrightarrow>
     (\<exists>h'. returns (\<lambda>n. fold_res (run_slot n C F a) ss h) h' \<and> placed_fields C S (map fst ss) a vs h h'))"

definition elems_placed ::
  "(cell_id \<rightharpoonup> ty) \<Rightarrow> (cell_id \<Rightarrow> shape) \<Rightarrow> ext_ops \<Rightarrow> ty \<Rightarrow> json list \<Rightarrow> val list \<Rightarrow> bool" where
  "elems_placed C S F t js vs \<longleftrightarrow> (\<forall>a k esz h. wf_ty S t \<longrightarrow> span S t \<le> esz \<longrightarrow> heap_ok h \<longrightarrow>
     a + (k + length js) * esz \<le> brk h \<longrightarrow>
     (\<exists>h'. returns (\<lambda>n. fold_res (\<lambda>(i, item) h. run n C F t (a + i * esz) item h) (enumerate k js) h) h'
       \<and> placed_elems C t esz (a + k * esz) vs h h'))"

lemma slot_placed_cons:
  assumes wfc: "wf_cells C S"
    and head: "\<And>a h. wf_ty S (f_ty f) \<Longrightarrow> heap_ok h \<Longrightarrow> inside S (f_ty f) (a + f_offset f) h \<Longrightarrow>
      \<exists>h'. returns (\<lambda>n. run_slot n C F a (f, jo) h) h' \<and> placed C S (f_ty f) (a + f_offset f) v h h'"
    and tail: "slots_placed C S F ss vs"
  shows "slots_placed C S F ((f, jo) # ss) (v # vs)"
  unfolding slots_placed_def
proof (intro allI impI)
  fix a h
  assume fs: "\<forall>g \<in> set (map fst ((f, jo) # ss)). wf_ty S (f_ty g) \<and> inside S (f_ty g) (a + f_offset g) h"
    and apart: "sorted_wrt (fields_apart S) (map fst ((f, jo) # ss))" and ok: "heap_ok h"
  obtain h1 where h1: "returns (\<lambda>n. run_slot n C F a (f, jo) h) h1"
    "placed C S (f_ty f) (a + f_offset f) v h h1"
    using head [of h a] fs ok by auto
  have "\<forall>g \<in> set (map fst ss). wf_ty S (f_ty g) \<and> inside S (f_ty g) (a + f_offset g) h1"
    using fs inside_mono [OF _ placed_brk [OF h1(2)]] by auto
  then obtain h2 where h2: "returns (\<lambda>n. fold_res (run_slot n C F a) ss h1) h2"
    "placed_fields C S (map fst ss) a vs h1 h2"
    using tail apart placed_ok [OF h1(2)] unfolding slots_placed_def by force
  have "placed_fields C S (f # map fst ss) a (v # vs) h h2"
    by (rule placed_fields_cons [OF h1(2) h2(2) wf_cells_ok [OF wfc]]) (use fs apart in auto)
  then show "\<exists>h'. returns (\<lambda>n. fold_res (run_slot n C F a) ((f, jo) # ss) h) h'
      \<and> placed_fields C S (map fst ((f, jo) # ss)) a (v # vs) h h'"
    using returns_fold_Cons [OF h1(1) h2(1)] by auto
qed

lemma elem_placed_cons:
  assumes wfc: "wf_cells C S" and head: "run_places C S F t j v" and tail: "elems_placed C S F t js vs"
    and len: "length js = length vs"
  shows "elems_placed C S F t (j # js) (v # vs)"
  unfolding elems_placed_def
proof (intro allI impI)
  fix a k esz h
  assume t: "wf_ty S t" "span S t \<le> esz" and ok: "heap_ok h" and dst: "a + (k + length (j # js)) * esz \<le> brk h"
  have "inside S t (a + k * esz) h" using t dst by (auto simp: inside_def dst_bytes_def algebra_simps)
  then obtain h1 where h1: "returns (\<lambda>n. run n C F t (a + k * esz) j h) h1" "placed C S t (a + k * esz) v h h1"
    using run_placesD [OF head t(1) ok] by blast
  have "a + (Suc k + length js) * esz \<le> brk h1" using dst placed_brk [OF h1(2)] by simp
  then obtain h2 where h2:
    "returns (\<lambda>n. fold_res (\<lambda>(i, item) h. run n C F t (a + i * esz) item h) (enumerate (Suc k) js) h1) h2"
    "placed_elems C t esz (a + Suc k * esz) vs h1 h2"
    using tail t placed_ok [OF h1(2)] unfolding elems_placed_def by blast
  have "placed_elems C t esz (a + k * esz) (v # vs) h h2"
    by (rule placed_elems_cons [OF h1(2) _ wf_cells_ok [OF wfc] wf_ty_lay [OF t(1)] t(2)]) (use h2(2) dst len in \<open>simp_all add: algebra_simps\<close>)
  moreover have "returns (\<lambda>n. fold_res (\<lambda>(i, item) h. run n C F t (a + i * esz) item h) (enumerate k (j # js)) h) h2"
    using returns_fold_Cons [where f = "\<lambda>n (i, item) h. run n C F t (a + i * esz) item h" and x = "(k, j)",
        OF _ h2(1)] h1(1) by simp
  ultimately show "\<exists>h'. returns (\<lambda>n. fold_res (\<lambda>(i, item) h. run n C F t (a + i * esz) item h) (enumerate k (j # js)) h) h'
      \<and> placed_elems C t esz (a + k * esz) (v # vs) h h'"
    by blast
qed

lemma run_places_struct:
  assumes "slots_placed C S F (struct_slots fs ms) vs"
  shows "run_places C S F (TStruct nm fs) (Object ms) (VStruct vs)"
proof (rule run_placesI)
  fix a h
  assume wf: "wf_ty S (TStruct nm fs)" and ok: "heap_ok h" and dst: "inside S (TStruct nm fs) a h"
  have ss: "map fst (struct_slots fs ms) = fs" by (simp add: struct_slots_def comp_def)
  then obtain h' where "returns (\<lambda>n. fold_res (run_slot n C F a) (struct_slots fs ms) h) h'"
    "placed_fields C S fs a vs h h'"
    using assms wf ok inside_field [OF dst] unfolding slots_placed_def by force
  then show "\<exists>h'. returns (\<lambda>n. run (Suc n) C F (TStruct nm fs) a (Object ms) h) h'
      \<and> placed C S (TStruct nm fs) a (VStruct vs) h h'"
    using placed_struct(1) unfolding run_struct_slots by blast
qed

lemma run_places_tuple:
  assumes "slots_placed C S F (tuple_slots fs js) vs" and "length js = length fs"
  shows "run_places C S F (TTuple fs) (Array js) (VTuple vs)"
proof (rule run_placesI)
  fix a h
  assume wf: "wf_ty S (TTuple fs)" and ok: "heap_ok h" and dst: "inside S (TTuple fs) a h"
  have ss: "map fst (tuple_slots fs js) = fs" using assms(2) by (simp add: tuple_slots_def)
  then obtain h' where "returns (\<lambda>n. fold_res (run_slot n C F a) (tuple_slots fs js) h) h'"
    "placed_fields C S fs a vs h h'"
    using assms(1) wf ok inside_field [OF dst [unfolded inside_tuple [where nm = "[]"]]]
    unfolding slots_placed_def by force
  then show "\<exists>h'. returns (\<lambda>n. run (Suc n) C F (TTuple fs) a (Array js) h) h'
      \<and> placed C S (TTuple fs) a (VTuple vs) h h'"
    using placed_struct(2) unfolding run_tuple_slots by blast
qed

text \<open>A well-formed layout has no maps.\<close>

lemma run_places_map: "run_places C S F (TMap kt ks t vs na ins) j v"
  by (simp add: run_places_def)

lemma run_places_str: "utf8_valid s \<Longrightarrow> length s < 2 ^ 63 \<Longrightarrow> run_places C S F (TStr q) (Str s) (VStr s)"
proof (rule run_placesI)
  fix a h
  assume s: "utf8_valid s" "length s < 2 ^ 63" and *: "wf_ty S (TStr q)" "heap_ok h" "inside S (TStr q) a h"
  obtain p h1 where "alloc_copy s 1 h = Inr (p, h1)" "filled s h p h1"
    using alloc_copy_filled [OF *(2) s(2)] by blast
  then show "\<exists>h'. returns (\<lambda>n. run (Suc n) C F (TStr q) a (Str s) h) h' \<and> placed C S (TStr q) a (VStr s) h h'"
    using placed_string [OF _ wf_ty_lay [OF *(1)] s *(3)] by (auto simp: as_str_def simp del: One_nat_def)
qed

lemma run_places_strref:
  "utf8_valid s \<Longrightarrow> length s < 2 ^ 63 \<Longrightarrow> run_places C S F (TStrRef po lo) (Str s) (VStr s)"
proof (rule run_placesI)
  fix a h
  assume s: "utf8_valid s" "length s < 2 ^ 63"
    and *: "wf_ty S (TStrRef po lo)" "heap_ok h" "inside S (TStrRef po lo) a h"
  obtain p h1 where "alloc_copy s 1 h = Inr (p, h1)" "filled s h p h1"
    using alloc_copy_filled [OF *(2) s(2)] by blast
  then show "\<exists>h'. returns (\<lambda>n. run (Suc n) C F (TStrRef po lo) a (Str s) h) h'
      \<and> placed C S (TStrRef po lo) a (VStr s) h h'"
    using placed_strref [OF _ wf_ty_lay [OF *(1)] s *(3)] by (auto simp: as_str_def simp del: One_nat_def)
qed

lemma run_places_vec:
  assumes wfc: "wf_cells C S" and len: "length js = length vs"
    and bound: "(2 * length js + 4) * esz + (max 1 al - 1) < 2 ^ 63"
    and elems: "elems_placed C S F t js vs"
  shows "run_places C S F (TVec t esz al q) (Array js) (VVec vs)"
proof (rule run_placesI)
  fix a h
  assume wf: "wf_ty S (TVec t esz al q)" and ok: "heap_ok h" and dst: "inside S (TVec t esz al q) a h"
  let ?n = "length js" and ?al = "max 1 al"
  have al: "is_pow2 ?al" "0 < esz" "span S t \<le> esz" "wf_ty S t" using wf by auto
  have "?n * esz \<le> (2 * ?n + 4) * esz" by simp
  then have nb: "?n * esz + (?al - 1) < 2 ^ 63" using bound by linarith
  then obtain p h1 where vb: "vec_block ?n esz ?al h = Inr (p, h1)" and b: "buffer (?n * esz) ?al h p h1"
    using vec_block_buffer [OF ok al(1,2)] by blast
  have e1: "extends h h1 {} (block_of p (?n * esz) ?al)" using b by (simp add: buffer_def)
  obtain h2 where h2:
    "returns (\<lambda>n. fold_res (\<lambda>(i, item) h. run n C F t (p + i * esz) item h) (enumerate 0 js) h1) h2"
    "placed_elems C t esz p vs h1 h2"
  proof (cases "js = []")
    case True
    then show thesis using len by (intro that [of h1]) (simp_all add: placed_elems_nil extends_ok [OF e1])
  next
    case False
    then have "p + (0 + length js) * esz \<le> brk h1" using b al(2) by (simp add: buffer_def)
    with elems al extends_ok [OF e1] obtain h2 where
      "returns (\<lambda>n. fold_res (\<lambda>(i, item) h. run n C F t (p + i * esz) item h) (enumerate 0 js) h1) h2"
      "placed_elems C t esz (p + 0 * esz) vs h1 h2"
      unfolding elems_placed_def by blast
    then show thesis using that by simp
  qed
  obtain B where B: "extends h1 h2 {p..<p + length vs * esz} B"
    "brk h2 \<le> 2 ^ 64 \<longrightarrow> holds_elems C (mem h2) t esz p vs B"
    using h2(2) unfolding placed_elems_def by blast
  have "placed C S (TVec t esz al q) a (VVec vs) h (write_seq a q p (length vs) (length vs) h2)"
  proof (rule placed_vec [OF _ B(2) _ _ _ _ _ wf_ty_lay [OF wf] wf_cells_ok [OF wfc] dst])
    show "extends h h2 {} (block_of p (length vs * esz) (max 1 al) + B)"
      by (rule extends_trans [OF e1 [unfolded len] B(1)]) (use b len al in \<open>auto simp: buffer_def\<close>)
    show "brk h2 \<le> 2 ^ 64 \<longrightarrow> p < 2 ^ 64" using b extends_brk [OF B(1)] by (auto simp: buffer_def)
    have "length vs \<le> length vs * esz" using al by simp
    then show "length vs < 2 ^ 63" using nb [unfolded len] by linarith
  qed (use b in \<open>auto simp: buffer_def\<close>)
  moreover have "returns (\<lambda>n. run (Suc n) C F (TVec t esz al q) a (Array js) h)
      (write_seq a q p (length vs) (length vs) h2)"
    using returns_bind [OF h2(1), of "\<lambda>h _. Inr (write_seq a q p ?n ?n h)"] vb len
    by (simp add: max.commute [of al] Let_def)
  ultimately show "\<exists>h'. returns (\<lambda>n. run (Suc n) C F (TVec t esz al q) a (Array js) h) h'
      \<and> placed C S (TVec t esz al q) a (VVec vs) h h'" by blast
qed

lemma run_places_box:
  assumes wfc: "wf_cells C S" and inner: "run_places C S F t j v"
  shows "run_places C S F (TBoxed t sz al) j (VBox v)"
proof (rule run_placesI)
  fix a h
  assume wf: "wf_ty S (TBoxed t sz al)" and ok: "heap_ok h" and dst: "inside S (TBoxed t sz al) a h"
  have al: "is_pow2 (max 1 al)" and wft: "wf_ty S t" using wf by auto
  obtain p h1 where get: "box_block sz (max 1 al) h = Inr (p, h1)" "heap_ok h1" "inside S t p h1"
    and box: "\<And>h2 v. placed C S t p v h1 h2 \<Longrightarrow> placed C S (TBoxed t sz al) a (VBox v) h (write_word a p h2)"
    using boxes.get_box [OF ok al wf_ty_lay [OF wf] wf_cells_ok [OF wfc] dst] by blast
  obtain h2 where h2: "returns (\<lambda>n. run n C F t p j h1) h2" "placed C S t p v h1 h2"
    by (rule run_placesD [OF inner wft get(2,3)])
  have "returns (\<lambda>n. run (Suc n) C F (TBoxed t sz al) a j h) (write_word a p h2)"
    using returns_bind [OF h2(1), of "\<lambda>h _. Inr (write_word a p h)"] get(1) by (simp add: max.commute [of al])
  then show "\<exists>h'. returns (\<lambda>n. run (Suc n) C F (TBoxed t sz al) a j h) h'
      \<and> placed C S (TBoxed t sz al) a (VBox v) h h'" using box [OF h2(2)] by blast
qed

lemma run_places_none: "run_places C S F (TOpt disc_off ds nd sd payload_off sz t) Null VNone"
proof (rule run_placesI)
  fix a h
  let ?t = "TOpt disc_off ds nd sd payload_off sz t"
  assume wf: "wf_ty S ?t" and ok: "heap_ok h" and "inside S ?t a h"
  obtain h' where "\<And>n. run (Suc n) C F ?t a Null h = Inr h'" "placed C S ?t a VNone h h'"
    using opt_none_run [OF _ wf ok, of 0 C F a] by (auto simp: is_opt_def)
  then show "\<exists>h'. returns (\<lambda>n. run (Suc n) C F ?t a Null h) h' \<and> placed C S ?t a VNone h h'"
    by auto
qed

lemma run_places_some:
  assumes wfc: "wf_cells C S" and inner: "run_places C S F t j v" and j: "j \<noteq> Null"
  shows "run_places C S F (TOpt disc_off ds nd sd payload_off sz t) j (VSome v)"
proof (rule run_placesI)
  fix a h
  let ?t = "TOpt disc_off ds nd sd payload_off sz t"
  assume wf: "wf_ty S ?t" and ok: "heap_ok h" and dst: "inside S ?t a h"
  have wft: "wf_ty S t" and ds: "ds \<le> 16" using wf by (auto simp: int_width_def)
  have "inside S t (a + payload_off) h" using inside_payload [OF dst] wf by simp
  then obtain h1 where h1: "returns (\<lambda>n. run n C F t (a + payload_off) j h) h1"
    "placed C S t (a + payload_off) v h h1"
    by (rule run_placesD [OF inner wft ok])
  show "\<exists>h'. returns (\<lambda>n. run (Suc n) C F ?t a j h) h' \<and> placed C S ?t a (VSome v) h h'"
  proof (cases sd)
    case None
    have "returns (\<lambda>n. run (Suc n) C F ?t a j h) h1"
      using returns_bind [OF h1(1), of "\<lambda>h _. Inr h"] j None by simp
    then show ?thesis using placed_some_niche [OF h1(2)] wf_ty_lay [OF wf] wf_cells_ok [OF wfc] None by blast
  next
    case (Some d)
    have "returns (\<lambda>n. run (Suc n) C F ?t a j h) (write_bytes (a + disc_off) (le_bytes ds d) h1)"
      using returns_bind [OF h1(1), of "\<lambda>h _. Inr (write_bytes (a + disc_off) (le_bytes ds d) h)"] j Some ds
      by (simp add: prefix_of_def le_bytes_take)
    then show ?thesis using placed_some_tag [OF h1(2)] wf_ty_lay [OF wf] wf_cells_ok [OF wfc] dst Some by blast
  qed
qed

lemma run_places_ref:
  assumes wfc: "wf_cells C S" and inner: "run_places C S F t j v" and c: "C c = Some t"
  shows "run_places C S F (TRef c) j v"
proof (rule run_placesI)
  fix a h
  assume ok: "heap_ok h" and dst: "inside S (TRef c) a h"
  have wft: "wf_ty S t" by (rule wf_cellsD [OF wfc c])
  obtain h' where "returns (\<lambda>n. run n C F t a j h) h'" "placed C S t a v h h'"
    by (rule run_placesD [OF inner wft ok inside_ref [OF dst c wf_cells_ok [OF wfc]]])
  then show "\<exists>h'. returns (\<lambda>n. run (Suc n) C F (TRef c) a j h) h' \<and> placed C S (TRef c) a v h h'"
    using placed_ref [OF _ c wf_cells_ok [OF wfc]] c by auto
qed

lemma int_prefix:
  assumes "int_width w"
  shows "prefix_of (le_bytes 16 (nat (k mod 2 ^ 128))) w = Inr (le_bytes w (nat (k mod 256 ^ w)))"
proof -
  have w: "w \<le> 16" using assms by (auto simp: int_width_def)
  have "(256 :: int) ^ w dvd 256 ^ 16" by (rule le_imp_power_dvd [OF w])
  then have "nat (k mod 2 ^ 128) mod 256 ^ w = nat (k mod 256 ^ w)"
    using nat_mod_distrib [of "k mod 2 ^ 128" "256 ^ w"] mod_mod_cancel [of "256 ^ w" "256 ^ 16" k]
    by (simp add: nat_power_eq)
  then have "le_bytes w (nat (k mod 2 ^ 128)) = le_bytes w (nat (k mod 256 ^ w))"
    by (metis le_bytes_mod)
  then show ?thesis using w by (simp add: prefix_of_def le_bytes_take)
qed

lemma run_places_scalar:
  "run_places C S F TBool (Bool b) (VBool b)"
  "scalar c \<Longrightarrow> run_places C S F TChar (Str (encode_utf8 c)) (VChar c)"
  "parse_u128 s = Some k \<Longrightarrow> k < 256 ^ n \<Longrightarrow> run_places C S F (TU n) (Num s) (VU k)"
  "parse_i128 s = Some i \<Longrightarrow> - (256 ^ n div 2) \<le> i \<Longrightarrow> i < 256 ^ n div 2 \<Longrightarrow>
    run_places C S F (TI n) (Num s) (VI i)"
  "std_f64 F s = Some w \<Longrightarrow> run_places C S F TF32 (Num s) (VF32 (demote F w))"
  "std_f64 F s = Some w \<Longrightarrow> run_places C S F TF64 (Num s) (VF64 w)"
  "run_places C S F TUnit j VUnit"
proof -
  show "run_places C S F TBool (Bool b) (VBool b)"
  proof (rule run_placesI)
    fix a h
    assume "heap_ok h"
    then show "\<exists>h'. returns (\<lambda>n. run (Suc n) C F TBool a (Bool b) h) h' \<and> placed C S TBool a (VBool b) h h'"
      using placed_bool [of h C S a b] by (intro exI [of _ "write_bytes a [of_bool b] h"]) simp
  qed
  show "run_places C S F TUnit j VUnit" using placed_unit by (auto intro!: run_placesI)
  show "run_places C S F TChar (Str (encode_utf8 c)) (VChar c)" if "scalar c"
    using first_char_encode [OF that, of "[]"] placed_char that
    by (intro run_placesI) (auto simp: as_str_def)
  show "run_places C S F (TU n) (Num s) (VU k)" if "parse_u128 s = Some k" "k < 256 ^ n"
    using that placed_u by (intro run_placesI) (auto simp: as_u128_def prefix_of_def int_width_def le_bytes_take)
  show "run_places C S F (TI n) (Num s) (VI i)"
    if "parse_i128 s = Some i" "- (256 ^ n div 2) \<le> i" "i < 256 ^ n div 2"
  proof (rule run_placesI)
    fix a h
    assume "wf_ty S (TI n)" and ok: "heap_ok h"
    then have "int_width n" by simp
    then have "run (Suc m) C F (TI n) a (Num s) h
        = Inr (write_bytes a (le_bytes n (nat (i mod 256 ^ n))) h)" for m
      unfolding run.simps as_i128_def json.case that(1) expect_simps bindR_Inr by (simp only: int_prefix bindR_Inr)
    then show "\<exists>h'. returns (\<lambda>m. run (Suc m) C F (TI n) a (Num s) h) h' \<and> placed C S (TI n) a (VI i) h h'"
      using placed_i [OF ok that(2,3)] by simp
  qed
  show "run_places C S F TF32 (Num s) (VF32 (demote F w))" if "std_f64 F s = Some w"
    using that placed_f32 by (intro run_placesI) (auto simp: as_f64_def)
  show "run_places C S F TF64 (Num s) (VF64 w)" if "std_f64 F s = Some w"
    using that placed_f64 by (intro run_placesI) (auto simp: as_f64_def)
qed

lemma run_places_mut:
  assumes wfc: "wf_cells C S"
  shows "binds C F t j v \<Longrightarrow> run_places C S F t j v"
    and "binds_slots C F ss vs \<Longrightarrow> slots_placed C S F ss vs"
    and "binds_elems C F t js vs \<Longrightarrow> elems_placed C S F t js vs \<and> length js = length vs"
proof (induction rule: binds_induct)
  case (b_struct ms fs vs nm)
  then show ?case by (rule_tac run_places_struct)
next
  case (b_tuple js fs vs)
  then show ?case by (rule_tac run_places_tuple)
next
  case (b_vec js esz al t vs q)
  then show ?case using run_places_vec [OF wfc] by blast
next
  case b_slots_nil
  show ?case by (auto simp: slots_placed_def placed_fields_nil)
next
  case (b_slots_found f j v ss vs)
  then show ?case
    by (intro slot_placed_cons [OF wfc]) (auto simp: run_slot_def run_places_def)
next
  case (b_slots_absent f ss vs)
  have "run_places C S F (f_ty f) Null VNone"
    using b_slots_absent.hyps run_places_none by (auto simp: is_opt_def split: ty.splits)
  then show ?case using b_slots_absent
    by (intro slot_placed_cons [OF wfc]) (auto simp: run_slot_def run_places_def)
next
  case (b_elems_nil t)
  show ?case by (auto simp: elems_placed_def placed_elems_nil)
next
  case (b_elems_cons t j v js vs)
  then show ?case using elem_placed_cons [OF wfc] by simp
qed (simp_all add: run_places_scalar run_places_map run_places_str run_places_strref run_places_box [OF wfc]
  run_places_none run_places_some [OF wfc] run_places_ref [OF wfc])

section \<open>Memory safety on arbitrary JSON\<close>






text \<open>The JSON accessors and the slicing fail only by panicking.\<close>

lemma no_ub_simps [simp]:
  "as_str v \<noteq> Inl (Ub w)" "as_u128 v \<noteq> Inl (Ub w)" "as_i128 v \<noteq> Inl (Ub w)" "as_f64 g v \<noteq> Inl (Ub w)"
  "prefix_of bs n \<noteq> Inl (Ub w)" "cell_get C c \<noteq> Inl (Ub w)" "expect opt msg \<noteq> Inl (Ub w)"
  by (auto simp: as_str_def as_u128_def as_i128_def as_f64_def prefix_of_def cell_get_def expect_def
    split: json.splits option.splits)















section \<open>The properties\<close>

text \<open>A recursive type to instantiate the properties: \<^verbatim>\<open>struct Node { val: u64, next: Option<Box<Node>> }\<close>.\<close>

definition node_ty :: ty where
  "node_ty = TStruct (ascii ''Node'')
     [Field (ascii ''val'') 0 (TU 8), Field (ascii ''next'') 8 (TOpt 0 8 0 None 0 8 (TBoxed (TRef 0) 16 8))]"

definition node_cells :: "cell_id \<rightharpoonup> ty" where
  "node_cells = [0 \<mapsto> node_ty]"

definition stack_heap :: heap where
  "stack_heap = \<lparr>mem = \<lambda>_. 0, brk = 4096, live = {#}\<rparr>"

definition node_json :: json where
  "node_json = Object [(ascii ''next'', Object [(ascii ''val'', Num [0x31])]), (ascii ''val'', Num [0x37])]"

lemma stack_heap_ok: "heap_ok stack_heap"
  by (simp add: heap_ok_def stack_heap_def)

lemma node_wf: "wf_ty (\<lambda>_. (16, [])) node_ty" "wf_cells node_cells (\<lambda>_. (16, []))"
proof -
  show "wf_ty (\<lambda>_. (16, [])) node_ty"
    using is_pow2_code(4) by (simp add: node_ty_def ascii_def int_width_def fields_apart_def)
  then show "wf_cells node_cells (\<lambda>_. (16, []))" by (auto simp: wf_cells_def cells_ok_def free_cells_def shaped_def node_cells_def node_ty_def)
qed

lemma node_inside: "a + 16 \<le> 4096 \<Longrightarrow> inside (\<lambda>_. (16, [])) node_ty a stack_heap"
  by (auto simp: inside_def dst_bytes_def node_ty_def stack_heap_def)

lemma node_binds:
  "binds node_cells F node_ty node_json
     (VStruct [VU 7, VSome (VBox (VStruct [VU 1, VNone]))])"
proof -
  have digits: "parse_u128 [0x31] = Some 1" "parse_u128 [0x37] = Some 7"
    by (simp_all add: parse_u128_def is_digit_def Let_def)
  have u: "binds node_cells F (TU 8) (Num [0x31]) (VU 1)" "binds node_cells F (TU 8) (Num [0x37]) (VU 7)"
    by (rule binds_intros(3), rule digits, simp)+
  have "binds node_cells F node_ty (Object [(ascii ''val'', Num [0x31])]) (VStruct [VU 1, VNone])"
    unfolding node_ty_def using u
    by (intro binds_intros) (auto simp: struct_slots_def ascii_def is_opt_def intro!: binds_intros)
  then have "binds node_cells F (TRef 0) (Object [(ascii ''val'', Num [0x31])]) (VStruct [VU 1, VNone])"
    by (rule binds_intros(16) [rotated]) (simp add: node_cells_def)
  then have "binds node_cells F (TOpt 0 8 0 None 0 8 (TBoxed (TRef 0) 16 8))
      (Object [(ascii ''val'', Num [0x31])]) (VSome (VBox (VStruct [VU 1, VNone])))"
    by (intro binds_intros(13,15)) auto
  then show ?thesis unfolding node_ty_def node_json_def using u
    by (intro binds_intros) (auto simp: struct_slots_def ascii_def intro!: binds_intros)
qed

text \<open>C6: the interpreter is correct: for every well-formed layout without maps, recursive ones included, and every
  JSON value that denotes a value of it, \<open>run\<close> ends, writes the representation of exactly that
  value at the destination, changes no other existing memory, and leaves one live block, with
  the layout the destructor will use, for each string, vector and box of the value.\<close>

theorem interp_binds:
  assumes "binds C F t j v" and "wf_cells C S" and "wf_ty S t" and "heap_ok h" and "inside S t a h"
  shows "\<exists>h'. returns (\<lambda>n. run n C F t a j h) h' \<and> placed C S t a v h h'"
  using run_places_mut(1) [OF assms(2,1)] assms(3-5) by (auto elim: run_placesD)

theorem interp_binds_witness:
  "\<exists>h'. returns (\<lambda>n. run n node_cells sample_ops
      node_ty 1024 node_json stack_heap) h'
    \<and> placed node_cells (\<lambda>_. (16, [])) node_ty 1024 (VStruct [VU 7, VSome (VBox (VStruct [VU 1, VNone]))])
        stack_heap h'"
  using node_binds node_wf(2,1) stack_heap_ok node_inside by (rule interp_binds) simp



text \<open>A struct is never bound from an object that lacks a required key: if a field that is not an
  option has no member, no run returns.\<close>

theorem interp_missing_key:
  assumes "f \<in> set fs" and "\<not> is_opt (f_ty f)" and "get j (f_name f) = None"
  shows "run n C F (TStruct nm fs) a j h \<noteq> Inr h'"
proof (cases n)
  case (Suc m)
  have "fold_res (\<lambda>f h. case get j (f_name f) of
      None \<Rightarrow> if is_opt (f_ty f) then run m C F (f_ty f) (a + f_offset f) Null h
        else Inl (Panic ''JSON missing key'')
    | Some fv \<Rightarrow> run m C F (f_ty f) (a + f_offset f) fv h) fs h \<noteq> Inr h'"
    using assms(1) by (induction fs arbitrary: h) (auto simp: assms bindR_eq_Inr)
  then show ?thesis using Suc by simp
qed simp

theorem interp_missing_key_witness:
  "run 9 node_cells sample_ops
    (TStruct [] [Field (ascii ''val'') 0 (TU 8)]) 1024 (Object []) stack_heap \<noteq> Inr stack_heap"
  by (rule interp_missing_key [of "Field (ascii ''val'') 0 (TU 8)"]) (simp_all add: is_opt_def get_def)

text \<open>A non-empty vector of zero-sized elements reaches \<open>alloc\<close> with a zero-size layout: binding a
  \<^verbatim>\<open>Vec<()>\<close> from a non-empty array is undefined behaviour.\<close>

theorem interp_zst_vec_ub:
  assumes "is_pow2 (max al 1)"
  shows "run (Suc n) C F (TVec TUnit 0 al q) a (Array (j # js)) h = Inl (Ub ''alloc with a zero-size layout'')"
proof -
  obtain k where k: "k \<le> 63" "max al 1 = 2 ^ k" using assms by (auto simp: is_pow2_def)
  have "max al 1 \<le> 2 ^ 63" unfolding k(2) by (rule power_increasing [OF k(1)]) simp
  then have "max al 1 - 1 \<le> 2 ^ 63 - 1" by simp
  then show ?thesis using assms
    by (simp add: vec_block_def usize_mul_def new_block_def layout_def alloc_def Let_def)
qed

theorem interp_zst_vec_ub_witness:
  "run (Suc 2) node_cells sample_ops
    (TVec TUnit 0 1 \<lparr>ptr_off = 0, cap_off = 8, len_off = 16\<rparr>) 1024 (Array [Null]) stack_heap
   = Inl (Ub ''alloc with a zero-size layout'')"
  by (rule interp_zst_vec_ub) (use is_pow2_code(1) in simp)

end
