(* ===== verification/List_Map.thy ===== *)
theory List_Map
  imports Tramp
begin

text \<open>
  A map to instantiate the contract of the standard library's with: a linked list, newest entry first.
  A value that has been replaced stays in the list, so that nothing is ever dropped.
\<close>

section \<open>The operations\<close>

text \<open>
  The head pointer is in the first eight bytes of the map; a node holds the next pointer, the key and
  the value.
\<close>

definition list_insert :: "addr \<Rightarrow> bytes \<Rightarrow> bytes \<Rightarrow> heap \<Rightarrow> (bytes option \<times> heap) res" where
  "list_insert a kb vb h =
     (let n = 8 + length kb + length vb; p = align_up (brk h) 8;
          h = write_bytes p (load (mem h) a 8 @ kb @ vb) (h\<lparr>brk := p + n, live := add_mset (p, n, 8) (live h)\<rparr>) in
      Inr (None, write_bytes a (le_bytes 8 p) h))"

definition list_map :: btree where
  "list_map = \<lparr>bt_new = replicate 24 0, bt_insert = list_insert, bt_drop = \<lambda>_ h. Inr h\<rparr>"

fun nodes :: "(cell_id \<rightharpoonup> ty) \<Rightarrow> ty \<Rightarrow> ty \<Rightarrow> memory \<Rightarrow> bytes \<Rightarrow> (bytes \<times> val) list \<Rightarrow> block multiset \<Rightarrow> bool" where
  "nodes C kt vt m ptr [] B \<longleftrightarrow> ptr = replicate 8 0 \<and> B = {#}"
| "nodes C kt vt m ptr ((k, v) # es) B \<longleftrightarrow> (\<exists>p nxt kb vb Bk Bv B'. p < 2 ^ 64 \<and> ptr = le_bytes 8 p
     \<and> length nxt = 8 \<and> load m p (8 + length kb + length vb) = nxt @ kb @ vb
     \<and> owned C m kt kb (VStr k) Bk \<and> owned C m vt vb v Bv \<and> nodes C kt vt m nxt es B'
     \<and> B = add_mset (p, 8 + length kb + length vb, 8) (B' + Bk + Bv))"

definition list_rep :: "(cell_id \<rightharpoonup> ty) \<Rightarrow> ty \<Rightarrow> ty \<Rightarrow> map_rep" where
  "list_rep C kt vt m xs f B \<longleftrightarrow> (\<exists>es. nodes C kt vt m (take 8 xs) es B \<and> f = map_of es)"

lemma take_load: "n \<le> k \<Longrightarrow> take n (load m a k) = load m a n"
  by (auto intro: load_eqI [symmetric])

lemma nodes_frame:
  "nodes C kt vt m ptr es B \<Longrightarrow> (\<And>x. x \<in> foot B \<Longrightarrow> m' x = m x) \<Longrightarrow> nodes C kt vt m' ptr es B"
proof (induction es arbitrary: ptr B)
  case (Cons e es)
  obtain k v where e: "e = (k, v)" by (cases e)
  obtain p nxt kb vb Bk Bv B' where n: "p < 2 ^ 64" "ptr = le_bytes 8 p" "length nxt = 8"
    "load m p (8 + length kb + length vb) = nxt @ kb @ vb" "owned C m kt kb (VStr k) Bk" "owned C m vt vb v Bv"
    "nodes C kt vt m nxt es B'" "B = add_mset (p, 8 + length kb + length vb, 8) (B' + Bk + Bv)"
    using Cons.prems(1) unfolding e nodes.simps by blast
  have same: "m' x = m x" if "x \<in> {p..<p + (8 + length kb + length vb)} \<or> x \<in> foot B' \<or> x \<in> foot Bk \<or> x \<in> foot Bv" for x
    using Cons.prems(2) [of x] that n(8) by auto
  have "load m' p (8 + length kb + length vb) = nxt @ kb @ vb"
    unfolding n(4) [symmetric] by (rule load_cong) (simp add: same)
  moreover have "owned C m' kt kb (VStr k) Bk" "owned C m' vt vb v Bv"
    using owned_frame [OF n(5)] owned_frame [OF n(6)] same by blast+
  moreover have "nodes C kt vt m' nxt es B'" by (rule Cons.IH [OF n(7)]) (simp add: same)
  ultimately show ?case unfolding e nodes.simps using n(1,2,3,8) by blast
qed simp

lemma list_insert_ok: "insert_ok C kt vt ks vs list_map (list_rep C kt vt)"
  unfolding insert_ok_def
proof (intro allI impI, elim conjE)
  fix h0 W h a f B k kb Bk v vb Bv
  assume e: "extends h0 h W (B + Bk + Bv)" and a: "{a..<a + 24} \<subseteq> W" "{a..<a + 24} \<subseteq> {..<brk h0}"
    and r: "brk h \<le> 2 ^ 64 \<longrightarrow> list_rep C kt vt (mem h) (load (mem h) a 24) f B \<and> owned C (mem h) kt kb (VStr k) Bk \<and> owned C (mem h) vt vb v Bv"
  let ?n = "8 + length kb + length vb" and ?p = "align_up (brk h) 8" and ?bs = "load (mem h) a 8 @ kb @ vb"
  let ?B = "add_mset (?p, ?n, 8) (B + Bk + Bv)"
  define h1 where "h1 = write_bytes ?p ?bs (h\<lparr>brk := ?p + ?n, live := add_mset (?p, ?n, 8) (live h)\<rparr>)"
  define h2 where "h2 = write_bytes a (le_bytes 8 ?p) h1"
  have p: "brk h \<le> ?p" "8 dvd ?p" by (rule align_up_ge align_up_dvd; simp)+
  have e1: "extends h h1 {} {#(?p, ?n, 8)#}"
    using heap_ok_grow [OF extends_ok [OF e] p(1)] p unfolding h1_def extends_def by (auto simp: mem_write_bytes)
  have e2: "extends h0 h2 W (B + Bk + Bv + {#(?p, ?n, 8)#})"
    unfolding h2_def by (rule extends_then_write [OF extends_trans [OF e e1]]) (use a(1) in auto)
  have below: "a + 24 \<le> brk h0" using subsetD [OF a(2), of "a + 23"] by simp
  have same: "mem h2 x = mem h x" if "x < brk h" "x \<notin> {a..<a + 8}" for x
    using that p(1) by (auto simp: h2_def h1_def mem_write_bytes)
  have fr: "mem h2 x = mem h x" if "x \<in> foot B \<or> x \<in> foot Bk \<or> x \<in> foot Bv" for x
  proof (rule same)
    have "fresh (brk h0) (brk h) (B + Bk + Bv)" using e by (simp add: extends_def)
    from fresh_foot [OF this, of x] that below show "x < brk h" "x \<notin> {a..<a + 8}" by auto
  qed
  have "list_rep C kt vt (mem h2) (load (mem h2) a 24) (f(k \<mapsto> v)) ?B" if b: "brk h2 \<le> 2 ^ 64"
  proof -
    have le: "?p + ?n \<le> 2 ^ 64" using b by (simp add: h2_def h1_def)
    then have "brk h \<le> 2 ^ 64" using p(1) by linarith
    then obtain es where es: "nodes C kt vt (mem h) (load (mem h) a 8) es B" "f = map_of es"
      and o: "owned C (mem h) kt kb (VStr k) Bk" "owned C (mem h) vt vb v Bv"
      using r by (auto simp: list_rep_def take_load)
    have "load (mem h2) ?p ?n = load (mem h1) ?p ?n"
      unfolding h2_def by (rule load_write_disjoint) (use below p(1) extends_brk [OF e] in simp)
    then have l: "load (mem h2) ?p ?n = ?bs" unfolding h1_def by (simp add: load_write_same)
    have "nodes C kt vt (mem h2) (le_bytes 8 ?p) ((k, v) # es) ?B"
      unfolding nodes.simps using le l nodes_frame [OF es(1)] owned_frame [OF o(1)] owned_frame [OF o(2)] fr
      by (intro exI [of _ ?p] exI [of _ "load (mem h) a 8"] exI [of _ kb] exI [of _ vb] exI [of _ Bk] exI [of _ Bv] exI [of _ B])
        simp
    moreover have "load (mem h2) a 8 = le_bytes 8 ?p" unfolding h2_def by (simp add: load_write_same)
    ultimately show ?thesis unfolding list_rep_def es(2) by (intro exI [of _ "(k, v) # es"]) (simp add: take_load)
  qed
  moreover have "bt_insert list_map a kb vb h = Inr (None, h2)"
    by (simp add: list_map_def list_insert_def h2_def h1_def Let_def)
  ultimately show "\<exists>old h' B' Bo. bt_insert list_map a kb vb h = Inr (old, h') \<and> extends h0 h' W (B' + Bo) \<and> brk h \<le> brk h'
      \<and> (brk h' \<le> 2 ^ 64 \<longrightarrow> list_rep C kt vt (mem h') (load (mem h') a 24) (f(k \<mapsto> v)) B')
      \<and> (case old of None \<Rightarrow> Bo = {#}
         | Some ob \<Rightarrow> \<exists>ov. f k = Some ov \<and> (brk h' \<le> 2 ^ 64 \<longrightarrow> owned C (mem h') vt ob ov Bo))"
    using e2 extends_brk [OF e1]
    by (intro exI [of _ None] exI [of _ h2] exI [of _ ?B] exI [of _ "{#}"]) (simp add: h2_def)
qed

lemma list_map_ok: "btree_ok C kt (TU n) ks vs list_map (list_rep C kt (TU n))"
  unfolding btree_ok_def
proof (intro conjI allI impI)
  show "length (bt_new list_map) = 24" by (simp add: list_map_def)
  show "list_rep C kt (TU n) m (bt_new list_map) Map.empty {#}" for m
    unfolding list_rep_def list_map_def by (intro exI [of _ "[]"]) simp
  show "list_rep C kt (TU n) m' xs f B" if "list_rep C kt (TU n) m xs f B \<and> (\<forall>x \<in> foot B. m' x = m x)" for m xs f B m'
    using that nodes_frame [of C kt "TU n" m _ _ B m'] unfolding list_rep_def by blast
  show "insert_ok C kt (TU n) ks vs list_map (list_rep C kt (TU n))" by (rule list_insert_ok)
  have "B = {#}" if "owned C m (TU n) xs v B" for m xs v B
    using that unfolding owned_def by (auto elim: holds.cases)
  then show "drop_ok C (TU n) list_map"
    unfolding drop_ok_def list_map_def by (auto intro!: exI [of _ "{#}"])
qed

end
