(* ===== verification/Jit_Props.thy ===== *)
theory Jit_Props
  imports Json_Props Jit_Struct Jit_Vec Jit_Map Jit_Cells Interp_Props List_Map
begin

text \<open>
  The properties of the compiled parsers: a compiled parser reads every value a JSON text denotes
  into the destination, it agrees with the interpreter, and what its pieces promise on their own.
\<close>

section \<open>Every bound value is read\<close>

lemma binds_reads_all:
  assumes wfc: "cells_ok C S" and jc: "jit_cells N C" and F: "ops_ok F"
  shows "binds C F t j v \<Longrightarrow> reads N C S F t j v"
    and "binds_slots C F ss vs \<Longrightarrow> slots_read N C S F ss vs"
    and "binds_elems C F t js vs \<Longrightarrow> list_all2 (reads N C S F t) js vs"
proof (induction rule: binds_induct)
  case (b_char c)
  show ?case by (rule readsI) simp
next
  case (b_slots_found f j v ss vs)
  then show ?case by (simp add: slots_read_def)
next
  case (b_slots_absent f ss vs)
  then show ?case by (simp add: slots_read_def)
next
  case b_map
  have "memchr2_ok F" using F by (simp add: ops_ok_def)
  then show ?case by (rule reads_map [OF wfc]) (use b_map in simp_all)
qed (use F wfc jc in \<open>auto simp: ops_ok_def slots_read_def
    intro: reads_bool reads_u reads_i reads_float reads_unit reads_str reads_strref reads_box
      reads_none reads_some reads_ref reads_vec reads_tuple reads_struct\<close>)

lemmas binds_reads = binds_reads_all(1)

section \<open>Compilation\<close>

lemma jit_ty_known: "jit_ty N t \<Longrightarrow> known t"
proof (induction t rule: known.induct)
  case (1 t)
  then show ?case by (subst known.simps) (auto split: ty.splits simp: list_all_iff)
qed

lemma map_res_Inr: "(\<And>x. x \<in> set xs \<Longrightarrow> f x = Inr (g x)) \<Longrightarrow> map_res f xs = Inr (map g xs)"
  by (induction xs) auto

definition compiled_of :: "(cell_id \<rightharpoonup> ty) \<Rightarrow> ext_ops \<Rightarrow> ty \<Rightarrow> compiled" where
  "compiled_of C F t = (\<lambda>fuel dst b len h. bindR (parse fuel C F b len t dst 0 h) (\<lambda>(_, h). Inr h))"

lemma compile_returns:
  assumes "closed C t" and "jit_ty N t" and jc: "jit_cells N C"
  shows "returns (\<lambda>n. compile_parser n C F t) (compiled_of C F t)"
proof -
  obtain cells where c: "returns (\<lambda>n. collect_cells n C t ({}, [])) (set cells, cells)" "set cells \<subseteq> dom C"
    by (rule collect_cells_all [OF assms(1)])
  have "bindR (cell_get C c) emit_one = Inr ()" if mc: "c \<in> set cells" for c
  proof -
    obtain b where b: "C c = Some b" using mc c(2) by blast
    then have "known b" using jc jit_ty_known by (auto simp: jit_cells_def)
    then show ?thesis using b by (simp add: emit_one_def)
  qed
  then have "map_res (\<lambda>c. bindR (cell_get C c) emit_one) cells = Inr (map (\<lambda>_. ()) cells)"
    by (rule map_res_Inr)
  then show ?thesis
    unfolding compile_parser_def compiled_of_def
    using jit_ty_known [OF assms(2)] by (intro returns_bind [OF c(1)]) (simp add: emit_one_def)
qed

lemma compiled_reads:
  assumes "binds C F t j v" and "cells_ok C S" and "lay_ok S t" and "jit_ty N t" and "jit_cells N C" and "ops_ok F"
    and tx: "value_text j tx" "list_all ws_byte w" "list_all ws_byte w'"
    and room: "N \<le> length slack" "length (w @ tx @ w' @ slack) < 2 ^ 31"
    and h: "heap_ok h" "inside S t a h"
  shows "\<exists>h'. returns (\<lambda>n. compiled_of C F t n a (w @ tx @ w' @ slack) (length (w @ tx @ w')) h) h' \<and> placed C S t a v h h'"
proof -
  let ?b = "w @ tx @ w' @ slack" and ?e = "length (w @ tx @ w')"
  have "ends (w' @ [])" by (rule ends_ws [OF tx(3)]) (simp add: ends_def)
  then have e: "ends w'" by simp
  have "text_at N ?b ?e 0 j (0 + length w + length tx)"
    unfolding text_at_def using tx e room by (intro exI [of _ w] exI [of _ tx] exI [of _ w']) (auto simp: view_def)
  from readsD [OF binds_reads [OF assms(2,5,6,1)] this assms(3,4) h]
  obtain h' where h': "returns (\<lambda>n. parse n C F ?b ?e t a 0 h) (0 + length w + length tx, h')" "placed C S t a v h h'"
    by blast
  then show ?thesis
    unfolding compiled_of_def using returns_bind [OF h'(1), of "\<lambda>(_, h) _. Inr h"]
    by (auto simp: case_prod_unfold)
qed


section \<open>A document to instantiate the properties\<close>



lemma node_jit: "jit_ty 4 node_ty" "jit_cells 4 node_cells" "closed node_cells node_ty"
  by (auto simp: node_ty_def node_cells_def jit_cells_def closed_def ascii_def ty_cells.simps)

text \<open>A struct of a recursive type and a map, with operations that know the trampolines of the map.\<close>

definition doc_ty :: ty where
  "doc_ty = TStruct [] [Field (ascii ''node'') 0 node_ty,
     Field (ascii ''counts'') 16 (TMap (TStr \<lparr>ptr_off = 0, cap_off = 8, len_off = 16\<rparr>) 24 (TU 8) 8 16 32)]"

definition counts_json :: json where
  "counts_json = Object [(ascii ''a'', Num [0x37]), (ascii ''b'', Num [0x39]), (ascii ''a'', Num [0x38])]"

definition doc_json :: json where
  "doc_json = Object [(ascii ''counts'', counts_json), (ascii ''node'', node_json)]"

definition doc_value :: val where
  "doc_value = VStruct [VStruct [VU 7, VSome (VBox (VStruct [VU 1, VNone]))],
     VMap (\<lambda>m xs. list_rep node_cells (TStr \<lparr>ptr_off = 0, cap_off = 8, len_off = 16\<rparr>) (TU 8) m xs
       (map_of (rev (zip [ascii ''a'', ascii ''b'', ascii ''a''] [VU 7, VU 9, VU 8]))))]"

definition list_ops :: ext_ops where
  "list_ops = sample_ops\<lparr>call_addr := \<lambda>ad args h. case args of
     [dst] \<Rightarrow> map_new_at list_map dst h | [dst, k, v] \<Rightarrow> map_insert list_map 24 8 dst k v h | _ \<Rightarrow> Inr h\<rparr>"

lemma list_ops_ok: "ops_ok list_ops"
  using sample_ops_ok by (simp add: list_ops_def ops_ok_def fast_ok_def memchr2_ok_def)

lemma list_ops_lib: "map_lib C list_ops kt 24 (TU n) 8 na ins (list_rep C kt (TU n))"
  unfolding map_lib_def using list_map_ok by (intro exI [of _ list_map]) (simp add: linked_def list_ops_def)

lemma str_key_str: "str_key C (TStr q)"
  by (simp add: str_key_def)

lemma counts_binds:
  "binds_elems C F (TU 8) (map snd [(ascii ''a'', Num [0x37]), (ascii ''b'', Num [0x39]), (ascii ''a'', Num [0x38])])
     [VU 7, VU 9, VU 8]"
proof -
  have "binds C F (TU 8) (Num [0x37]) (VU 7)" "binds C F (TU 8) (Num [0x39]) (VU 9)" "binds C F (TU 8) (Num [0x38]) (VU 8)"
    by (rule binds_intros(3); simp add: parse_u128_def is_digit_def Let_def)+
  then show ?thesis by (simp add: binds_intros)
qed

lemma counts_keys:
  "\<forall>k \<in> fst ` set [(ascii ''a'', Num [0x37]), (ascii ''b'', Num [0x39]), (ascii ''a'', Num [0x38])].
     utf8_valid k \<and> length k < 2 ^ 63"
  by (simp add: ascii_def utf8_head_def)

lemma doc_binds: "binds node_cells list_ops doc_ty doc_json doc_value"
proof -
  have "binds node_cells list_ops (TMap (TStr \<lparr>ptr_off = 0, cap_off = 8, len_off = 16\<rparr>) 24 (TU 8) 8 16 32) counts_json
      (VMap (\<lambda>m xs. list_rep node_cells (TStr \<lparr>ptr_off = 0, cap_off = 8, len_off = 16\<rparr>) (TU 8) m xs
       (map_of (rev (zip [ascii ''a'', ascii ''b'', ascii ''a''] [VU 7, VU 9, VU 8])))))"
    using b_map [OF str_key_str counts_keys counts_binds list_ops_lib] unfolding counts_json_def by simp
  then show ?thesis
    unfolding doc_ty_def doc_json_def doc_value_def using node_binds [of list_ops]
    by (intro binds_intros) (auto simp: struct_slots_def ascii_def intro!: binds_intros)
qed

lemma doc_ok: "lay_ok (\<lambda>_. (16, [])) doc_ty" "jit_ty 6 doc_ty" "jit_cells 6 node_cells" "closed node_cells doc_ty"
proof -
  show "lay_ok (\<lambda>_. (16, [])) doc_ty"
    using node_wf(1) by (simp add: doc_ty_def fields_apart_def seq_ok_def words_apart_def seq_span_def int_width_def node_ty_def ascii_def)
  show "jit_ty 6 doc_ty" "jit_cells 6 node_cells" "closed node_cells doc_ty"
    by (auto simp: doc_ty_def node_ty_def node_cells_def jit_cells_def closed_def ascii_def ty_cells.simps)
qed

lemma doc_text: "value_text doc_json (print doc_json)" "length ([] @ print doc_json @ [SPACE] @ replicate 6 0) < 2 ^ 31"
proof -
  show "value_text doc_json (print doc_json)"
    by (rule value_text_print)
      (simp add: doc_json_def counts_json_def node_json_def num_tok_def num_char_def is_digit_def ascii_def raw_char_def utf8_head_def)
  show "length ([] @ print doc_json @ [SPACE] @ replicate 6 0) < 2 ^ 31"
    by (simp add: doc_json_def counts_json_def node_json_def ascii_def)
qed

lemma doc_inside: "a + 40 \<le> 4096 \<Longrightarrow> inside (\<lambda>_. (16, [])) doc_ty a stack_heap"
  by (auto simp: inside_def dst_bytes_def doc_ty_def node_ty_def stack_heap_def)


section \<open>The properties\<close>

text \<open>C2: the compiled parsers are correct: for every closed, well-formed layout without \<^verbatim>\<open>char\<close> and 128-bit
  integers, recursive ones and maps anywhere included, compilation ends, and the compiled function, run on
  any text of a JSON value that denotes a value of the type (keys in any order, unknown keys with
  any value, trailing commas, escapes, whitespace anywhere), ends and writes the representation of
  exactly that value, changes no other existing memory and leaves one block per string, vector and
  box, and what the maps own. Behind the input as many bytes as the longest field name must be readable.\<close>

theorem jit_binds:
  assumes "binds C F t j v" and "cells_ok C S" and "lay_ok S t" and "jit_ty N t" and "jit_cells N C" and "ops_ok F"
    and "closed C t" and "value_text j tx" and "list_all ws_byte w" and "list_all ws_byte w'"
    and "N \<le> length slack" and "length (w @ tx @ w' @ slack) < 2 ^ 31" and "heap_ok h" and "inside S t a h"
  shows "\<exists>p h'. returns (\<lambda>n. compile_parser n C F t) p
    \<and> returns (\<lambda>n. p n a (w @ tx @ w' @ slack) (length (w @ tx @ w')) h) h' \<and> placed C S t a v h h'"
  using compile_returns [OF assms(7,4,5)] compiled_reads [OF assms(1-6,8-14)] by blast

theorem jit_binds_witness:
  "\<exists>p h'. returns (\<lambda>n. compile_parser n node_cells list_ops doc_ty) p
    \<and> returns (\<lambda>n. p n 1024 ([] @ print doc_json @ [SPACE] @ replicate 6 0) (length ([] @ print doc_json @ [SPACE]))
        stack_heap) h'
    \<and> placed node_cells (\<lambda>_. (16, [])) doc_ty 1024 doc_value stack_heap h'"
  by (rule jit_binds [OF doc_binds node_wf(2) [THEN wf_cells_ok] doc_ok(1-3) list_ops_ok doc_ok(4) doc_text(1)
        _ _ _ doc_text(2) stack_heap_ok doc_inside])
    (simp_all add: ws_byte_def)



text \<open>C19: the walk that discovers the recursive cells ends on every closed store of cells, whatever the
  cycles, and returns exactly the cells reachable from the type, each once.\<close>

theorem collect_cells_reachable:
  assumes "closed C t"
  shows "\<exists>cells. returns (\<lambda>n. collect_cells n C t ({}, [])) (set cells, cells) \<and> distinct cells
    \<and> set cells = reachable C (set (ty_cells t))"
  by (rule collect_cells_all [OF assms]) blast

theorem collect_cells_reachable_witness:
  "\<exists>cells. returns (\<lambda>n. collect_cells n node_cells node_ty ({}, [])) (set cells, cells) \<and> distinct cells
    \<and> set cells = reachable node_cells (set (ty_cells node_ty))"
  by (rule collect_cells_reachable) (rule node_jit(3))

end
