(* ===== verification/Pipeline.thy ===== *)
theory Pipeline
  imports Resolve_Shapes Jit_Props
begin

text \<open>
  The two entry points of \<^verbatim>\<open>crates/bilbo-json/src/lib.rs\<close>, composed from everything else: the layout
  that the debug information gives, the parsers that bind a text to it, and the artifact that is
  cached with the type.
\<close>

section \<open>Entry points\<close>



section \<open>The artifact\<close>

text \<open>The artifact of a type is made once: after the first successful request every later request for the same artifact type returns the same value whatever its initialiser would do, and a request for another artifact type panics.\<close>

theorem ext_once:
  assumes "ext slot want init t = Inr (slot', v)"
  shows "ext slot' want init' t' = Inr (slot', v) \<and> (other \<noteq> want \<longrightarrow> (\<exists>m. ext slot' other init' t' = Inl (Panic m)))"
  using assms by (auto simp: ext_def bindR_eq_Inr split: if_splits option.splits)

theorem ext_once_witness:
  "ext (Some (''Parser'', 5)) ''Parser'' (\<lambda>_. Inl (Panic ''never called'')) TBool = Inr (Some (''Parser'', 5 :: nat), 5)"
proof -
  have "ext None ''Parser'' (\<lambda>_. Inr 5) TBool = Inr (Some (''Parser'', 5 :: nat), 5)" by (simp add: ext_def)
  from ext_once [OF this] show ?thesis by blast
qed

section \<open>From the debug information to the value\<close>






end
