(* ===== verification/Jit_Edges.thy ===== *)
theory Jit_Edges
  imports Json_Props Jit_Struct Interp_Props
begin

text \<open>
  What the pieces of the compiled parsers and their runtime functions promise one by one, and how
  they behave at the edges: keys, copies, integers, escapes, skipped values, and the inputs on
  which the compiled parser and the interpreter part ways.
\<close>

section \<open>Pieces\<close>

text \<open>C22: the three ways a key is dispatched (the length switch of wide structs, the masked comparison
  of one 8-byte load, the byte-by-byte chain) all select the first field whose name is exactly the
  key, and no field for an unknown key, whenever the bytes they load are readable.\<close>

theorem dispatch_selects:
  assumes "e \<le> length b" and "kp + kl \<le> e" and "\<forall>f \<in> set fs. kp + length (f_name f) \<le> length b"
  shows "dispatch fs b e kp kl = Inr (position (\<lambda>f. f_name f = take kl (drop kp b)) fs)"
  using dispatch_named [OF assms(1,2)] assms(3) by (simp add: field_named_def)

theorem dispatch_selects_witness:
  "dispatch [Field (ascii ''id'') 0 TBool, Field (ascii ''name'') 8 TBool] (ascii ''name: 1 '') 8 0 4
    = Inr (position (\<lambda>f. f_name f = take 4 (drop 0 (ascii ''name: 1 '')))
        [Field (ascii ''id'') 0 TBool, Field (ascii ''name'') 8 TBool])"
  by (rule dispatch_selects) (simp_all add: ascii_def)

text \<open>A key comparison loads as many bytes as the field's name has before it looks at the key's
  length: when fewer bytes remain behind the start of the key, the first name that long is an
  access outside the input, on input that is valid JSON.\<close>

theorem key_overread:
  assumes "length (f # fs) < SWITCH_MIN_FIELDS" and "e < kp + 8" and "length b < kp + length (f_name f)"
    and "kp \<le> length b"
  shows "dispatch (f # fs) b e kp kl = Inl (Ub ''load beyond the input'')"
proof -
  have stuck: "fold_res (\<lambda>i acc. bindR (load_u8 b (kp + i)) (\<lambda>v. Inr (acc \<and> v = f_name f ! i))) [m..<n] acc
      = Inl (Ub ''load beyond the input'')" if "length b < kp + n" "kp + m \<le> length b" for m n acc
    using that
  proof (induction "n - m" arbitrary: m acc)
    case (Suc k)
    then have up: "[m..<n] = m # [Suc m..<n]" by (simp add: upt_conv_Cons)
    show ?case
    proof (cases "kp + m < length b")
      case True
      have "k = n - Suc m" "kp + Suc m \<le> length b" using Suc.hyps(2) True by simp_all
      from Suc.hyps(1) [OF this(1) Suc.prems(1) this(2)] show ?thesis
        unfolding up using True by (simp add: load_u8_def)
    qed (simp add: up load_u8_def)
  qed simp
  have "keyeq b kp kl (f_name f) = Inl (Ub ''load beyond the input'')"
    unfolding keyeq_def by (rule stuck) (use assms in simp_all)
  then show ?thesis using assms(1,2) by (simp add: dispatch_def)
qed

theorem key_overread_witness:
  "dispatch [Field (ascii ''description'') 0 TBool] (ascii ''{\"id\":1}'') 8 2 2 = Inl (Ub ''load beyond the input'')"
  by (rule key_overread) (simp_all add: SWITCH_MIN_FIELDS_def ascii_def)

text \<open>C31: the inlined copy of string bytes (8-byte words with one overlapping store at the end; two
  overlapping 4-byte or 2-byte stores, or one byte, for short strings) copies exactly the string,
  for every length.\<close>

theorem emit_copy_copies:
  assumes "sp + len \<le> length b"
  shows "emit_copy b dst sp len h = Inr (write_bytes dst (take len (drop sp b)) h)"
  using assms by (rule emit_copy_eq)

theorem emit_copy_copies_witness:
  "emit_copy (ascii ''hello world!'') 64 0 11 stack_heap
    = Inr (write_bytes 64 (take 11 (drop 0 (ascii ''hello world!''))) stack_heap)"
  by (rule emit_copy_copies) (simp add: ascii_def)




text \<open>On a negative number the parser of an unsigned field reads no digit: it yields 0 and leaves the
  cursor at the minus, without an error.\<close>

theorem unsigned_minus:
  assumes "view b e i (w @ MINUS # r)" and "list_all ws_byte w"
  shows "intval b e i False = Inr (0, i + length w)"
proof -
  have c: "ws b e i = Inr (i + length w)" by (rule ws_view [OF assms(1) ws_byte_le [OF assms(2)]]) simp
  have v: "view b e (i + length w) (MINUS # r)" by (rule view_append [OF assms(1)])
  then have "load_u8 b (i + length w) = Inr MINUS" "i + length w < e"
    using view_Cons by (auto simp: view_def)
  then show ?thesis by (simp add: intval_def c digits.simps Let_def)
qed

theorem unsigned_minus_witness:
  "intval [MINUS, 0x37, COMMA] 3 0 False = Inr (0, 0 + length ([] :: bytes))"
  by (rule unsigned_minus [where r = "[0x37, COMMA]"]) (simp_all add: view_def)

text \<open>C25: skipping a value skips exactly the value: on every text of the grammar shorter than 2 GiB
  (brackets and escaped quotes inside strings included) \<open>rt_skip\<close> returns the position right
  behind it.\<close>

theorem skip_exact:
  assumes "view b e i (w @ t @ r)" and "list_all ws_byte w" and "value_text j t" and "ends r"
    and "length t < 2 ^ 31"
  shows "rt_skip b e i = Inr (i + length w + length t)"
  using assms by (rule rt_skip_text)

theorem skip_exact_witness:
  "rt_skip ([] @ (QUOTE # [RBRACE, BACKSLASH, QUOTE] @ [QUOTE]) @ [COMMA]) 6 0
    = Inr (0 + length ([] :: bytes) + length (QUOTE # [RBRACE, BACKSLASH, QUOTE] @ [QUOTE]))"
proof (rule skip_exact [where w = "[]" and r = "[COMMA]"])
  show "value_text (Str [RBRACE, QUOTE]) (QUOTE # [RBRACE, BACKSLASH, QUOTE] @ [QUOTE])"
    by (rule text_str) (simp_all add: simple_escape_def unescape_byte_def utf8_head_def)
qed (simp_all add: view_def)

section \<open>Escapes\<close>

lemma unescape_units_from:
  "list_all scalar cs \<Longrightarrow> drop i s = concat (map unicode_units cs) \<Longrightarrow> i \<le> length s \<Longrightarrow>
   unescape_loop s i out = Inr (out @ concat (map encode_utf8 cs))"
proof (induction cs arbitrary: i out)
  case Nil
  then show ?case by (simp add: unescape_loop.simps)
next
  case (Cons c cs)
  have d: "drop i s = unicode_units c @ concat (map unicode_units cs)" using Cons.prems by simp
  have "drop (i + length (unicode_units c)) s = concat (map unicode_units cs)" by (rule drop_appendD [OF d])
  moreover have "i + length (unicode_units c) \<le> length s"
    using arg_cong [OF d, of length] Cons.prems(3) by simp
  ultimately show ?case
    using unescape_unicode [OF d] Cons.prems(1) Cons.IH by simp
qed

text \<open>C28: decoding inverts the escaping of any sequence of characters as \<^verbatim>\<open>\uXXXX\<close> units, surrogate
  pairs for the supplementary planes included: the result is their UTF-8 encoding.\<close>

theorem unescape_units:
  assumes "list_all scalar cs"
  shows "unescape_loop (concat (map unicode_units cs)) 0 [] = Inr (concat (map encode_utf8 cs))"
  using unescape_units_from [OF assms, of 0 "concat (map unicode_units cs)" "[]"] by simp

theorem unescape_units_witness:
  "unescape_loop (concat (map unicode_units [0xE9, 0x1F980])) 0 []
    = Inr (concat (map encode_utf8 [0xE9, 0x1F980]))"
  by (rule unescape_units) (simp add: scalar_def)



text \<open>A \<^verbatim>\<open>\u\<close> with fewer than four bytes behind it indexes past the body and panics.\<close>

theorem unescape_short_panics:
  assumes "length ds < 4"
  shows "unescape_loop (BACKSLASH # 0x75 # ds) 0 [] = Inl (Panic ''index out of bounds'')"
proof -
  have "u4 (BACKSLASH # 0x75 # ds) 2 = Inl (Panic ''index out of bounds'')"
    using assms by (auto simp: u4_def idx_def bindR_eq_Inl numeral_2_eq_2 numeral_3_eq_3)
  then show ?thesis
    by (subst unescape_loop.simps) (simp add: unicode_escape_def numeral_2_eq_2)
qed

theorem unescape_short_panics_witness:
  "unescape_loop (BACKSLASH # 0x75 # [0x30, 0x30]) 0 [] = Inl (Panic ''index out of bounds'')"
  by (rule unescape_short_panics) simp

text \<open>The four bytes behind \<^verbatim>\<open>\u\<close> are taken to be digits without a check: a two-byte character
  whose first byte is the fourth digit is cut, and the decoded string is not UTF-8, although the
  input is.\<close>

theorem unescape_cuts_char:
  "utf8_valid [BACKSLASH, 0x75, 0x30, 0x30, 0x30, 0xC3, 0xA9]
   \<and> unescape_loop [BACKSLASH, 0x75, 0x30, 0x30, 0x30, 0xC3, 0xA9] 0 [] = Inr [0, 0xA9]
   \<and> \<not> utf8_valid [0, 0xA9]"
  by (simp add: unescape_loop.simps unicode_escape_def u4_def hex_def push_char_def char_from_u32_def
      scalar_def encode_utf8_def utf8_head_def cont_def idx_def)

section \<open>Where the backends part ways\<close>

lemma encode_high_raw:
  assumes "scalar c" and "0x80 \<le> c"
  shows "list_all raw_char (encode_utf8 c)"
proof -
  have raw: "0x80 \<le> k \<Longrightarrow> k < 256 \<Longrightarrow> raw_char (word_of_nat k)" for k
    by (simp add: raw_char_def byte_of_nat_cmp)
  have "c div 64 mod 64 < 64" "c div 4096 mod 64 < 64" "c mod 64 < 64" by simp_all
  moreover have "c < 0x800 \<Longrightarrow> c div 64 < 32" "c < 0x10000 \<Longrightarrow> c div 4096 < 16" "c div 262144 < 5"
    using assms(1) by (auto simp: scalar_def)
  ultimately show ?thesis
    using assms by (auto simp: encode_utf8_def simp del: of_nat_add intro!: raw)
qed

text \<open>A \<^verbatim>\<open>char\<close> field outside ASCII is read wrongly by the compiled parser: the destination holds the
  first byte of the character's UTF-8 encoding, not its code point (the two are
  the same number for U+00C3 only).\<close>

theorem char_first_byte:
  assumes F: "memchr2_ok F" and c: "scalar c" "0x80 \<le> c" "c \<noteq> 0xC3" and v: "view b e i (QUOTE # encode_utf8 c @ QUOTE # r)"
  shows "\<exists>h'. parse (Suc n) C F b e TChar a i h = Inr (i + length (encode_utf8 c) + 2, h')
    \<and> load (mem h') a 4 = le_bytes 4 (unat (hd (encode_utf8 c))) \<and> load (mem h') a 4 \<noteq> le_bytes 4 c"
proof -
  obtain x xs where x: "encode_utf8 c = x # xs" by (cases "encode_utf8 c") (auto simp: encode_utf8_def split: if_splits)
  have raw: "list_all raw_char (encode_utf8 c)"
    using c by (simp add: encode_high_raw)
  have sp: "strspan F b e i = Inr (Suc i, length (encode_utf8 c), i + length (encode_utf8 c) + 2, has_escape (encode_utf8 c))"
    using strspan_view [OF F, of b e i "[]" "encode_utf8 c" r "encode_utf8 c"] v body_val_raw_all [OF raw] by simp
  have "load_u8 b (Suc i) = Inr x" using view_Cons(2) [of b e "Suc i" x "xs @ QUOTE # r"] view_Cons(3) [OF v] x by simp
  moreover have "le_bytes 4 (unat x) \<noteq> le_bytes 4 c"
  proof
    assume "le_bytes 4 (unat x) = le_bytes 4 c"
    moreover have "unat x < 256 ^ 4" using unat_byte_lt [of x] by (rule less_trans) simp
    moreover have "c < 256 ^ 4" using c by (auto simp: scalar_def)
    ultimately have "unat x = c" by (rule le_bytes_inj)
    then have lt: "c < 256" using unat_byte_lt [of x] by simp
    then have "x = word_of_nat (0xC0 + c div 64)" using x c(2) by (auto simp: encode_utf8_def)
    moreover have "0xC0 + c div 64 < 256" using lt by simp
    ultimately have eq: "c = 0xC0 + c div 64" using \<open>unat x = c\<close> by (metis unat_of_nat_byte mod_less)
    then have "0xC0 \<le> c" by linarith
    then have "3 \<le> c div 64" by simp
    then have "c div 64 = 3" using lt by simp
    then show False using eq c(3) by simp
  qed
  ultimately show ?thesis using sp x by (simp add: load_write_same)
qed

theorem char_first_byte_witness:
  "\<exists>h'. parse (Suc 0) node_cells sample_ops (QUOTE # encode_utf8 0xE9 @ QUOTE # [COMMA]) 5 TChar 1024 0 stack_heap
      = Inr (0 + length (encode_utf8 0xE9) + 2, h')
    \<and> load (mem h') 1024 4 = le_bytes 4 (unat (hd (encode_utf8 0xE9))) \<and> load (mem h') 1024 4 \<noteq> le_bytes 4 0xE9"
proof (rule char_first_byte [OF sample_memchr2, where c = "0xE9" and r = "[COMMA]"])
  show "view (QUOTE # encode_utf8 0xE9 @ QUOTE # [COMMA]) 5 0 (QUOTE # encode_utf8 0xE9 @ QUOTE # [COMMA])"
    by (simp add: view_def encode_utf8_def)
qed (simp_all add: scalar_def)

text \<open>A 128-bit integer field is stored through one 8-byte store: the upper eight bytes of the
  destination keep whatever the uninitialised memory held.\<close>

theorem wide_int_half_stored:
  assumes "intval b e i sg = Inr (v, c)" and "t = (if sg then TI 16 else TU 16)"
  shows "\<exists>h'. parse (Suc n) C F b e t a i h = Inr (c, h')
    \<and> load (mem h') (a + 8) 8 = load (mem h) (a + 8) 8"
  using assms by (auto simp: store_sized_def store_width_def load_write_disjoint)

theorem wide_int_half_stored_witness:
  "\<exists>h'. parse (Suc 0) node_cells sample_ops [0x37, COMMA] 2 (if True then TI 16 else TU 16) 1024 0 stack_heap
      = Inr (1, h') \<and> load (mem h') (1024 + 8) 8 = load (mem stack_heap) (1024 + 8) 8"
  by (rule wide_int_half_stored [where sg = True and v = 7])
    (simp_all add: intval_def ws_def peel_ws_def load_u8_def digits.simps Let_def)

text \<open>C39: a required key that is absent goes unnoticed by the compiled parser: on an empty object it
  returns and has written nothing, for every struct without option fields.\<close>

theorem missing_key_unnoticed:
  assumes "\<forall>f \<in> set fs. \<not> is_opt (f_ty f)" and "view b e i (LBRACE # w @ RBRACE # r)" and "list_all ws_byte w"
  shows "returns (\<lambda>n. parse n C F b e (TStruct nm fs) a i h) (i + length w + 2, h)"
proof -
  have "none_default a f h = h" if "f \<in> set fs" for f
    using that assms(1) by (auto simp: none_default_def is_opt_def split: ty.splits)
  then have d: "fold (none_default a) fs h = h" by (induction fs) auto
  have "members_text [] (w @ [RBRACE])" using members_end [of w] assms(3) by simp
  moreover have "view b e (Suc i) ((w @ [RBRACE]) @ r)" using view_Cons(3) [OF assms(2)] by simp
  ultimately obtain c where c: "ws b e (Suc i) = Inr c" "load_u8 b c = Inr RBRACE" "Suc c = Suc i + length (w @ [RBRACE])"
    by (rule members_done)
  have "ws b e i = Inr i" using ws_view [of b e i "[]"] assms(2) by simp
  then have "parse (Suc (Suc n)) C F b e (TStruct nm fs) a i h = Inr (i + length w + 2, h)" for n
    using c d by (simp add: parse_struct_def)
  then have "returns (\<lambda>n. parse (Suc (Suc n)) C F b e (TStruct nm fs) a i h) (i + length w + 2, h)" by simp
  then show ?thesis using returns_Suc [of "\<lambda>n. parse (Suc n) C F b e (TStruct nm fs) a i h"]
      returns_Suc [of "\<lambda>n. parse n C F b e (TStruct nm fs) a i h"] by blast
qed

theorem missing_key_unnoticed_witness:
  "returns (\<lambda>n. parse n node_cells sample_ops [LBRACE, RBRACE] 2
      (TStruct [] [Field (ascii ''val'') 0 (TU 8)]) 1024 0 stack_heap) (0 + length ([] :: bytes) + 2, stack_heap)"
  by (rule missing_key_unnoticed [where r = "[]"]) (simp_all add: is_opt_def view_def)

text \<open>The document \<^verbatim>\<open>{"k":true,"k":false}\<close> and a struct with the field \<^verbatim>\<open>k: bool\<close>.\<close>

definition dup_text :: bytes where
  "dup_text = [LBRACE, QUOTE, 0x6B, QUOTE, COLON, 0x74, 0x72, 0x75, 0x65, COMMA,
     QUOTE, 0x6B, QUOTE, COLON, 0x66, 0x61, 0x6C, 0x73, 0x65, RBRACE]"

definition dup_ty :: ty where
  "dup_ty = TStruct [] [Field [0x6B] 0 TBool]"

definition byte_at :: "addr \<Rightarrow> heap res \<Rightarrow> byte option" where
  "byte_at a r = (case r of Inr h \<Rightarrow> Some (mem h a) | Inl _ \<Rightarrow> None)"

lemma dup_parse: "Json.parse 4 dup_text = Inr (Object [([0x6B], Bool True), ([0x6B], Bool False)])"
  unfolding dup_text_def by code_simp

lemma dup_scan:
  "ws dup_text 20 0 = Inr 0" "ws dup_text 20 (Suc 0) = Inr (Suc 0)" "ws dup_text 20 4 = Inr 4" "ws dup_text 20 5 = Inr 5"
  "ws dup_text 20 10 = Inr 10" "ws dup_text 20 13 = Inr 13" "ws dup_text 20 14 = Inr 14" "ws dup_text 20 19 = Inr 19"
  "strspan sample_ops dup_text 20 (Suc 0) = Inr (2, 1, 4, False)"
  "strspan sample_ops dup_text 20 10 = Inr (11, 1, 13, False)"
  "opt_comma dup_text 20 9 = Inr 10" "opt_comma dup_text 20 19 = Inr 19"
  unfolding dup_text_def by code_simp+

lemma dup_bytes:
  "load_u8 dup_text (Suc 0) = Inr QUOTE" "load_u8 dup_text 5 = Inr 0x74" "load_u8 dup_text 10 = Inr QUOTE"
  "load_u8 dup_text 14 = Inr 0x66" "load_u8 dup_text 19 = Inr RBRACE"
  by (simp_all add: load_u8_def dup_text_def)

lemma dup_dispatch:
  "dispatch [Field [0x6B] 0 TBool] dup_text 20 2 (Suc 0) = Inr (Some 0)"
  "dispatch [Field [0x6B] 0 TBool] dup_text 20 11 (Suc 0) = Inr (Some 0)"
  by (subst dispatch_named; simp add: field_named_def dup_text_def)+

text \<open>On an object with a duplicate key the two backends bind different values: the interpreter takes
  the first member, the compiled parser the last one.\<close>

theorem duplicate_keys_differ:
  "byte_at 1024 (bindR (Json.parse 4 dup_text) (\<lambda>j. run 2 C sample_ops dup_ty 1024 j stack_heap)) = Some 1
   \<and> byte_at 1024 (bindR (Jit.parse 4 C sample_ops dup_text 20 dup_ty 1024 0 stack_heap) (\<lambda>(c, h). Inr h)) = Some 0"
proof
  show "byte_at 1024 (bindR (Json.parse 4 dup_text) (\<lambda>j. run 2 C sample_ops dup_ty 1024 j stack_heap)) = Some 1"
    by (simp add: dup_parse numeral_2_eq_2 dup_ty_def byte_at_def get_def mem_write_bytes)
  have "Jit.parse (Suc (Suc (Suc (Suc 0)))) C sample_ops dup_text 20 dup_ty 1024 0 stack_heap
      = Inr (20, write_bytes 1024 [0] (write_bytes 1024 [1] stack_heap))"
    by (simp add: dup_ty_def parse_struct_def none_default_def dup_scan dup_bytes dup_dispatch)
  moreover have "(4 :: nat) = Suc (Suc (Suc (Suc 0)))" by simp
  ultimately show "byte_at 1024 (bindR (Jit.parse 4 C sample_ops dup_text 20 dup_ty 1024 0 stack_heap)
      (\<lambda>(c, h). Inr h)) = Some 0"
    by (simp only: byte_at_def bindR_Inr prod.case sum.case) (simp add: mem_write_bytes)
qed

end
