(* ===== verification/Jit_Safe.thy ===== *)
theory Jit_Safe
  imports Jit_Vec Within
begin

text \<open>
  The compiled parsers on inputs of every kind. They check little: on a text that is not JSON, or
  not of the type, they run on. What they can never do is write outside the destination and the
  blocks they have allocated: the layout alone, not the input, decides where they write.
\<close>

section \<open>Reading\<close>

text \<open>
  The faults that are left: reads beyond the input, and a vector whose buffer would have to be larger
  than any allocation can be.
\<close>

definition stray :: "fault \<Rightarrow> bool" where
  "stray e \<longleftrightarrow> (\<forall>w. e = Ub w \<longrightarrow>
     w \<in> {''load beyond the input'', ''slice beyond the input'', ''realloc beyond isize::MAX''})"

definition harmless :: "'a res \<Rightarrow> bool" where
  "harmless r \<longleftrightarrow> (\<forall>e. r = Inl e \<longrightarrow> stray e)"

lemma stray_simps [simp]: "stray (Panic w)" "stray OutOfFuel" "stray (Ub ''load beyond the input'')" "stray (Ub ''slice beyond the input'')"
  by (simp_all add: stray_def)

lemma harmless_simps [simp]: "harmless (Inr x)" "harmless (Inl e) \<longleftrightarrow> stray e"
  by (simp_all add: harmless_def)

lemma harmless_bind: "harmless m \<Longrightarrow> (\<And>x. m = Inr x \<Longrightarrow> harmless (f x)) \<Longrightarrow> harmless (bindR m f)"
  by (cases m) auto

lemma harmless_pure: "harmless m \<Longrightarrow> (\<And>x. m = Inr x \<Longrightarrow> within stray hp h W (f x)) \<Longrightarrow> within stray hp h W (bindR m f)"
  by (rule within_pure) (auto simp: harmless_def)

named_theorems scanning

lemma harmless_load [scanning]: "harmless (load_u8 b c)"
  by (simp add: load_u8_def)

lemma harmless_slice [scanning]: "harmless (raw_slice b c n)"
  by (simp add: raw_slice_def)

lemma harmless_idx [scanning]: "harmless (idx xs i)"
  by (simp add: idx_def)

lemma harmless_rt_ws [scanning]: "harmless (rt_ws b e c)"
  by (induction b e c rule: rt_ws.induct) (subst rt_ws.simps, auto intro!: harmless_bind scanning)

lemma harmless_skip_string [scanning]: "harmless (skip_string b e c)"
  by (induction b e c rule: skip_string.induct) (subst skip_string.simps, auto intro!: harmless_bind scanning)

lemma harmless_skip_nested [scanning]: "harmless (skip_nested b e c d q)"
  by (induction b e c d q rule: skip_nested.induct)
    (subst skip_nested.simps, auto simp: depth_inc_def intro!: harmless_bind scanning)

lemma harmless_skip_scalar [scanning]: "harmless (skip_scalar b e c)"
  by (induction b e c rule: skip_scalar.induct) (subst skip_scalar.simps, auto intro!: harmless_bind scanning)

lemma harmless_rt_skip [scanning]: "harmless (rt_skip b e c)"
  unfolding rt_skip_def by (auto intro!: harmless_bind scanning)

lemma harmless_rt_f64v [scanning]: "harmless (rt_f64v F b e c)"
  unfolding rt_f64v_def by (auto intro!: harmless_bind scanning simp: Let_def split: prod.splits)

lemma harmless_unicode_escape [scanning]: "harmless (unicode_escape s i)"
  unfolding unicode_escape_def u4_def Let_def by (auto intro!: harmless_bind scanning)

lemma harmless_unescape_loop [scanning]: "harmless (unescape_loop s i out)"
  by (induction s i out rule: unescape_loop.induct)
    (subst unescape_loop.simps, auto simp: Let_def intro!: harmless_bind scanning)

lemma harmless_peel_ws [scanning]: "harmless (peel_ws b e c)"
  unfolding peel_ws_def by (auto intro!: harmless_bind scanning)

lemma harmless_ws [scanning]: "harmless (ws b e c)"
  unfolding ws_def rt_wsskip_def by (auto intro!: harmless_bind scanning split: prod.splits)

lemma harmless_digits [scanning]: "harmless (digits b e c v)"
  by (induction b e c v rule: digits.induct) (subst digits.simps, auto simp: Let_def intro!: harmless_bind scanning)

lemma harmless_intval [scanning]: "harmless (intval b e c sg)"
  unfolding intval_def Let_def by (auto intro!: harmless_bind scanning split: prod.splits)

lemma harmless_opt_comma [scanning]: "harmless (opt_comma b e c)"
  unfolding opt_comma_def by (auto intro!: harmless_bind scanning)

lemma harmless_strscan_loop: "memchr2_ok F \<Longrightarrow> harmless (strscan_loop F b e s i esc)"
proof (induction F b e s i esc rule: strscan_loop.induct)
  case (1 F b e s i esc)
  have rest: "harmless (if v = QUOTE then Inr (i + off - s, esc, Suc (i + off))
      else if e \<le> i then Inl (Ub ''memchr2 found a byte in an empty slice'')
      else strscan_loop F b e s (min (i + off + 2) e) True)"
    if "raw_slice b i (e - i) = Inr hay" "memchr2 F QUOTE BACKSLASH hay = Some off" "load_u8 b (i + off) = Inr v" for hay off v
  proof (cases "e \<le> i")
    case True
    then have "hay = []" using that(1) by (simp add: raw_slice_def)
    then show ?thesis using that(2) 1(2) by (simp add: memchr2_ok_def)
  next
    case False
    then show ?thesis using 1(1) [OF that(1,2) refl that(3) _ False 1(2)] by simp
  qed
  show ?case
  proof (subst strscan_loop.simps, rule harmless_bind [OF harmless_slice])
    fix hay assume hay: "raw_slice b i (e - i) = Inr hay"
    show "harmless (case memchr2 F QUOTE BACKSLASH hay of
        None \<Rightarrow> if s \<le> e then Inr (e - s, esc, e) else Inl (Panic ''attempt to subtract with overflow'')
      | Some off \<Rightarrow> let p = i + off in bindR (load_u8 b p) (\<lambda>v.
          if v = QUOTE then Inr (p - s, esc, Suc p)
          else if e \<le> i then Inl (Ub ''memchr2 found a byte in an empty slice'')
          else strscan_loop F b e s (min (p + 2) e) True))"
    proof (cases "memchr2 F QUOTE BACKSLASH hay")
      case (Some off)
      show ?thesis unfolding Some option.case Let_def
        by (rule harmless_bind [OF harmless_load]) (rule rest [OF hay Some])
    qed simp
  qed
qed

lemma harmless_strspan: "memchr2_ok F \<Longrightarrow> harmless (strspan F b e c)"
  unfolding strspan_def rt_strscan_def by (auto intro!: harmless_bind scanning harmless_strscan_loop split: prod.splits)

text \<open>A key selects one of the fields.\<close>

lemma harmless_keyeq [scanning]: "harmless (keyeq b kp kl nm)"
proof -
  have "harmless (fold_res (\<lambda>i acc. bindR (load_u8 b (kp + i)) (\<lambda>v. Inr (acc \<and> v = nm ! i))) ks acc)" for ks acc
    by (induction ks arbitrary: acc) (auto intro!: harmless_bind scanning)
  then show ?thesis by (simp add: keyeq_def)
qed

lemma harmless_chain: "\<forall>(i, f) \<in> set fs. harmless (cond f) \<Longrightarrow> harmless (chain cond fs)"
  by (induction fs) (auto intro!: harmless_bind)

lemma chain_mem: "chain cond fs = Inr (Some i) \<Longrightarrow> i \<in> fst ` set fs"
  by (induction fs) (auto simp: bindR_eq_Inr split: if_splits)

lemma harmless_dispatch [scanning]: "harmless (dispatch fs b e kp kl)"
proof -
  have "harmless (word_eq b kp kl w nm)" for w nm by (simp add: word_eq_def harmless_keyeq)
  then show ?thesis
    unfolding dispatch_def by (auto intro!: harmless_bind harmless_chain scanning simp: load_word_def)
qed

lemma dispatch_index: "dispatch fs b e kp kl = Inr (Some i) \<Longrightarrow> i < length fs"
  unfolding dispatch_def bucket_def
  by (auto simp: bindR_eq_Inr in_set_enumerate_eq split: if_splits dest!: chain_mem)

section \<open>Writing\<close>

abbreviation wr :: "heap \<Rightarrow> addr set \<Rightarrow> (nat \<times> heap) res \<Rightarrow> bool" where
  "wr \<equiv> within stray snd"

lemma wr_done: "extends h h' W B \<Longrightarrow> wr h W (Inr (c, h'))"
  by (auto simp: within_Inr)

lemma wr_same: "heap_ok h \<Longrightarrow> wr h W (Inr (c, h))"
  by (rule wr_done [OF extends_refl])

lemma wr_write: "heap_ok h \<Longrightarrow> {a..<a + length bs} \<subseteq> W \<Longrightarrow> wr h W (Inr (c, write_bytes a bs h))"
  by (rule wr_done [OF extends_write])

lemma store_width_le: "int_width n \<Longrightarrow> store_width n \<le> n"
  by (auto simp: int_width_def store_width_def)

text \<open>A string goes to a block of its own.\<close>

lemma cp_within:
  "heap_ok h \<Longrightarrow> off + w \<le> len \<Longrightarrow> within stray (\<lambda>h. h) h {dst..<dst + len} (cp b sp dst w off h)"
  by (auto simp: cp_def within_Inr intro!: exI extends_write)

lemma copy_words_within:
  "heap_ok h \<Longrightarrow> within stray (\<lambda>h. h) h {dst..<dst + len} (copy_words b sp dst len i h)"
proof (induction b sp dst len i h rule: copy_words.induct)
  case (1 b sp dst len i h)
  show ?case
  proof (cases "i + 8 \<le> len")
    case True
    have "within stray (\<lambda>h. h) h {dst..<dst + len} (bindR (cp b sp dst 8 i h) (\<lambda>h. copy_words b sp dst len (i + 8) h))"
      by (rule within_bind [OF cp_within [OF 1(2) True]]) (use 1(1) [OF True] extends_ok in blast)+
    then show ?thesis using True by (subst copy_words.simps) simp
  qed (use 1(2) in \<open>auto simp: copy_words.simps within_Inr intro: extends_refl\<close>)
qed

lemma emit_copy_within:
  assumes "heap_ok h"
  shows "within stray (\<lambda>h. h) h {dst..<dst + len} (emit_copy b dst sp len h)"
proof -
  have two: "within stray (\<lambda>h. h) h {dst..<dst + len} (bindR m (\<lambda>h. cp b sp dst w (len - w) h))"
    if "within stray (\<lambda>h. h) h {dst..<dst + len} m" "w \<le> len" for m w
    by (rule within_bind [OF that(1), where W' = "{dst..<dst + len}"]) (use that(2) in \<open>auto intro!: cp_within dest: extends_ok\<close>)
  show ?thesis unfolding emit_copy_def
    using two copy_words_within [OF assms] cp_within [OF assms] extends_refl [OF assms, of "{}"]
    by (auto simp: within_Inr [of _ _ _ _ h])
qed

lemma build_str_within:
  assumes ok: "heap_ok h"
  shows "within stray (\<lambda>(buf, len, h). h) h {} (build_str b sp sl esc h)"
proof -
  have new: "within stray snd h {} (rt_alloc n h) \<and> (\<forall>p h1. rt_alloc n h = Inr (p, h1) \<longrightarrow> 0 < n \<longrightarrow> brk h \<le> p)" for n
  proof (cases "n < 2 ^ 63")
    case True
    then obtain p h1 where "rt_alloc n h = Inr (p, h1)" "buffer n 1 h p h1"
      using jit_strings.get_buffer [OF ok refl, of n] by auto
    then show ?thesis by (auto simp: buffer_def within_Inr)
  next
    case False
    then show ?thesis by (simp add: rt_alloc_def new_block_def layout_def)
  qed
  have fill: "within stray (\<lambda>(buf, len, h). h) h {} (bindR (rt_alloc n h) f)"
    if "\<And>p h1. heap_ok h1 \<Longrightarrow> within stray (\<lambda>(buf, len, h). h) h1 {p..<p + n} (f (p, h1))" for n f
  proof (rule within_bind)
    show "within stray snd h {} (rt_alloc n h)" using new by blast
    fix ph B assume ph: "rt_alloc n h = Inr ph" "extends h (snd ph) {} B"
    have "within stray (\<lambda>(buf, len, h). h) (snd ph) {fst ph..<fst ph + n} (f ph)"
      using that [OF extends_ok [OF ph(2)], of "fst ph"] by simp
    then show "within stray (\<lambda>(buf, len, h). h) (snd ph) {x. brk h \<le> x} (f ph)"
      by (rule within_mono) (use new [of n] ph(1) in \<open>cases ph, force\<close>)
  qed auto
  show ?thesis
  proof (cases esc)
    case True
    have "within stray (\<lambda>(buf, len, h). h) h {} (bindR (rt_alloc (length out) h) (\<lambda>(p, h). Inr (p, length out, write_bytes p out h)))" for out
      by (rule fill) (auto simp: within_Inr intro!: exI extends_write)
    then have one: "within stray (\<lambda>(buf, len, h). h) h {} (bindR (if out = [] then Inr (1, h) else new_block (length out) 1 h)
        (\<lambda>(p, h). Inr (p, length out, write_bytes p out h)))" for out
      by (simp add: rt_alloc_def)
    have "within stray (\<lambda>(buf, len, h). h) h {} (rt_unescape b sp sl h)"
      unfolding rt_unescape_def by (rule harmless_pure [OF harmless_slice], rule harmless_pure [OF harmless_unescape_loop], rule one)
    then show ?thesis using True by (simp add: build_str_def)
  next
    case False
    have "within stray (\<lambda>(buf, len, h). h) h {} (bindR (rt_alloc sl h) (\<lambda>(buf, h). bindR (emit_copy b buf sp sl h) (\<lambda>h. Inr (buf, sl, h))))"
    proof (rule fill)
      fix p h1 assume h1: "heap_ok h1"
      show "within stray (\<lambda>(buf, len, h). h) h1 {p..<p + sl} (case (p, h1) of (buf, h) \<Rightarrow> bindR (emit_copy b buf sp sl h) (\<lambda>h. Inr (buf, sl, h)))"
        unfolding prod.case
        by (rule within_bind [OF emit_copy_within [OF h1], where W' = "{}"]) (auto simp: within_Inr intro!: exI extends_refl dest: extends_ok)
    qed
    then show ?thesis using False by (simp add: build_str_def)
  qed
qed

section \<open>Structs and tuples\<close>

text \<open>What an element parser owes: on every input it writes into its destination only.\<close>

definition tame :: "(cell_id \<Rightarrow> shape) \<Rightarrow> ty \<Rightarrow> parser \<Rightarrow> bool" where
  "tame S t pv \<longleftrightarrow> (\<forall>a c h. heap_ok h \<longrightarrow> inside S t a h \<longrightarrow> wr h (dst_bytes S t a) (pv a c h))"

lemma tameD: "tame S t pv \<Longrightarrow> heap_ok h \<Longrightarrow> inside S t a h \<Longrightarrow> wr h (dst_bytes S t a) (pv a c h)"
  by (simp add: tame_def)

text \<open>A field parser writes into the struct.\<close>

lemma tame_field:
  assumes "tame S (f_ty f) pv" and f: "f \<in> set fs" and "inside S (TStruct nm fs) a h" and "heap_ok h'" "brk h \<le> brk h'"
  shows "wr h' (dst_bytes S (TStruct nm fs) a) (pv (a + f_offset f) c h')"
proof (rule within_mono [OF tameD [OF assms(1,4)]])
  show "inside S (f_ty f) (a + f_offset f) h'" by (rule inside_mono [OF inside_field [OF assms(3) f] assms(5)])
  show "x \<in> dst_bytes S (TStruct nm fs) a" if "x \<in> dst_bytes S (f_ty f) (a + f_offset f)" for x
    using span_field [OF f, of S] that by (auto simp: dst_bytes_def)
qed

lemma opt_default_extends:
  assumes wf: "wf_ty S (TOpt disc_off ds nd sd payload_off sz t)" and ok: "heap_ok h" and v: "v = nd \<or> sd = Some v"
  shows "extends h (store_imm a disc_off v ds (memset0 a sz h)) {a..<a + sz} {#}"
proof -
  have "store_width ds \<le> ds" "disc_off + ds \<le> sz" using wf store_width_le by auto
  then show ?thesis unfolding store_imm_def memset0_eq using ok
    by (intro extends_then_write extends_refl) auto
qed

lemma default_extends:
  assumes "wf_ty S (f_ty f)" and "heap_ok h"
  shows "extends h (none_default a f h) {a + f_offset f..<a + f_offset f + span S (f_ty f)} {#}"
proof (cases "f_ty f")
  case (TOpt disc_off ds nd sd payload_off sz t)
  then show ?thesis
    using opt_default_extends [of S disc_off ds nd sd payload_off sz t h nd "a + f_offset f"] assms by (simp add: none_default_def)
qed (use extends_refl [OF assms(2)] in \<open>simp_all add: none_default_def\<close>)

lemma none_defaults_extends:
  "\<forall>f \<in> set fs. wf_ty S (f_ty f) \<and> {a + f_offset f..<a + f_offset f + span S (f_ty f)} \<subseteq> W \<Longrightarrow> heap_ok h \<Longrightarrow>
   extends h (fold (none_default a) fs h) W {#}"
proof (induction fs arbitrary: h)
  case (Cons f fs)
  have e: "extends h (none_default a f h) W {#}"
    by (rule extends_mono [OF default_extends [of S f]]) (use Cons.prems in auto)
  have "extends (none_default a f h) (fold (none_default a) fs (none_default a f h)) W {#}"
    using Cons.IH extends_ok [OF e] Cons.prems(1) by simp
  from extends_trans [OF e this, of W] show ?case by simp
qed (simp add: extends_refl)

lemma struct_loop_within:
  assumes pv: "\<And>f. f \<in> set fs \<Longrightarrow> tame S (f_ty f) (pv (f_ty f))" and F: "memchr2_ok F"
    and dst: "inside S (TStruct nm fs) a h0"
  shows "heap_ok h \<Longrightarrow> brk h0 \<le> brk h \<Longrightarrow> wr h (dst_bytes S (TStruct nm fs) a) (struct_loop n pv F b e fs a hc h)"
proof (induction n arbitrary: hc h)
  case (Suc n)
  let ?W = "dst_bytes S (TStruct nm fs) a"
  have field: "wr h ?W (case sel of Some i \<Rightarrow> pv (f_ty (fs ! i)) (a + f_offset (fs ! i)) c h
      | None \<Rightarrow> bindR (rt_skip b e c) (\<lambda>c. Inr (c, h)))" if "dispatch fs b e kp kl = Inr sel" for kp kl sel c
  proof (cases sel)
    case None
    then show ?thesis using extends_refl [OF Suc.prems(1)] by (auto intro!: harmless_pure scanning wr_done)
  next
    case (Some i)
    then have "fs ! i \<in> set fs" using dispatch_index that by simp
    then show ?thesis using tame_field [OF pv _ dst Suc.prems] Some by simp
  qed
  have cont: "wr h1 ?W (bindR (opt_comma b e ac) (\<lambda>ac. struct_loop n pv F b e fs a ac h1))" if "extends h h1 ?W B" for h1 B ac
    using Suc.IH extends_ok [OF that] extends_brk [OF that] Suc.prems(2) by (auto intro!: harmless_pure scanning)
  have step: "wr h ?W (bindR (case sel of Some i \<Rightarrow> pv (f_ty (fs ! i)) (a + f_offset (fs ! i)) c h
      | None \<Rightarrow> bindR (rt_skip b e c) (\<lambda>c. Inr (c, h))) (\<lambda>(ac, h). bindR (opt_comma b e ac) (\<lambda>ac. struct_loop n pv F b e fs a ac h)))"
    if "dispatch fs b e kp kl = Inr sel" for kp kl sel c
    by (rule within_bind [OF field [OF that]]) (auto intro: cont)
  show ?case unfolding struct_loop.simps Let_def
    using extends_refl [OF Suc.prems(1)]
    by (auto intro!: scanning [THEN harmless_pure] harmless_strspan [OF F, THEN harmless_pure] wr_done step)
qed simp

lemma tame_struct:
  assumes pv: "\<And>f. f \<in> set fs \<Longrightarrow> tame S (f_ty f) (pv (f_ty f))" and F: "memchr2_ok F" and wf: "wf_ty S (TStruct nm fs)"
  shows "tame S (TStruct nm fs) (parse_struct n pv F b e fs)"
  unfolding tame_def parse_struct_def
proof (intro allI impI, rule harmless_pure [OF harmless_ws])
  fix a c h cur assume ok: "heap_ok h" and dst: "inside S (TStruct nm fs) a h"
  let ?W = "dst_bytes S (TStruct nm fs) a"
  have "{a + f_offset f..<a + f_offset f + span S (f_ty f)} \<subseteq> ?W" if "f \<in> set fs" for f
    using span_field [OF that, of S] by (auto simp: dst_bytes_def)
  then have e: "extends h (fold (none_default a) fs h) ?W {#}"
    using wf by (intro none_defaults_extends [OF _ ok]) auto
  show "wr h ?W (struct_loop n pv F b e fs a (cur + 1) (fold (none_default a) fs h))"
    by (rule within_weaken [OF e struct_loop_within [OF pv F dst extends_ok [OF e] extends_brk [OF e]]]) auto
qed

lemma tame_tuple:
  assumes pv: "\<And>f. f \<in> set fs \<Longrightarrow> tame S (f_ty f) (pv (f_ty f))"
  shows "tame S (TTuple fs) (parse_tuple pv b e fs)"
  unfolding tame_def parse_tuple_def
proof (intro allI impI, rule harmless_pure [OF harmless_ws])
  fix a c h cur assume ok: "heap_ok h" and dst: "inside S (TTuple fs) a h"
  let ?W = "dst_bytes S (TTuple fs) a"
  let ?step = "\<lambda>f (c, h). bindR (pv (f_ty f) (a + f_offset f) c h) (\<lambda>(c, h). bindR (opt_comma b e c) (\<lambda>c. Inr (c, h)))"
  have W: "?W = dst_bytes S (TStruct [] fs) a" by (simp add: dst_bytes_def)
  have one: "wr (snd s) ?W (?step f s)" if f: "f \<in> set fs" and s: "heap_ok (snd s)" "brk h \<le> brk (snd s)" for f s
  proof -
    have "inside S (TStruct [] fs) a h" using dst inside_tuple by blast
    then have "wr (snd s) ?W (pv (f_ty f) (a + f_offset f) (fst s) (snd s))"
      unfolding W by (rule tame_field [OF pv [OF f] f _ s])
    then have "wr (snd s) ?W (bindR (pv (f_ty f) (a + f_offset f) (fst s) (snd s)) (\<lambda>(c, h). bindR (opt_comma b e c) (\<lambda>c. Inr (c, h))))"
      by (rule within_bind [where W' = "{}"])
        (auto intro!: scanning [THEN harmless_pure] wr_same dest: extends_ok)
    then show ?thesis by (cases s) simp
  qed
  have "wr (snd (cur + 1, h)) ?W (fold_res ?step fs (cur + 1, h))"
    by (rule within_fold) (use ok one in auto)
  then have "wr h ?W (fold_res ?step fs (cur + 1, h))" by simp
  then show "wr h ?W (bindR (fold_res ?step fs (cur + 1, h)) (\<lambda>(c, h). bindR (ws b e c) (\<lambda>c. Inr (c + 1, h))))"
    by (rule within_bind [where W' = "{}"])
      (auto intro!: scanning [THEN harmless_pure] wr_same dest: extends_ok)
qed

section \<open>Vectors\<close>

text \<open>
  Between elements the buffer is a live block of the given capacity, allocated since \<open>h0\<close>, like
  everything else that has changed.
\<close>

definition vec_held :: "nat \<Rightarrow> nat \<Rightarrow> heap \<Rightarrow> addr \<Rightarrow> nat \<Rightarrow> nat \<Rightarrow> heap \<Rightarrow> bool" where
  "vec_held esz al h0 base cap len h \<longleftrightarrow> len \<le> cap \<and> cap * esz + (al - 1) < 2 ^ 63
     \<and> (0 < cap \<longrightarrow> brk h0 \<le> base \<and> base + cap * esz \<le> brk h)
     \<and> (\<exists>B. extends h0 h {} (block_of base (cap * esz) al + B))"

text \<open>The capacity after growing, as the emitted code computes it, does not wrap.\<close>

lemma grow_capacity:
  assumes "0 < esz" and "4 * esz + (al - 1) < 2 ^ 63" and "cap * esz + (al - 1) < 2 ^ 63"
  defines "nc \<equiv> if cap = 0 then 4 else cap * 2"
  shows "grow cap esz al base cap h = bindR (rt_realloc base (cap * esz) (nc * esz) al h) (\<lambda>(base, h). Inr (base, nc, h))"
    and "cap < nc" and "cap * esz \<le> nc * esz" and "0 < nc * esz"
proof -
  show nc: "cap < nc" "cap * esz \<le> nc * esz" "0 < nc * esz" using assms(1) by (auto simp: nc_def)
  have "(2 :: nat) ^ 64 = 2 * 2 ^ 63" by simp
  then have "nc * esz < 2 ^ 64" using assms(2,3) by (auto simp: nc_def)
  moreover have "nc \<le> nc * esz" using assms(1) by simp
  ultimately have "nc < 2 ^ 64" "cap * esz < 2 ^ 64" "nc * esz < 2 ^ 64" using nc by linarith+
  then show "grow cap esz al base cap h = bindR (rt_realloc base (cap * esz) (nc * esz) al h) (\<lambda>(base, h). Inr (base, nc, h))"
    by (auto simp: grow_def imul_def nc_def Let_def)
qed

lemma grow_held:
  assumes st: "vec_held esz al h0 base cap len h" and al: "is_pow2 al" and esz: "0 < esz" "4 * esz + (al - 1) < 2 ^ 63"
  shows "case grow len esz al base cap h of Inl e \<Rightarrow> stray e
    | Inr (base', cap', h') \<Rightarrow> vec_held esz al h0 base' cap' len h' \<and> len < cap'"
proof (cases "len = cap")
  case True
  obtain B where B: "extends h0 h {} (block_of base (cap * esz) al + B)" using st by (auto simp: vec_held_def)
  have ok: "heap_ok h" using B by (rule extends_ok)
  have cap: "cap * esz + (al - 1) < 2 ^ 63" using st by (simp add: vec_held_def)
  have almax: "max al 1 = al" using is_pow2_pos [OF al] by simp
  define nc where "nc = (if cap = 0 then 4 else cap * 2)"
  note g = grow_capacity [OF esz cap, folded nc_def]
  have held: "vec_held esz al h0 q nc len h'"
    if "extends h0 h' {} (block_of q (nc * esz) al + B)" "brk h \<le> q" "q + nc * esz \<le> brk h'" "nc * esz + (al - 1) < 2 ^ 63" for q h'
    using that extends_brk [OF B] True g(2) by (auto simp: vec_held_def)
  show ?thesis
  proof (cases "cap = 0")
    case zero: True
    then have new: "rt_realloc base (cap * esz) (nc * esz) al h = new_block (nc * esz) al h" "nc * esz + (al - 1) < 2 ^ 63"
      using esz almax by (simp_all add: rt_realloc_def Let_def nc_def)
    obtain q h' where q: "new_block (nc * esz) al h = Inr (q, h')" and b: "buffer (nc * esz) al h q h'"
      using new_block_ok [OF ok al _ new(2)] g(4) by auto
    have "extends h0 h {} B" using B zero by (simp add: block_of_def)
    then have "extends h0 h' {} (B + block_of q (nc * esz) al)"
      by (rule extends_trans) (use b in \<open>auto simp: buffer_def\<close>)
    then show ?thesis using g(1,2,4) q new held [of h' q] b True by (simp add: buffer_def add.commute)
  next
    case False
    have blk: "block_of base (cap * esz) al = {#(base, cap * esz, al)#}" using False esz by (simp add: block_of_def)
    have "rt_realloc base (cap * esz) (nc * esz) al h = realloc base (cap * esz) al (nc * esz) h"
      using False esz almax cap al by (simp add: rt_realloc_def Let_def layout_def)
    moreover have "(base, cap * esz, al) \<in># live h" using B blk by (simp add: extends_def)
    moreover have "stray (Ub ''realloc beyond isize::MAX'')" by (simp add: stray_def)
    moreover have "vec_held esz al h0 q nc len h'" if r: "realloc base (cap * esz) al (nc * esz) h = Inr (q, h')" for q h'
    proof (rule held)
      show "extends h0 h' {} (block_of q (nc * esz) al + B)" using extends_realloc [OF _ r al g(3)] B blk by simp
      show "brk h \<le> q" "q + nc * esz \<le> brk h'" using realloc_facts [OF r ok al g(3)] by simp_all
      show "nc * esz + (al - 1) < 2 ^ 63" using r by (auto simp: realloc_def split: if_splits)
    qed
    ultimately show ?thesis using g(1,2,4) True
      by (cases "realloc base (cap * esz) al (nc * esz) h") (auto simp: realloc_def Let_def split: if_splits)
  qed
next
  case False
  then show ?thesis using st by (simp add: grow_def vec_held_def)
qed

lemma vec_loop_within:
  assumes pv: "tame S t pv" and al: "is_pow2 al" and esz: "0 < esz" "span S t \<le> esz" "4 * esz + (al - 1) < 2 ^ 63"
  shows "vec_held esz al h0 base cap len h \<Longrightarrow>
    within stray (\<lambda>(c, base, cap, len, h). h) h0 {} (vec_loop n pv b e esz al hc base cap len h)"
proof (induction n arbitrary: hc base cap len h)
  case (Suc n)
  have elem: "within stray (\<lambda>(c, base, cap, len, h). h) h0 {} (bindR (pv (q + imul len esz) c h1) (\<lambda>(c, h).
      bindR (opt_comma b e c) (\<lambda>c. vec_loop n pv b e esz al c q cap' (len + 1) h)))"
    if st: "vec_held esz al h0 q cap' len h1" and room: "len < cap'" for q cap' h1 c
  proof -
    obtain B where B: "extends h0 h1 {} (block_of q (cap' * esz) al + B)" using st by (auto simp: vec_held_def)
    have "Suc len * esz \<le> cap' * esz" using room by (intro mult_le_mono1) simp
    then have slot: "len * esz + esz \<le> cap' * esz" by simp
    have buf: "brk h0 \<le> q" "q + cap' * esz \<le> brk h1" "cap' * esz < 2 ^ 63" using st room by (auto simp: vec_held_def)
    then have im: "imul len esz = len * esz" using slot by (simp add: imul_def)
    let ?W = "dst_bytes S t (q + len * esz)"
    have new: "x \<notin> ?W" if "x < brk h0" for x using that buf(1) by (auto simp: dst_bytes_def)
    have "inside S t (q + len * esz) h1" using buf(2) slot esz(2) by (auto simp: inside_def dst_bytes_def)
    then have w: "wr h1 ?W (pv (q + len * esz) c h1)" by (rule tameD [OF pv extends_ok [OF B]])
    show ?thesis unfolding im
    proof (rule within_pure)
      show "stray err" if "pv (q + len * esz) c h1 = Inl err" for err using w that by simp
      fix r assume r: "pv (q + len * esz) c h1 = Inr r"
      then obtain B' where B': "extends h1 (snd r) ?W B'" using w by (auto simp: within_Inr)
      have "extends h0 (snd r) {} (block_of q (cap' * esz) al + B + B')"
        by (rule extends_trans [OF B B']) (use new in blast)
      then have "vec_held esz al h0 q cap' (len + 1) (snd r)"
        using st room extends_brk [OF B'] by (fastforce simp: vec_held_def add.assoc)
      then show "within stray (\<lambda>(c, base, cap, len, h). h) h0 {} (case r of (c, h) \<Rightarrow>
          bindR (opt_comma b e c) (\<lambda>c. vec_loop n pv b e esz al c q cap' (len + 1) h))"
        by (cases r) (auto intro!: scanning [THEN harmless_pure] Suc.IH)
    qed
  qed
  have "within stray (\<lambda>(c, base, cap, len, h). h) h0 {} (bindR (grow len esz al base cap h) (\<lambda>(base, cap, h).
      bindR (pv (base + imul len esz) c h) (\<lambda>(c, h). bindR (opt_comma b e c) (\<lambda>c. vec_loop n pv b e esz al c base cap (len + 1) h))))" for c
    using grow_held [OF Suc.prems al esz(1,3)] elem
    by (cases "grow len esz al base cap h") auto
  moreover have "\<exists>B. extends h0 h {} B" using Suc.prems by (auto simp: vec_held_def)
  ultimately show ?case unfolding vec_loop.simps
    by (auto intro!: scanning [THEN harmless_pure] simp: within_Inr)
qed simp

lemma tame_vec:
  assumes pv: "tame S t pv" and wf: "wf_ty S (TVec t esz al q)" and small: "4 * esz + (max al 1 - 1) < 2 ^ 63"
  shows "tame S (TVec t esz al q) (parse_vec n pv b e esz al q)"
  unfolding tame_def parse_vec_def Let_def
proof (intro allI impI, rule harmless_pure [OF harmless_ws])
  fix a c h cur assume ok: "heap_ok h"
  let ?al = "max al 1"
  have al: "is_pow2 ?al" "0 < esz" "span S t \<le> esz" using wf by (simp_all add: max.commute)
  have "esz * 0 + (?al - 1) < 2 ^ 63" using small by linarith
  then have "vec_held esz ?al h ?al 0 0 h"
    using extends_refl [OF ok] by (auto simp: vec_held_def block_of_def intro!: exI [of _ "{#}"])
  then have loop: "within stray (\<lambda>(c, base, cap, len, h). h) h {} (vec_loop n pv b e esz ?al (cur + 1) ?al 0 0 h)"
    by (rule vec_loop_within [OF pv al small])
  have "wr h1 (dst_bytes S (TVec t esz al q) a) (Inr (fc, store_at a (len_off q) len (store_at a (cap_off q) cap (store_at a (ptr_off q) p h1))))"
    if "heap_ok h1" for fc p cap len h1
    using extends_write_seq [OF that, of a q p cap len]
    by (intro wr_done) (simp add: store_at_def write_seq_def dst_bytes_def)
  then have fin: "wr h1 (dst_bytes S (TVec t esz al q) a) (bindR (ws b e fc) (\<lambda>fc. Inr (Suc fc,
      store_at a (len_off q) len (store_at a (cap_off q) cap (store_at a (ptr_off q) p h1)))))" if "heap_ok h1" for fc p cap len h1
    using that by (auto intro!: scanning [THEN harmless_pure])
  show "wr h (dst_bytes S (TVec t esz al q) a) (bindR (vec_loop n pv b e esz ?al (cur + 1) ?al 0 0 h) (\<lambda>(fc, base, cap, len, h).
      bindR (ws b e fc) (\<lambda>fc. Inr (fc + 1, store_at a (len_off q) len (store_at a (cap_off q) cap (store_at a (ptr_off q) base h))))))"
    by (rule within_bind [OF loop]) (auto intro!: fin dest: extends_ok)
qed

section \<open>Boxes, options and leaves\<close>

lemma tame_box:
  assumes pv: "tame S t pv" and wf: "wf_ty S (TBoxed t sz al)"
  shows "tame S (TBoxed t sz al) (\<lambda>a c h. bindR (rt_box_alloc sz al h) (\<lambda>(p, h). bindR (pv p c h) (\<lambda>(c, h). Inr (c, write_word a p h))))"
  unfolding tame_def
proof (intro allI impI)
  fix a c h assume ok: "heap_ok h"
  have al: "is_pow2 (max al 1)" "sz + (max al 1 - 1) < 2 ^ 63" "span S t \<le> sz" using wf by (simp_all add: max.commute)
  have "rt_box_alloc sz al h = rt_box_alloc sz (max al 1) h" by (simp add: rt_box_alloc_def)
  then obtain p h1 where get: "rt_box_alloc sz al h = Inr (p, h1)" and b: "buffer sz (max al 1) h p h1"
    using jit_boxes.get_buffer [OF ok al(1,2)] by auto
  have e: "extends h h1 {} (block_of p sz (max al 1))" using b by (simp add: buffer_def)
  have new: "x \<notin> dst_bytes S t p" if "x < brk h" for x using b al(3) that by (auto simp: buffer_def dst_bytes_def)
  have "inside S t p h1" using b al(3) by (auto simp: inside_def dst_bytes_def buffer_def)
  then have "wr h1 (dst_bytes S t p) (pv p c h1)" by (rule tameD [OF pv extends_ok [OF e]])
  then have "wr h1 (dst_bytes S t p \<union> {a..<a + 8}) (bindR (pv p c h1) (\<lambda>(c, h). Inr (c, write_word a p h)))"
    by (rule within_bind [where W' = "{a..<a + 8}"]) (auto simp: write_word_def intro!: wr_write dest: extends_ok)
  then have "wr h {a..<a + 8} (bindR (pv p c h1) (\<lambda>(c, h). Inr (c, write_word a p h)))"
    by (rule within_weaken [OF e]) (use new in auto)
  then show "wr h (dst_bytes S (TBoxed t sz al) a) (bindR (rt_box_alloc sz al h) (\<lambda>(p, h). bindR (pv p c h) (\<lambda>(c, h). Inr (c, write_word a p h))))"
    using get by (simp add: dst_bytes_def)
qed

lemma tame_opt:
  assumes pv: "tame S t pv" and wf: "wf_ty S (TOpt disc_off ds nd sd payload_off sz t)"
  shows "tame S (TOpt disc_off ds nd sd payload_off sz t) (\<lambda>a cur h. bindR (ws b e cur) (\<lambda>c. bindR (load_u8 b c) (\<lambda>v.
      if v = 0x6E then Inr (c + 4, store_imm a disc_off nd ds (memset0 a sz h))
      else bindR (pv (a + payload_off) c h) (\<lambda>(c, h). Inr (c, case sd of Some d \<Rightarrow> store_imm a disc_off d ds h | None \<Rightarrow> h)))))"
  unfolding tame_def
proof (intro allI impI)
  fix a cur h assume ok: "heap_ok h" and dst: "inside S (TOpt disc_off ds nd sd payload_off sz t) a h"
  let ?W = "{a..<a + sz}"
  have tag: "store_width ds \<le> ds" "disc_off + ds \<le> sz" "payload_off + span S t \<le> sz" using wf store_width_le by auto
  have "inside S t (a + payload_off) h" using dst wf by (auto intro: inside_payload)
  then have pay: "wr h ?W (pv (a + payload_off) c h)" for c
    by (rule within_mono [OF tameD [OF pv ok]]) (use tag in \<open>auto simp: dst_bytes_def\<close>)
  have some: "wr h ?W (bindR (pv (a + payload_off) c h) (\<lambda>(c, h). Inr (c, case sd of Some d \<Rightarrow> store_imm a disc_off d ds h | None \<Rightarrow> h)))" for c
    by (rule within_bind [OF pay, where W' = ?W])
      (use tag in \<open>auto simp: store_imm_def split: option.split intro!: wr_same wr_write dest: extends_ok\<close>)
  have "extends h (store_imm a disc_off nd ds (memset0 a sz h)) ?W {#}"
    by (rule opt_default_extends [OF wf ok]) simp
  then show "wr h (dst_bytes S (TOpt disc_off ds nd sd payload_off sz t) a) (bindR (ws b e cur) (\<lambda>c. bindR (load_u8 b c) (\<lambda>v.
      if v = 0x6E then Inr (c + 4, store_imm a disc_off nd ds (memset0 a sz h))
      else bindR (pv (a + payload_off) c h) (\<lambda>(c, h). Inr (c, case sd of Some d \<Rightarrow> store_imm a disc_off d ds h | None \<Rightarrow> h)))))"
    by (auto simp: dst_bytes_def intro!: scanning [THEN harmless_pure] wr_done some)
qed

lemma tame_leaf:
  assumes "\<And>c h. heap_ok h \<Longrightarrow> harmless (rd c h) \<and> (\<forall>v c'. rd c h = Inr (v, c') \<longrightarrow> length (enc v) \<le> span S t)"
  shows "tame S t (\<lambda>a c h. bindR (rd c h) (\<lambda>(v, c). Inr (c, write_bytes a (enc v) h)))"
  unfolding tame_def dst_bytes_def using assms by (force intro!: harmless_pure wr_write)

lemma tame_string:
  assumes F: "memchr2_ok F" and w: "\<And>a p l h. heap_ok h \<Longrightarrow> \<exists>B. extends h (st a p l h) (dst_bytes S t a) B"
  shows "tame S t (\<lambda>a c h. bindR (strspan F b e c) (\<lambda>(sp, sl, c, esc). bindR (build_str b sp sl esc h) (\<lambda>(p, l, h). Inr (c, st a p l h))))"
  unfolding tame_def
proof (intro allI impI)
  fix a c h assume ok: "heap_ok h"
  have "wr h (dst_bytes S t a) (bindR (build_str b sp sl esc h) (\<lambda>(p, l, h). Inr (c, st a p l h)))" for sp sl esc c
    by (rule within_bind [OF build_str_within [OF ok], where W' = "dst_bytes S t a"])
      (use w in \<open>auto simp: within_Inr dest: extends_ok\<close>)
  then show "wr h (dst_bytes S t a) (bindR (strspan F b e c) (\<lambda>(sp, sl, c, esc). bindR (build_str b sp sl esc h) (\<lambda>(p, l, h). Inr (c, st a p l h))))"
    by (auto intro!: harmless_strspan [OF F, THEN harmless_pure])
qed

section \<open>Every layout\<close>

text \<open>No vector has elements so large that room for four of them cannot be addressed.\<close>

fun roomy :: "ty \<Rightarrow> bool" where
  "roomy (TStruct _ fs) \<longleftrightarrow> (\<forall>f \<in> set fs. roomy (f_ty f))"
| "roomy (TTuple fs) \<longleftrightarrow> (\<forall>f \<in> set fs. roomy (f_ty f))"
| "roomy (TVec t esz al _) \<longleftrightarrow> roomy t \<and> 4 * esz + (max al 1 - 1) < 2 ^ 63"
| "roomy (TBoxed t _ _) \<longleftrightarrow> roomy t"
| "roomy (TOpt _ _ _ _ _ _ t) \<longleftrightarrow> roomy t"
| "roomy _ \<longleftrightarrow> True"

definition roomy_cells :: "(cell_id \<rightharpoonup> ty) \<Rightarrow> bool" where
  "roomy_cells C \<longleftrightarrow> (\<forall>c t. C c = Some t \<longrightarrow> roomy t)"

lemma int_width_le: "int_width n \<Longrightarrow> length (le_bytes (store_width n) k) \<le> n"
  using store_width_le by simp

lemma parse_tame:
  assumes wfc: "wf_cells C S" and rc: "roomy_cells C" and F: "memchr2_ok F"
  shows "wf_ty S t \<Longrightarrow> roomy t \<Longrightarrow> tame S t (parse n C F b e t)"
proof (induction n arbitrary: t)
  case 0
  show ?case by (simp add: tame_def)
next
  case (Suc n)
  note IH = Suc.IH and wf = Suc.prems(1) and rm = Suc.prems(2)
  show ?case
  proof (cases t)
    case TBool
    have "parse (Suc n) C F b e t = (\<lambda>a c h. bindR (bindR (ws b e c) (\<lambda>c. bindR (load_u8 b c) (\<lambda>v. Inr (v, c + (if v = 0x66 then 5 else 4)))))
        (\<lambda>(v, c). Inr (c, write_bytes a [of_bool (v = 0x74)] h)))"
      by (intro ext) (simp add: TBool bindR_assoc)
    then show ?thesis by (auto intro!: tame_leaf harmless_bind scanning simp: TBool)
  next
    case (TU w)
    have "parse (Suc n) C F b e t = (\<lambda>a c h. bindR (intval b e c False) (\<lambda>(v, c). Inr (c, write_bytes a (le_bytes (store_width w) (unat v)) h)))"
      by (intro ext) (simp add: TU store_sized_def)
    then show ?thesis using wf int_width_le by (auto intro!: tame_leaf scanning simp: TU simp del: length_le_bytes)
  next
    case (TI w)
    have "parse (Suc n) C F b e t = (\<lambda>a c h. bindR (intval b e c True) (\<lambda>(v, c). Inr (c, write_bytes a (le_bytes (store_width w) (unat v)) h)))"
      by (intro ext) (simp add: TI store_sized_def)
    then show ?thesis using wf int_width_le by (auto intro!: tame_leaf scanning simp: TI simp del: length_le_bytes)
  next
    case TF32
    have "parse (Suc n) C F b e t = (\<lambda>a c h. bindR (rt_f64v F b e c) (\<lambda>(v, c). Inr (c, write_bytes a (le_bytes 4 (unat (demote F v))) h)))"
      by (intro ext) (simp add: TF32)
    then show ?thesis by (auto intro!: tame_leaf scanning simp: TF32)
  next
    case TF64
    have "parse (Suc n) C F b e t = (\<lambda>a c h. bindR (rt_f64v F b e c) (\<lambda>(v, c). Inr (c, write_bytes a (le_bytes 8 (unat v)) h)))"
      by (intro ext) (simp add: TF64)
    then show ?thesis by (auto intro!: tame_leaf scanning simp: TF64)
  next
    case TChar
    have "parse (Suc n) C F b e t = (\<lambda>a c h. bindR (bindR (strspan F b e c) (\<lambda>(sp, sl, c, esc). bindR (load_u8 b sp) (\<lambda>v. Inr (v, c))))
        (\<lambda>(v, c). Inr (c, write_bytes a (le_bytes 4 (unat v)) h)))"
      by (intro ext) (simp add: TChar bindR_assoc case_prod_beta')
    then show ?thesis by (auto intro!: tame_leaf harmless_bind scanning harmless_strspan [OF F] simp: TChar)
  next
    case (TStr q)
    have "\<exists>B. extends h (store_at a (len_off q) l (store_at a (cap_off q) l (store_at a (ptr_off q) p h))) (dst_bytes S t a) B"
      if "heap_ok h" for a p l h
      using extends_write_seq [OF that, of a q p l l] by (auto simp: TStr store_at_def write_seq_def dst_bytes_def)
    from tame_string [OF F this, where b = b and e = e] show ?thesis
      by (simp add: TStr tame_def)
  next
    case (TStrRef po lo)
    have "\<exists>B. extends h (store_at a lo l (store_at a po p h)) (dst_bytes S t a) B" if "heap_ok h" for a p l h
      unfolding store_at_def write_word_def using that
      by (intro exI [of _ "{#}"] extends_then_write extends_refl) (auto simp: TStrRef dst_bytes_def)
    from tame_string [OF F this, where b = b and e = e] show ?thesis
      by (simp add: TStrRef tame_def)
  next
    case (TStruct nm fs)
    have "parse (Suc n) C F b e t = parse_struct n (parse n C F b e) F b e fs" by (intro ext) (simp add: TStruct)
    then show ?thesis using tame_struct [OF IH F wf [unfolded TStruct]] wf rm by (simp add: TStruct)
  next
    case (TTuple fs)
    have "parse (Suc n) C F b e t = parse_tuple (parse n C F b e) b e fs" by (intro ext) (simp add: TTuple)
    then show ?thesis using tame_tuple [of fs S "parse n C F b e" b e] IH wf rm by (simp add: TTuple)
  next
    case (TVec u esz al q)
    have "parse (Suc n) C F b e t = parse_vec n (parse n C F b e u) b e esz al q" by (intro ext) (simp add: TVec)
    then show ?thesis using tame_vec [OF IH wf [unfolded TVec]] wf rm by (simp add: TVec)
  next
    case (TBoxed u sz al)
    then show ?thesis using tame_box [OF IH wf [unfolded TBoxed]] wf rm by (simp add: tame_def)
  next
    case TUnit
    then show ?thesis by (auto simp: tame_def intro!: scanning [THEN harmless_pure] wr_same)
  next
    case (TOpt disc_off ds nd sd payload_off sz u)
    then show ?thesis using tame_opt [OF IH wf [unfolded TOpt], of b e] wf rm by (simp add: tame_def)
  next
    case (TRef c)
    have "wr h (dst_bytes S t a) (bindR (cell_get C c) (\<lambda>u. parse n C F b e u a cur h))" if "heap_ok h" "inside S t a h" for a cur h
    proof (cases "C c")
      case (Some u)
      then have u: "wf_ty S u" "span S u \<le> span S t" "roomy u" using wfc rc wf_cellsD [OF wfc]
        by (auto simp: TRef wf_cells_def cells_ok_def shaped_def roomy_cells_def)
      then have sub: "dst_bytes S u a \<subseteq> dst_bytes S t a" by (auto simp: dst_bytes_def)
      then have "inside S u a h" using that(2) by (auto simp: inside_def)
      then have "wr h (dst_bytes S t a) (parse n C F b e u a cur h)"
        by (rule within_mono [OF tameD [OF IH [OF u(1,3)] that(1)]]) (use sub in blast)
      then show ?thesis using Some by (simp add: cell_get_def)
    qed (simp add: cell_get_def)
    then show ?thesis by (simp add: TRef tame_def)
  qed (use wf in simp_all)
qed

section \<open>The property\<close>

text \<open>C8: a compiled parser is confined whatever bytes it is given, JSON or not: on a well-formed layout without maps a run of any length either panics, or reads beyond the input, or asks for a buffer larger than any allocation can be, or has written nothing but the destination and its own new blocks. Where it writes is decided by the layout alone.\<close>

theorem jit_writes_confined:
  assumes "wf_cells C S" and "wf_ty S t" and "roomy_cells C" and "roomy t" and "memchr2_ok F" and "heap_ok h" and "inside S t a h"
    and "compile_parser k C F t = Inr p"
  shows "case p n a b len h of
      Inl err \<Rightarrow> (\<forall>w. err = Ub w \<longrightarrow> w \<in> {''load beyond the input'', ''slice beyond the input'', ''realloc beyond isize::MAX''})
    | Inr h' \<Rightarrow> \<exists>B. extends h h' (dst_bytes S t a) B"
proof -
  have "wr h (dst_bytes S t a) (parse n C F b len t a 0 h)"
    by (rule tameD [OF parse_tame [OF assms(1,3,5,2,4)] assms(6,7)])
  moreover have "p n a b len h = bindR (parse n C F b len t a 0 h) (\<lambda>(_, h). Inr h)"
    using assms(8) by (auto simp: compile_parser_def bindR_eq_Inr)
  ultimately show ?thesis
    by (cases "parse n C F b len t a 0 h") (auto simp: within_Inr stray_def)
qed

text \<open>A vector of bools from a text that breaks off behind \<^verbatim>\<open>[tru\<close>.\<close>

theorem jit_writes_confined_witness:
  "\<exists>p. compile_parser 3 Map.empty sample_ops (TVec TBool 1 1 \<lparr>ptr_off = 0, cap_off = 8, len_off = 16\<rparr>) = Inr p
     \<and> (\<forall>h'. p 9 1024 [LBRACKET, 0x74, 0x72, 0x75] 4 \<lparr>mem = (\<lambda>_. 0), brk = 4096, live = {#}\<rparr> = Inr h' \<longrightarrow>
          mem h' 1048 = 0)"
proof -
  let ?t = "TVec TBool 1 1 \<lparr>ptr_off = 0, cap_off = 8, len_off = 16\<rparr>" and ?h = "\<lparr>mem = (\<lambda>_. 0), brk = 4096, live = {#}\<rparr>"
  have wf: "wf_cells Map.empty (\<lambda>_. (0, []))" "wf_ty (\<lambda>_. (0, [])) ?t" "roomy_cells Map.empty" "roomy ?t"
    by (simp_all add: wf_cells_def cells_ok_def free_cells_def roomy_cells_def seq_ok_def words_apart_def is_pow2_def exI [of _ 0])
  have h: "heap_ok ?h" "inside (\<lambda>_. (0, [])) ?t 1024 ?h"
    by (auto simp: heap_ok_def inside_def dst_bytes_def seq_span_def)
  obtain p where p: "compile_parser 3 Map.empty sample_ops ?t = Inr p"
    by (simp add: compile_parser_def emit_one_def known.simps numeral_3_eq_3)
  have "mem h' 1048 = 0" if "p 9 1024 [LBRACKET, 0x74, 0x72, 0x75] 4 ?h = Inr h'" for h'
    using jit_writes_confined [OF wf sample_memchr2 h p, of 9 "[LBRACKET, 0x74, 0x72, 0x75]" 4] that
    by (auto simp: extends_def dst_bytes_def seq_span_def)
  then show ?thesis using p by blast
qed

text \<open>The reads that remain are real: even the empty input is read, because no parser looks for its end before the first byte of a value.\<close>

theorem empty_input_overread:
  "\<exists>p. compile_parser 3 Map.empty F TBool = Inr p \<and> p (Suc n) a [] 0 h = Inl (Ub ''load beyond the input'')"
  by (simp add: compile_parser_def emit_one_def known.simps numeral_3_eq_3 ws_def peel_ws_def load_u8_def)

end
