(* ===== verification/Jitdump.thy ===== *)
theory Jitdump
  imports Prelude
begin

text \<open>
  \<^verbatim>\<open>crates/bilbo-json/src/jitdump.rs\<close>: the profiler file of compiled functions. The file is what
  has been written so far; the clock and the process id are arguments. A reader of the format shows
  that what was registered can be recovered.
\<close>

section \<open>Writing\<close>

definition JITDUMP_MAGIC :: nat where
  "JITDUMP_MAGIC = 0x4A695444"

definition JIT_CODE_LOAD :: nat where
  "JIT_CODE_LOAD = 0"

definition EM_AARCH64 :: nat where
  "EM_AARCH64 = 183"

definition EM_X86_64 :: nat where
  "EM_X86_64 = 62"

record dump =
  dump_file :: bytes
  next_index :: nat

definition header :: "nat \<Rightarrow> nat \<Rightarrow> bytes" where
  "header e_machine pid =
     le_bytes 4 JITDUMP_MAGIC @ le_bytes 4 1 @ le_bytes 4 40 @ le_bytes 4 e_machine
     @ le_bytes 4 0 @ le_bytes 4 pid @ le_bytes 8 0 @ le_bytes 8 0"

text \<open>The global state: \<open>None\<close> if the file cannot be created or its header cannot be written.\<close>

definition open_dump :: "bool \<Rightarrow> nat \<Rightarrow> nat \<Rightarrow> dump option" where
  "open_dump writable e_machine pid =
     (if writable then Some \<lparr>dump_file = header e_machine pid, next_index = 0\<rparr> else None)"

definition code_record :: "nat \<Rightarrow> nat \<Rightarrow> nat \<Rightarrow> nat \<Rightarrow> bytes \<Rightarrow> bytes \<Rightarrow> bytes" where
  "code_record ts pid addr ix name code =
     le_bytes 4 JIT_CODE_LOAD @ le_bytes 4 (16 + 40 + length name + 1 + length code) @ le_bytes 8 ts
     @ le_bytes 4 pid @ le_bytes 4 0 @ le_bytes 8 addr @ le_bytes 8 addr @ le_bytes 8 (length code) @ le_bytes 8 ix
     @ name @ [0] @ code"

text \<open>One registration; a failed write is ignored, the index advances all the same.\<close>

definition register_code :: "bool \<Rightarrow> nat \<Rightarrow> nat \<Rightarrow> bytes \<Rightarrow> nat \<Rightarrow> bytes \<Rightarrow> dump option \<Rightarrow> dump option" where
  "register_code ok ts pid name addr code d =
     (case d of
        None \<Rightarrow> None
      | Some st \<Rightarrow> Some \<lparr>
          dump_file = dump_file st @ (if ok then code_record ts pid addr (next_index st) name code else []),
          next_index = next_index st + 1\<rparr>)"

section \<open>Reading\<close>

text \<open>A reader after the specification of the format: records by their size field, names up to the NUL.\<close>

record loaded =
  l_time :: nat
  l_addr :: nat
  l_index :: nat
  l_symbol :: bytes
  l_code :: bytes

definition field_at :: "nat \<Rightarrow> nat \<Rightarrow> bytes \<Rightarrow> nat" where
  "field_at off n b = le_val (take n (drop off b))"

definition parse_record :: "bytes \<Rightarrow> loaded option" where
  "parse_record b =
     (if length b < 56 then None
      else let rest = drop 56 b; name = takeWhile (\<lambda>x. x \<noteq> 0) rest in
        if length rest = length name + 1 + field_at 40 8 b then
          Some \<lparr>l_time = field_at 8 8 b, l_addr = field_at 24 8 b, l_index = field_at 48 8 b,
            l_symbol = name, l_code = drop (length name + 1) rest\<rparr>
        else None)"

function parse_records :: "bytes \<Rightarrow> loaded list option" where
  "parse_records b =
     (if b = [] then Some []
      else let n = field_at 4 4 b in
        if n < 8 \<or> length b < n then None
        else (case (parse_record (take n b), parse_records (drop n b)) of
            (Some r, Some rs) \<Rightarrow> Some (r # rs)
          | _ \<Rightarrow> None))"
  by pat_completeness auto
termination
  by (relation "measure length") auto

declare parse_records.simps [simp del]

definition parse_dump :: "bytes \<Rightarrow> loaded list option" where
  "parse_dump b =
     (if length b < 40 \<or> field_at 0 4 b \<noteq> JITDUMP_MAGIC then None else parse_records (drop (field_at 8 4 b) b))"

section \<open>What is written is read back\<close>

lemma take_le_bytes [simp]: "take n (le_bytes n k @ xs) = le_bytes n k"
  by simp

lemma field_at_0: "k < 256 ^ n \<Longrightarrow> field_at 0 n (le_bytes n k @ xs) = k"
  by (simp add: field_at_def le_val_le_bytes)

lemma field_at_skip: "length xs \<le> off \<Longrightarrow> field_at off n (xs @ ys) = field_at (off - length xs) n ys"
  by (simp add: field_at_def)

lemma length_header [simp]: "length (header m pid) = 40"
  by (simp add: header_def)

lemma header_fields:
  "field_at 0 4 (header m pid @ xs) = JITDUMP_MAGIC" "field_at 8 4 (header m pid @ xs) = 40"
  by (simp_all add: header_def field_at_skip field_at_0 JITDUMP_MAGIC_def)

lemma length_code_record: "length (code_record ts pid addr ix name code) = 57 + length name + length code"
  by (simp add: code_record_def)

lemma code_record_size:
  "length name + length code < 2 ^ 32 - 57 \<Longrightarrow>
   field_at 4 4 (code_record ts pid addr ix name code @ xs) = length (code_record ts pid addr ix name code)"
  by (simp add: code_record_def field_at_skip field_at_0)

lemma parse_code_record:
  assumes "length name + length code < 2 ^ 32 - 57" and "ts < 2 ^ 64" and "addr < 2 ^ 64" and "ix < 2 ^ 64" and "0 \<notin> set name"
  shows "parse_record (code_record ts pid addr ix name code)
    = Some \<lparr>l_time = ts, l_addr = addr, l_index = ix, l_symbol = name, l_code = code\<rparr>"
proof -
  let ?r = "code_record ts pid addr ix name code"
  have f: "field_at 8 8 ?r = ts" "field_at 24 8 ?r = addr" "field_at 40 8 ?r = length code" "field_at 48 8 ?r = ix"
    using assms(1-4) by (simp_all add: code_record_def field_at_skip field_at_0)
  have rest: "drop 56 ?r = name @ 0 # code" by (simp add: code_record_def)
  have name: "takeWhile (\<lambda>x. x \<noteq> 0) (name @ 0 # code) = name" using assms(5) by (subst takeWhile_append2) auto
  show ?thesis unfolding parse_record_def f rest Let_def name by (simp add: length_code_record)
qed

text \<open>A registration: time, name, address and machine code; all writes succeed.\<close>

type_synonym registration = "nat \<times> bytes \<times> nat \<times> bytes"

definition valid_registration :: "registration \<Rightarrow> bool" where
  "valid_registration = (\<lambda>(ts, name, addr, code). length name + length code < 2 ^ 32 - 57 \<and> ts < 2 ^ 64 \<and> addr < 2 ^ 64 \<and> 0 \<notin> set name)"

definition register_all :: "nat \<Rightarrow> registration list \<Rightarrow> dump option \<Rightarrow> dump option" where
  "register_all pid rs d = fold (\<lambda>(ts, name, addr, code). register_code True ts pid name addr code) rs d"

definition loaded_of :: "nat \<times> registration \<Rightarrow> loaded" where
  "loaded_of = (\<lambda>(i, ts, name, addr, code). \<lparr>l_time = ts, l_addr = addr, l_index = i, l_symbol = name, l_code = code\<rparr>)"

definition written :: "nat \<Rightarrow> nat \<times> registration \<Rightarrow> bytes" where
  "written pid = (\<lambda>(i, ts, name, addr, code). code_record ts pid addr i name code)"

lemma register_all_file:
  "register_all pid rs (Some d) = Some \<lparr>dump_file = dump_file d @ concat (map (written pid) (enumerate (next_index d) rs)), next_index = next_index d + length rs\<rparr>"
proof (induction rs arbitrary: d)
  case (Cons r rs)
  obtain ts name addr code where "r = (ts, name, addr, code)" by (cases r) auto
  then show ?case using Cons [of "\<lparr>dump_file = dump_file d @ written pid (next_index d, r), next_index = Suc (next_index d)\<rparr>"]
    by (simp add: register_all_def register_code_def written_def)
qed (simp add: register_all_def)

lemma parse_records_written:
  "list_all valid_registration rs \<Longrightarrow> i + length rs \<le> 2 ^ 64 \<Longrightarrow>
   parse_records (concat (map (written pid) (enumerate i rs))) = Some (map loaded_of (enumerate i rs))"
proof (induction rs arbitrary: i)
  case Nil
  then show ?case by (simp add: parse_records.simps)
next
  case (Cons r rs)
  obtain ts name addr code where r: "r = (ts, name, addr, code)" by (cases r) auto
  let ?r = "code_record ts pid addr i name code" and ?rest = "concat (map (written pid) (enumerate (Suc i) rs))"
  have v: "length name + length code < 2 ^ 32 - 57" "ts < 2 ^ 64" "addr < 2 ^ 64" "0 \<notin> set name"
    using Cons.prems(1) r by (simp_all add: valid_registration_def)
  have i: "i < 2 ^ 64" using Cons.prems(2) by simp
  have ne: "?r \<noteq> []" by (simp add: code_record_def)
  have size: "field_at 4 4 (?r @ ?rest) = length ?r" by (rule code_record_size [OF v(1)])
  have "parse_records (?r @ ?rest) = Some (loaded_of (i, r) # map loaded_of (enumerate (Suc i) rs))"
    using Cons.IH [of "Suc i"] Cons.prems parse_code_record [OF v(1-3) i v(4)] r ne
    by (subst parse_records.simps) (simp add: size length_code_record loaded_of_def)
  then show ?case by (simp add: r written_def)
qed

text \<open>C27: the profiler file is well formed and loses nothing: after any sequence of registrations a reader of the format finds the header it expects and, in order and with running indices, exactly the functions that were registered, with their names, addresses, times and machine code.\<close>

theorem dump_roundtrip:
  assumes "list_all valid_registration rs" and "length rs \<le> 2 ^ 64"
  shows "\<exists>d. register_all pid rs (open_dump True e_machine pid) = Some d
    \<and> parse_dump (dump_file d) = Some (map loaded_of (enumerate 0 rs)) \<and> next_index d = length rs"
  using parse_records_written [OF assms(1), of 0] assms(2)
  by (simp add: open_dump_def register_all_file parse_dump_def header_fields)

theorem dump_roundtrip_witness:
  "\<exists>d. register_all 7 [(5, [112], 4096, [0xC3]), (9, [112, 49], 8192, [])] (open_dump True EM_X86_64 7) = Some d
    \<and> parse_dump (dump_file d) = Some
      [\<lparr>l_time = 5, l_addr = 4096, l_index = 0, l_symbol = [112], l_code = [0xC3]\<rparr>,
       \<lparr>l_time = 9, l_addr = 8192, l_index = 1, l_symbol = [112, 49], l_code = []\<rparr>]"
proof -
  have "list_all valid_registration [(5, [112], 4096, [0xC3]), (9, [112, 49], 8192, [])]"
    by (simp add: valid_registration_def)
  from dump_roundtrip [OF this, of 7 EM_X86_64] show ?thesis by (auto simp: loaded_of_def)
qed

end
