(* ===== verification/Jit_Module.thy ===== *)
theory Jit_Module
  imports Jit_Cells Jitdump
begin

text \<open>
  The module that all parsers of a thread are compiled into (\<^verbatim>\<open>struct Jit\<close> in
  \<^verbatim>\<open>crates/bilbo-json/src/jit.rs\<close>): names are declared, defined once, and told to the profiler.
  The module itself belongs to cranelift: whether a call of it succeeds is a parameter, a function of
  the calls that succeeded before, and so are the machine code and the address of a function.
\<close>

section \<open>Names\<close>

text \<open>\<^verbatim>\<open>format!("{}", k)\<close>.\<close>

fun decimal :: "nat \<Rightarrow> bytes" where
  "decimal k = (if k < 10 then [of_nat (0x30 + k)] else decimal (k div 10) @ [of_nat (0x30 + k mod 10)])"

declare decimal.simps [simp del]

lemma digits_val_snoc:
  "digits_val acc (ds @ [d]) = Option.bind (digits_val acc ds) (\<lambda>v. digits_val v [d])"
  by (induction ds arbitrary: acc) auto

lemma digit_val: "k < 10 \<Longrightarrow> digits_val v [of_nat (0x30 + k)] = Some (10 * v + k)"
  by (simp add: is_digit_def word_le_nat_alt unat_of_nat del: of_nat_add)

lemma digits_val_decimal: "digits_val 0 (decimal k) = Some k"
proof (induction k rule: decimal.induct)
  case (1 k)
  show ?case
  proof (cases "k < 10")
    case True
    then show ?thesis using digit_val [of k 0] by (subst decimal.simps) simp
  next
    case False
    then show ?thesis using 1 digit_val [of "k mod 10" "k div 10"]
      by (subst decimal.simps) (simp add: digits_val_snoc del: digits_val.simps of_nat_add)
  qed
qed

lemma decimal_inj: "decimal j = decimal k \<Longrightarrow> j = k"
  by (metis digits_val_decimal option.inject)

section \<open>The calls of the module\<close>

text \<open>
  \<^verbatim>\<open>declare_function\<close> with a name, \<^verbatim>\<open>define_function\<close> with a name and the names that its body may
  call, \<^verbatim>\<open>finalize_definitions\<close>. The function ids of cranelift are the names they were declared with.
\<close>

datatype jit_call = Declare bytes | Define bytes "bytes list" | Finalize

fun declared_in :: "jit_call list \<Rightarrow> bytes list" where
  "declared_in [] = []"
| "declared_in (Declare nm # es) = nm # declared_in es"
| "declared_in (_ # es) = declared_in es"

fun defined_in :: "jit_call list \<Rightarrow> bytes list" where
  "defined_in [] = []"
| "defined_in (Define nm cs # es) = nm # defined_in es"
| "defined_in (_ # es) = defined_in es"

lemma declared_in_append [simp]: "declared_in (xs @ ys) = declared_in xs @ declared_in ys"
  by (induction xs rule: declared_in.induct) simp_all

lemma defined_in_append [simp]: "defined_in (xs @ ys) = defined_in xs @ defined_in ys"
  by (induction xs rule: defined_in.induct) simp_all

lemma declared_in_map [simp]: "declared_in (map Declare nms) = nms" "defined_in (map Declare nms) = []"
  by (induction nms) simp_all

lemma defined_in_set: "nm \<in> set (defined_in es) \<longleftrightarrow> (\<exists>cs. Define nm cs \<in> set es)"
  by (induction es rule: defined_in.induct) auto

text \<open>\<open>dangling\<close>: a body calls a function that has no body.\<close>

definition dangling :: "jit_call list \<Rightarrow> bool" where
  "dangling es \<longleftrightarrow> list_ex (\<lambda>e. case e of Define nm cs \<Rightarrow> \<not> set cs \<subseteq> set (defined_in es) | _ \<Rightarrow> False) es"

lemma dangling_iff: "dangling es \<longleftrightarrow> (\<exists>nm cs. Define nm cs \<in> set es \<and> \<not> set cs \<subseteq> set (defined_in es))"
  unfolding dangling_def list_ex_iff by (auto split: jit_call.splits) (metis jit_call.exhaust)

text \<open>
  What the documentation of cranelift promises: a new name can be declared, a declared function can be
  defined once, and the definitions can be finalized if every function that is called has a body.
\<close>

type_synonym cranelift = "jit_call list \<Rightarrow> jit_call \<Rightarrow> bool"

definition lawful :: "cranelift \<Rightarrow> bool" where
  "lawful cl \<longleftrightarrow>
     (\<forall>es nm. nm \<notin> set (declared_in es) \<longrightarrow> cl es (Declare nm))
   \<and> (\<forall>es nm cs. nm \<in> set (declared_in es) \<and> nm \<notin> set (defined_in es) \<and> set cs \<subseteq> set (declared_in es) \<longrightarrow> cl es (Define nm cs))
   \<and> (\<forall>es. \<not> dangling es \<longrightarrow> cl es Finalize)"

section \<open>The state of a thread\<close>

text \<open>The calls that succeeded so far, and the counter behind the names.\<close>

record jit_module =
  made :: "jit_call list"
  seq :: nat

text \<open>A panic leaves the module as it is at that point: the thread may go on compiling.\<close>

definition bindM :: "'s \<times> 'a res \<Rightarrow> ('a \<Rightarrow> 's \<Rightarrow> 's \<times> 'b res) \<Rightarrow> 's \<times> 'b res" where
  "bindM r f = (case r of (s, Inl e) \<Rightarrow> (s, Inl e) | (s, Inr x) \<Rightarrow> f x s)"

lemma bindM_simps [simp]: "bindM (s, Inl e) f = (s, Inl e)" "bindM (s, Inr x) f = f x s"
  by (simp_all add: bindM_def)

definition ask :: "cranelift \<Rightarrow> jit_call \<Rightarrow> jit_module \<Rightarrow> jit_module \<times> unit res" where
  "ask cl e m = (if cl (made m) e then (m\<lparr>made := made m @ [e]\<rparr>, Inr ()) else (m, Inl (Panic ''unwrap on an Err value'')))"

fun ask_all :: "cranelift \<Rightarrow> jit_call list \<Rightarrow> jit_module \<Rightarrow> jit_module \<times> unit res" where
  "ask_all cl [] m = (m, Inr ())"
| "ask_all cl (e # es) m = bindM (ask cl e m) (\<lambda>_ m. ask_all cl es m)"

definition shim_names :: "bytes list" where
  "shim_names = map ascii [''rt_alloc'', ''rt_box_alloc'', ''rt_realloc'', ''rt_skip'', ''rt_f64v'', ''rt_unescape'',
     ''rt_wsskip'', ''rt_strscan'']"

definition new_module :: "cranelift \<Rightarrow> jit_module \<times> unit res" where
  "new_module cl = ask_all cl (map Declare shim_names) \<lparr>made = [], seq = 0\<rparr>"

section \<open>Compilation in a module\<close>

text \<open>The counter is a \<^verbatim>\<open>u32\<close>, with its overflow check.\<close>

definition next_name :: "string \<Rightarrow> jit_module \<Rightarrow> jit_module \<times> bytes res" where
  "next_name pre m =
     (if seq m + 1 < 2 ^ 32 then (m\<lparr>seq := seq m + 1\<rparr>, Inr (ascii pre @ decimal (seq m + 1)))
      else (m, Inl (Panic ''attempt to add with overflow'')))"

fun declare_recs :: "cranelift \<Rightarrow> cell_id list \<Rightarrow> jit_module \<Rightarrow> jit_module \<times> (cell_id \<times> bytes) list res" where
  "declare_recs cl [] m = (m, Inr [])"
| "declare_recs cl (c # cs) m =
     bindM (next_name ''parse_rec_'' m) (\<lambda>nm m.
     bindM (ask cl (Declare nm) m) (\<lambda>_ m.
     bindM (declare_recs cl cs m) (\<lambda>recs m. (m, Inr ((c, nm) # recs)))))"

text \<open>The functions that the code emitted for a layout may call, besides the shims.\<close>

definition calls :: "(cell_id \<times> bytes) list \<Rightarrow> ty \<Rightarrow> bytes list" where
  "calls recs t = map snd (filter (\<lambda>(c, nm). c \<in> set (ty_cells t)) recs)"

definition define_one :: "cranelift \<Rightarrow> (cell_id \<times> bytes) list \<Rightarrow> bytes \<Rightarrow> ty \<Rightarrow> jit_module \<Rightarrow> jit_module \<times> unit res" where
  "define_one cl recs nm t m = bindM (m, emit_one t) (\<lambda>_ m. ask cl (Define nm (calls recs t)) m)"

fun define_recs :: "cranelift \<Rightarrow> (cell_id \<rightharpoonup> ty) \<Rightarrow> (cell_id \<times> bytes) list \<Rightarrow> (cell_id \<times> bytes) list \<Rightarrow> jit_module \<Rightarrow> jit_module \<times> unit res" where
  "define_recs cl C recs [] m = (m, Inr ())"
| "define_recs cl C recs ((c, nm) # todo) m =
     bindM (m, cell_get C c) (\<lambda>t m. bindM (define_one cl recs nm t m) (\<lambda>_ m. define_recs cl C recs todo m))"

text \<open>What the profiler is told: the parser first, then the functions of the cells, none without code.\<close>

definition announced :: "(bytes \<Rightarrow> nat \<times> bytes) \<Rightarrow> bytes list \<Rightarrow> (bytes \<times> nat \<times> bytes) list" where
  "announced compiled names =
     concat (map (\<lambda>nm. let (addr, code) = compiled nm in
       if code = [] then [] else [(ascii ''bilbo_json::jit::'' @ nm, addr, code)]) names)"

definition compile_in ::
  "cranelift \<Rightarrow> nat \<Rightarrow> (cell_id \<rightharpoonup> ty) \<Rightarrow> (bytes \<Rightarrow> nat \<times> bytes) \<Rightarrow> ty \<Rightarrow> jit_module \<Rightarrow> jit_module \<times> (bytes \<times> nat \<times> bytes) list res" where
  "compile_in cl n C compiled t m =
     bindM (m, collect_cells n C t ({}, [])) (\<lambda>(_, cells) m.
     bindM (declare_recs cl cells m) (\<lambda>recs m.
     bindM (define_recs cl C recs recs m) (\<lambda>_ m.
     bindM (next_name ''parse_'' m) (\<lambda>nm m.
     bindM (ask cl (Declare nm) m) (\<lambda>_ m.
     bindM (define_one cl recs nm t m) (\<lambda>_ m.
     bindM (ask cl Finalize m) (\<lambda>_ m.
       (m, Inr (announced compiled (nm # map snd recs))))))))))"

section \<open>Names are fresh\<close>

definition fn_name :: "nat \<Rightarrow> bytes \<Rightarrow> bool" where
  "fn_name k nm \<longleftrightarrow> nm = ascii ''parse_rec_'' @ decimal k \<or> nm = ascii ''parse_'' @ decimal k"

text \<open>\<open>orderly\<close>: no name is declared or defined twice, and every name is one of the names given out.\<close>

definition orderly :: "jit_module \<Rightarrow> bool" where
  "orderly m \<longleftrightarrow> distinct (declared_in (made m)) \<and> distinct (defined_in (made m))
     \<and> (\<forall>nm \<in> set (declared_in (made m)) \<union> set (defined_in (made m)). nm \<in> set shim_names \<or> (\<exists>k \<le> seq m. fn_name k nm))"

lemma orderly_grow:
  assumes "orderly m" and "made m' = made m @ es" and "seq m \<le> seq m'"
    and "distinct (declared_in es)" and "distinct (defined_in es)"
    and "\<And>nm. nm \<in> set (declared_in es) \<Longrightarrow> nm \<notin> set (declared_in (made m)) \<and> (\<exists>k \<le> seq m'. fn_name k nm)"
    and "\<And>nm. nm \<in> set (defined_in es) \<Longrightarrow> nm \<notin> set (defined_in (made m)) \<and> (\<exists>k \<le> seq m'. fn_name k nm)"
  shows "orderly m'"
proof -
  have old: "nm \<in> set shim_names \<or> (\<exists>k \<le> seq m'. fn_name k nm)"
    if "nm \<in> set (declared_in (made m)) \<union> set (defined_in (made m))" for nm
    using that assms(1,3) unfolding orderly_def by (meson le_trans)
  have d: "distinct (declared_in (made m'))" "distinct (defined_in (made m'))"
    using assms(1,2,4-7) unfolding orderly_def by auto
  moreover have "nm \<in> set shim_names \<or> (\<exists>k \<le> seq m'. fn_name k nm)"
    if "nm \<in> set (declared_in (made m')) \<union> set (defined_in (made m'))" for nm
    using that old [of nm] assms(2,6,7) by auto
  ultimately show ?thesis unfolding orderly_def by blast
qed

lemma fn_name_inj: "fn_name j nm \<Longrightarrow> fn_name k nm \<Longrightarrow> j = k"
proof -
  have no: "decimal j \<noteq> of_char CHR ''r'' # xs" for j and xs :: bytes
  proof
    assume "decimal j = of_char CHR ''r'' # xs"
    then have "digits_val 0 (of_char CHR ''r'' # xs) = Some j" using digits_val_decimal [of j] by simp
    then show False by (simp add: is_digit_def)
  qed
  assume "fn_name j nm" "fn_name k nm"
  then show ?thesis using no no [symmetric] decimal_inj by (auto simp: fn_name_def ascii_def)
qed

lemma fn_name_shim: "fn_name k nm \<Longrightarrow> nm \<notin> set shim_names"
proof -
  assume "fn_name k nm"
  then have "hd nm = of_char CHR ''p''" by (auto simp: fn_name_def ascii_def)
  moreover have "\<forall>nm \<in> set shim_names. hd nm = of_char CHR ''r''" by (simp add: shim_names_def ascii_def)
  ultimately show ?thesis by fastforce
qed

lemma fresh_name:
  assumes "orderly m" and "seq m < k" and "fn_name k nm"
  shows "nm \<notin> set (declared_in (made m))" and "nm \<notin> set (defined_in (made m))"
proof -
  have "\<not> (nm \<in> set shim_names \<or> (\<exists>j \<le> seq m. fn_name j nm))"
    using assms(2,3) fn_name_inj fn_name_shim by (metis leD)
  then show "nm \<notin> set (declared_in (made m))" "nm \<notin> set (defined_in (made m))"
    using assms(1) unfolding orderly_def by blast+
qed

definition rec_names :: "nat \<Rightarrow> nat \<Rightarrow> bytes list" where
  "rec_names s l = map (\<lambda>k. ascii ''parse_rec_'' @ decimal k) [Suc s..<Suc (s + l)]"

lemma length_rec_names [simp]: "length (rec_names s l) = l"
  by (simp add: rec_names_def del: upt_Suc)

lemma rec_names_fresh:
  assumes "orderly m"
  shows "distinct (rec_names (seq m) l)"
    and "nm \<in> set (rec_names (seq m) l) \<Longrightarrow> nm \<notin> set (declared_in (made m))"
    and "nm \<in> set (rec_names (seq m) l) \<Longrightarrow> nm \<notin> set (defined_in (made m))"
    and "nm \<in> set (rec_names (seq m) l) \<Longrightarrow> \<exists>k \<le> seq m + l. fn_name k nm"
proof -
  show "distinct (rec_names (seq m) l)"
    unfolding rec_names_def using decimal_inj by (auto simp: distinct_map inj_on_def)
  assume "nm \<in> set (rec_names (seq m) l)"
  then obtain k where "k \<in> set [Suc (seq m)..<Suc (seq m + l)]" "nm = ascii ''parse_rec_'' @ decimal k"
    by (auto simp: rec_names_def simp del: upt_Suc)
  then have k: "seq m < k" "k \<le> seq m + l" "fn_name k nm" by (auto simp: fn_name_def simp del: upt_Suc)
  then show "nm \<notin> set (declared_in (made m))" "nm \<notin> set (defined_in (made m))" "\<exists>k \<le> seq m + l. fn_name k nm"
    using fresh_name [OF assms] by blast+
qed

section \<open>The two passes over the cells\<close>

lemma ask_ok: "cl (made m) e \<Longrightarrow> ask cl e m = (m\<lparr>made := made m @ [e]\<rparr>, Inr ())"
  by (simp add: ask_def)

lemma declare_recs_run:
  assumes "lawful cl"
  shows "orderly m \<Longrightarrow> seq m + length cs < 2 ^ 32 \<Longrightarrow>
   declare_recs cl cs m = (m\<lparr>seq := seq m + length cs, made := made m @ map Declare (rec_names (seq m) (length cs))\<rparr>,
     Inr (zip cs (rec_names (seq m) (length cs))))"
proof (induction cs arbitrary: m)
  case (Cons c cs)
  let ?nm = "ascii ''parse_rec_'' @ decimal (Suc (seq m))"
  let ?m = "m\<lparr>seq := Suc (seq m), made := made m @ [Declare ?nm]\<rparr>"
  have nm: "fn_name (Suc (seq m)) ?nm" by (simp add: fn_name_def)
  have new: "?nm \<notin> set (declared_in (made m))" using fresh_name(1) [OF Cons.prems(1) _ nm] by simp
  then have "cl (made m) (Declare ?nm)" using assms by (simp add: lawful_def)
  moreover have "orderly ?m" by (rule orderly_grow [OF Cons.prems(1)]) (use new nm in auto)
  then have "declare_recs cl cs ?m = (?m\<lparr>seq := seq ?m + length cs, made := made ?m @ map Declare (rec_names (seq ?m) (length cs))\<rparr>,
      Inr (zip cs (rec_names (seq ?m) (length cs))))"
    by (rule Cons.IH) (use Cons.prems(2) in simp)
  moreover have "rec_names (seq m) (Suc (length cs)) = ?nm # rec_names (Suc (seq m)) (length cs)"
    unfolding rec_names_def by (simp add: upt_conv_Cons del: upt_Suc)
  ultimately show ?case using Cons.prems(2) by (simp add: next_name_def ask_ok)
qed (simp add: rec_names_def)

text \<open>Only bodies are added, each calling functions of \<open>nms\<close> only.\<close>

definition bodies :: "bytes set \<Rightarrow> jit_call list \<Rightarrow> bool" where
  "bodies nms es \<longleftrightarrow> (\<forall>e \<in> set es. \<exists>nm cs. e = Define nm cs \<and> set cs \<subseteq> nms)"

lemma bodies_declared: "bodies nms es \<Longrightarrow> declared_in es = []"
  by (induction es rule: declared_in.induct) (auto simp: bodies_def)

lemma calls_names: "set (calls recs t) \<subseteq> snd ` set recs"
  by (auto simp: calls_def)

lemma define_one_run:
  assumes "lawful cl" and "nm \<in> set (declared_in (made m))" "nm \<notin> set (defined_in (made m))" "snd ` set recs \<subseteq> set (declared_in (made m))"
  shows "define_one cl recs nm t m = (case emit_one t of Inl e \<Rightarrow> (m, Inl e)
    | Inr _ \<Rightarrow> (m\<lparr>made := made m @ [Define nm (calls recs t)]\<rparr>, Inr ()))"
proof -
  have "cl (made m) (Define nm (calls recs t))"
    using assms calls_names [of recs t] unfolding lawful_def by (meson order_trans)
  then show ?thesis by (simp add: define_one_def ask_ok bindM_def split: sum.split)
qed

lemma define_recs_run:
  assumes cl: "lawful cl"
  shows "distinct (map snd todo) \<Longrightarrow> snd ` set todo \<inter> set (defined_in (made m)) = {} \<Longrightarrow> set todo \<subseteq> set recs \<Longrightarrow>
   snd ` set recs \<subseteq> set (declared_in (made m)) \<Longrightarrow>
   \<exists>ds r. define_recs cl C recs todo m = (m\<lparr>made := made m @ ds\<rparr>, r)
     \<and> r = bindR (map_res (\<lambda>c. bindR (cell_get C c) emit_one) (map fst todo)) (\<lambda>_. Inr ())
     \<and> bodies (snd ` set recs) ds \<and> distinct (defined_in ds) \<and> set (defined_in ds) \<subseteq> snd ` set todo
     \<and> (r = Inr () \<longrightarrow> defined_in ds = map snd todo)"
proof (induction todo arbitrary: m)
  case (Cons a todo)
  obtain c nm where a: "a = (c, nm)" by (cases a)
  have stop: ?case if "define_recs cl C recs (a # todo) m = (m, Inl e)" "bindR (cell_get C c) emit_one = Inl e" for e
    using that a by (intro exI [of _ "[]"] exI [of _ "Inl e"]) (simp add: bodies_def)
  show ?case
  proof (cases "cell_get C c")
    case (Inl e)
    then show ?thesis using stop by (simp add: a)
  next
    case (Inr t)
    have "nm \<in> set (declared_in (made m))" "nm \<notin> set (defined_in (made m))" using Cons.prems a by auto
    note one = define_one_run [OF cl this Cons.prems(4), of t]
    show ?thesis
    proof (cases "emit_one t")
      case (Inl e)
      then show ?thesis using stop Inr one by (simp add: a)
    next
      case (Inr u)
      let ?d = "Define nm (calls recs t)"
      let ?m = "m\<lparr>made := made m @ [?d]\<rparr>"
      have "distinct (map snd todo)" "snd ` set todo \<inter> set (defined_in (made ?m)) = {}" "set todo \<subseteq> set recs"
        "snd ` set recs \<subseteq> set (declared_in (made ?m))"
        using Cons.prems a by (auto simp: image_iff)
      from Cons.IH [OF this] obtain ds r where ds: "define_recs cl C recs todo ?m = (?m\<lparr>made := made ?m @ ds\<rparr>, r)"
        "r = bindR (map_res (\<lambda>c. bindR (cell_get C c) emit_one) (map fst todo)) (\<lambda>_. Inr ())"
        "bodies (snd ` set recs) ds" "distinct (defined_in ds)" "set (defined_in ds) \<subseteq> snd ` set todo"
        "r = Inr () \<longrightarrow> defined_in ds = map snd todo" by blast
      have "nm \<notin> snd ` set todo" using Cons.prems(1) a by simp
      moreover have "define_recs cl C recs (a # todo) m = (m\<lparr>made := made m @ ?d # ds\<rparr>, r)"
        using \<open>cell_get C c = Inr t\<close> Inr one ds(1) by (simp add: a)
      moreover have "r = bindR (map_res (\<lambda>c. bindR (cell_get C c) emit_one) (map fst (a # todo))) (\<lambda>_. Inr ())"
        using \<open>cell_get C c = Inr t\<close> Inr ds(2) by (simp add: a bindR_assoc)
      moreover have "bodies (snd ` set recs) (?d # ds)" using ds(3) calls_names [of recs t] by (simp add: bodies_def)
      ultimately show ?thesis using ds(4-6) a by (intro exI [of _ "?d # ds"] exI [of _ r]) auto
    qed
  qed
qed (intro exI [of _ "[]"], simp add: bodies_def)

section \<open>The property\<close>

definition tidy :: "jit_module \<Rightarrow> bool" where
  "tidy m \<longleftrightarrow> orderly m \<and> \<not> dangling (made m)"

lemma dangling_append: "\<not> dangling es \<Longrightarrow> bodies nms ds \<Longrightarrow> nms \<subseteq> set (defined_in (es @ ds)) \<Longrightarrow> \<not> dangling (es @ ds)"
  unfolding dangling_iff bodies_def by fastforce

text \<open>The parser proper, after the functions of the cells: declared, defined, everything finalized.\<close>

lemma finish_run:
  assumes cl: "lawful cl" and ok: "orderly m" "\<not> dangling (made m)" and room: "seq m + 1 < 2 ^ 32"
    and recs: "snd ` set recs \<subseteq> set (declared_in (made m))" "snd ` set recs \<subseteq> set (defined_in (made m))"
  defines "nm \<equiv> ascii ''parse_'' @ decimal (seq m + 1)"
  shows "\<exists>m'. bindM (next_name ''parse_'' m) (\<lambda>nm m. bindM (ask cl (Declare nm) m) (\<lambda>_ m.
      bindM (define_one cl recs nm t m) (\<lambda>_ m. bindM (ask cl Finalize m) (\<lambda>_ m. (m, Inr (out nm))))))
      = (m', bindR (emit_one t) (\<lambda>_. Inr (out nm)))
    \<and> orderly m' \<and> (emit_one t = Inr () \<longrightarrow> \<not> dangling (made m'))"
proof -
  let ?m1 = "m\<lparr>seq := Suc (seq m), made := made m @ [Declare nm]\<rparr>"
  have nm: "fn_name (seq m + 1) nm" by (simp add: nm_def fn_name_def)
  have new: "nm \<notin> set (declared_in (made m))" "nm \<notin> set (defined_in (made m))" using fresh_name [OF ok(1) _ nm] by simp_all
  have ok1: "orderly ?m1" by (rule orderly_grow [OF ok(1)]) (use new nm in auto)
  have "cl (made m) (Declare nm)" using cl new(1) unfolding lawful_def by blast
  then have first: "bindM (next_name ''parse_'' m) (\<lambda>nm m. bindM (ask cl (Declare nm) m) (\<lambda>_ m. rest nm m)) = rest nm ?m1" for rest :: "bytes \<Rightarrow> jit_module \<Rightarrow> jit_module \<times> 'a res"
    using room by (simp add: next_name_def ask_ok nm_def)
  have one: "define_one cl recs nm t ?m1 = (case emit_one t of Inl e \<Rightarrow> (?m1, Inl e)
      | Inr _ \<Rightarrow> (?m1\<lparr>made := made ?m1 @ [Define nm (calls recs t)]\<rparr>, Inr ()))"
    by (rule define_one_run [OF cl]) (use new(2) recs(1) in auto)
  show ?thesis
  proof (cases "emit_one t")
    case (Inl e)
    then show ?thesis using ok1 by (simp add: first one)
  next
    case (Inr u)
    let ?ds = "[Declare nm, Define nm (calls recs t)]"
    let ?m2 = "?m1\<lparr>made := made m @ ?ds\<rparr>" and ?m3 = "?m1\<lparr>made := made m @ ?ds @ [Finalize]\<rparr>"
    have "\<not> dangling (made ?m2)"
      using ok(2) order_trans [OF calls_names recs(2)] by (auto simp: dangling_iff)
    then have fin: "cl (made ?m2) Finalize" "\<not> dangling (made ?m3)"
      using cl unfolding lawful_def by (blast, simp add: dangling_iff)
    then have "ask cl Finalize ?m2 = (?m3, Inr ())" by (simp add: ask_ok)
    moreover have "orderly ?m3" by (rule orderly_grow [OF ok(1)]) (use new nm in auto)
    ultimately show ?thesis using Inr fin(2) by (intro exI [of _ ?m3]) (simp add: first one)
  qed
qed

lemma compile_in_run:
  assumes cl: "lawful cl" and ok: "tidy m" and c: "collect_cells n C t ({}, []) = Inr (seen, cells)"
    and room: "seq m + length cells + 1 < 2 ^ 32"
  defines "names \<equiv> (ascii ''parse_'' @ decimal (seq m + length cells + 1)) # rec_names (seq m) (length cells)"
  shows "\<exists>m' r. compile_in cl n C compiled t m = (m', r) \<and> orderly m'
    \<and> r = bindR (map_res (\<lambda>c. bindR (cell_get C c) emit_one) cells) (\<lambda>_. bindR (emit_one t) (\<lambda>_. Inr (announced compiled names)))
    \<and> (\<not> isl r \<longrightarrow> tidy m')"
proof -
  let ?names = "rec_names (seq m) (length cells)"
  let ?recs = "zip cells ?names"
  let ?m = "m\<lparr>seq := seq m + length cells, made := made m @ map Declare ?names\<rparr>"
  have o: "orderly m" "\<not> dangling (made m)" using ok by (simp_all add: tidy_def)
  have d: "declare_recs cl cells m = (?m, Inr ?recs)" by (rule declare_recs_run [OF cl o(1)]) (use room in simp)
  have z: "map fst ?recs = cells" "map snd ?recs = ?names" "snd ` set ?recs = set ?names"
    by (simp_all flip: set_map)
  note fresh = rec_names_fresh [OF o(1), where l = "length cells"]
  obtain ds r where ds: "define_recs cl C ?recs ?recs ?m = (?m\<lparr>made := made ?m @ ds\<rparr>, r)"
    "r = bindR (map_res (\<lambda>c. bindR (cell_get C c) emit_one) (map fst ?recs)) (\<lambda>_. Inr ())"
    "bodies (snd ` set ?recs) ds" "distinct (defined_in ds)" "set (defined_in ds) \<subseteq> snd ` set ?recs"
    "r = Inr () \<longrightarrow> defined_in ds = map snd ?recs"
    using define_recs_run [OF cl, of ?recs ?m ?recs C] fresh unfolding z by fastforce
  let ?m1 = "?m\<lparr>made := made m @ map Declare ?names @ ds\<rparr>"
  have ok1: "orderly ?m1"
    by (rule orderly_grow [OF o(1), where es = "map Declare ?names @ ds"]) (use fresh ds(4,5) bodies_declared [OF ds(3)] z(3) in auto)
  show ?thesis
  proof (cases r)
    case (Inl e)
    then show ?thesis using ok1 ds(1,2) unfolding z
      by (cases "map_res (\<lambda>c. bindR (cell_get C c) emit_one) cells") (simp_all add: compile_in_def c d)
  next
    case (Inr u)
    then have "set ?names \<subseteq> set (defined_in (made ?m1))" using ds(6) z by simp
    moreover from this have "\<not> dangling (made ?m1)"
      using dangling_append [OF _ ds(3), of "made m @ map Declare ?names"] o(2) z(3) by (auto simp: dangling_iff)
    ultimately obtain m' where m': "bindM (next_name ''parse_'' ?m1) (\<lambda>nm m. bindM (ask cl (Declare nm) m) (\<lambda>_ m.
        bindM (define_one cl ?recs nm t m) (\<lambda>_ m. bindM (ask cl Finalize m) (\<lambda>_ m. (m, Inr (announced compiled (nm # map snd ?recs)))))))
        = (m', bindR (emit_one t) (\<lambda>_. Inr (announced compiled names)))"
      "orderly m'" "emit_one t = Inr () \<longrightarrow> \<not> dangling (made m')"
      using finish_run [OF cl ok1, of ?recs t "\<lambda>nm. announced compiled (nm # map snd ?recs)"] room z
      by (auto simp: names_def)
    have "\<exists>ys. map_res (\<lambda>c. bindR (cell_get C c) emit_one) cells = Inr ys"
      using Inr ds(2) z(1) by (cases "map_res (\<lambda>c. bindR (cell_get C c) emit_one) cells") simp_all
    then show ?thesis using m' Inr ds(1) by (cases "emit_one t") (auto simp: compile_in_def c d tidy_def)
  qed
qed

text \<open>The names given out: as many as there are functions, and all new.\<close>

definition new_names :: "nat \<Rightarrow> nat \<Rightarrow> bytes list" where
  "new_names s l = (ascii ''parse_'' @ decimal (s + l + 1)) # rec_names s l"

lemma new_names_fresh:
  assumes "orderly m"
  shows "distinct (new_names (seq m) l)" and "length (new_names (seq m) l) = l + 1"
    and "set (new_names (seq m) l) \<inter> set (declared_in (made m)) = {}"
proof -
  let ?top = "ascii ''parse_'' @ decimal (seq m + l + 1)"
  have top: "fn_name (seq m + l + 1) ?top" by (simp add: fn_name_def)
  then have "?top \<notin> set (rec_names (seq m) l)" "?top \<notin> set (declared_in (made m))"
    using rec_names_fresh(4) [OF assms] fn_name_inj fresh_name(1) [OF assms _ top] by fastforce+
  then show "distinct (new_names (seq m) l)" "length (new_names (seq m) l) = l + 1"
    "set (new_names (seq m) l) \<inter> set (declared_in (made m)) = {}"
    using rec_names_fresh(1,2) [OF assms] by (auto simp: new_names_def)
qed

lemma compile_in_agrees_at:
  assumes cl: "lawful cl" and ok: "tidy m" and c: "collect_cells n C t ({}, []) = Inr (seen, cells)"
    and room: "seq m + length cells + 1 < 2 ^ 32"
  shows "\<exists>m' r. compile_in cl n C compiled t m = (m', r) \<and> orderly m'
    \<and> (case compile_parser n C F t of
         Inl e \<Rightarrow> r = Inl e
       | Inr _ \<Rightarrow> tidy m' \<and> r = Inr (announced compiled (new_names (seq m) (length cells))))"
proof -
  obtain m' r where run: "compile_in cl n C compiled t m = (m', r)" "orderly m'" "\<not> isl r \<longrightarrow> tidy m'"
    "r = bindR (map_res (\<lambda>c. bindR (cell_get C c) emit_one) cells) (\<lambda>_. bindR (emit_one t) (\<lambda>_.
       Inr (announced compiled (new_names (seq m) (length cells)))))"
    using compile_in_run [OF assms, of compiled] unfolding new_names_def by blast
  have "case compile_parser n C F t of Inl e \<Rightarrow> r = Inl e | Inr _ \<Rightarrow> r = Inr (announced compiled (new_names (seq m) (length cells)))"
    by (simp add: compile_parser_def c run(4) bindR_def split: sum.split)
  then show ?thesis using run(1-3) by (cases "compile_parser n C F t") auto
qed

text \<open>C21: compilations on one thread do not interfere: if every compilation before ended well, the next one panics exactly if the layout does not compile by itself, as long as the 32-bit counter does not overflow and cranelift keeps its promises; every cell and the parser get a name that was never used, the profiler is told of the parser first and then of the cells, and the module is again ready for the next one. After a failure too no name is ever used twice.\<close>

theorem compile_in_agrees:
  assumes "lawful cl" and "tidy m" and "closed C t" and "seq m + card (reachable C (set (ty_cells t))) + 1 < 2 ^ 32"
  shows "\<exists>N. \<forall>n \<ge> N. \<exists>m' r. compile_in cl n C compiled t m = (m', r) \<and> orderly m'
    \<and> (case compile_parser n C F t of
         Inl e \<Rightarrow> r = Inl e
       | Inr _ \<Rightarrow> tidy m' \<and> (\<exists>names. r = Inr (announced compiled names) \<and> distinct names
           \<and> length names = card (reachable C (set (ty_cells t))) + 1 \<and> set names \<inter> set (declared_in (made m)) = {}))"
proof -
  obtain cells where cells: "returns (\<lambda>n. collect_cells n C t ({}, [])) (set cells, cells)" "distinct cells"
    "set cells = reachable C (set (ty_cells t))"
    using collect_cells_all [OF assms(3)] by metis
  then have l: "card (reachable C (set (ty_cells t))) = length cells" by (metis distinct_card)
  have o: "orderly m" using assms(2) by (simp add: tidy_def)
  obtain N where N: "\<forall>n \<ge> N. collect_cells n C t ({}, []) = Inr (set cells, cells)"
    using cells(1) by (auto simp: returns_def)
  show ?thesis
  proof (intro exI [of _ N] allI impI)
    fix n assume "N \<le> n"
    with N have c: "collect_cells n C t ({}, []) = Inr (set cells, cells)" by blast
    show "\<exists>m' r. compile_in cl n C compiled t m = (m', r) \<and> orderly m'
      \<and> (case compile_parser n C F t of
           Inl e \<Rightarrow> r = Inl e
         | Inr _ \<Rightarrow> tidy m' \<and> (\<exists>names. r = Inr (announced compiled names) \<and> distinct names
             \<and> length names = card (reachable C (set (ty_cells t))) + 1 \<and> set names \<inter> set (declared_in (made m)) = {}))"
      using compile_in_agrees_at [OF assms(1,2) c assms(4) [unfolded l], of compiled F] new_names_fresh [OF o, of "length cells"]
      unfolding l by (fastforce split: sum.splits)
  qed
qed

lemma new_module_tidy:
  assumes "lawful cl"
  obtains m where "new_module cl = (m, Inr ())" "tidy m" "seq m = 0"
proof -
  have run: "ask_all cl (map Declare nms) m = (m\<lparr>made := made m @ map Declare nms\<rparr>, Inr ())"
    if "distinct nms" "set nms \<inter> set (declared_in (made m)) = {}" for nms m
    using that
  proof (induction nms arbitrary: m)
    case (Cons nm nms)
    then have "cl (made m) (Declare nm)" using assms unfolding lawful_def by simp
    then show ?case using Cons.prems Cons.IH [of "m\<lparr>made := made m @ [Declare nm]\<rparr>"] by (simp add: ask_ok)
  qed simp
  have d: "distinct shim_names" by (simp add: shim_names_def ascii_def)
  let ?m = "\<lparr>made = map Declare shim_names, seq = 0\<rparr>"
  have "new_module cl = (?m, Inr ())" using run [OF d, of "\<lparr>made = [], seq = 0\<rparr>"] by (simp add: new_module_def)
  moreover have "tidy ?m" using d by (auto simp: tidy_def orderly_def dangling_iff)
  ultimately show thesis using that by simp
qed

text \<open>A module that refuses every other call is lawful.\<close>

definition strict_cranelift :: cranelift where
  "strict_cranelift es e = (case e of
      Declare nm \<Rightarrow> nm \<notin> set (declared_in es)
    | Define nm cs \<Rightarrow> nm \<in> set (declared_in es) \<and> nm \<notin> set (defined_in es) \<and> set cs \<subseteq> set (declared_in es)
    | Finalize \<Rightarrow> \<not> dangling es)"

definition list_cells :: "cell_id \<rightharpoonup> ty" where
  "list_cells = [0 \<mapsto> TStruct [] [Field [65] 0 (TBoxed (TRef 0) 8 8)]]"

theorem compile_in_agrees_witness:
  "\<exists>m N. new_module strict_cranelift = (m, Inr ()) \<and>
     (\<forall>n \<ge> N. \<exists>m' rs. compile_in strict_cranelift n list_cells (\<lambda>_. (4096, [0xC3])) (TRef 0) m = (m', Inr rs) \<and> tidy m')"
proof -
  have l: "lawful strict_cranelift" by (simp add: lawful_def strict_cranelift_def)
  then obtain m where m: "new_module strict_cranelift = (m, Inr ())" "tidy m" "seq m = 0" by (rule new_module_tidy)
  have e: "cell_edges list_cells = {(0, 0)}"
    by (auto simp: list_cells_def cell_edges_def ty_cells.simps split: if_splits)
  have c: "closed list_cells (TRef 0)"
    by (auto simp: list_cells_def closed_def ty_cells.simps split: if_splits)
  have r: "reachable list_cells (set (ty_cells (TRef 0))) \<subseteq> {0}"
  proof
    fix c assume "c \<in> reachable list_cells (set (ty_cells (TRef 0)))"
    then have "(0, c) \<in> {(0, 0)}\<^sup>*" by (simp add: reachable_def e)
    then show "c \<in> {0}" by (induction rule: rtrancl_induct) simp_all
  qed
  have "card (reachable list_cells (set (ty_cells (TRef 0)))) \<le> 1" using card_mono [OF _ r] by simp
  then have room: "seq m + card (reachable list_cells (set (ty_cells (TRef 0)))) + 1 < 2 ^ 32" using m(3) by simp
  have p: "\<exists>p. compile_parser n list_cells sample_ops (TRef 0) = Inr p" if "4 \<le> n" for n
  proof -
    obtain k where "n = 4 + k" using \<open>4 \<le> n\<close> le_Suc_ex by blast
    then have "collect_cells n list_cells (TRef 0) ({}, []) = Inr ({0}, [0])"
      by (simp add: collect_cells.simps cell_get_def list_cells_def eval_nat_numeral)
    then show ?thesis by (simp add: compile_parser_def list_cells_def cell_get_def emit_one_def known.simps)
  qed
  obtain N where N: "\<forall>n \<ge> N. \<exists>m' r. compile_in strict_cranelift n list_cells (\<lambda>_. (4096, [0xC3])) (TRef 0) m = (m', r) \<and> orderly m'
    \<and> (case compile_parser n list_cells sample_ops (TRef 0) of Inl e \<Rightarrow> r = Inl e
       | Inr _ \<Rightarrow> tidy m' \<and> (\<exists>names. r = Inr (announced (\<lambda>_. (4096, [0xC3])) names) \<and> distinct names
           \<and> length names = card (reachable list_cells (set (ty_cells (TRef 0)))) + 1 \<and> set names \<inter> set (declared_in (made m)) = {}))"
    using compile_in_agrees [OF l m(2) c room, of "\<lambda>_. (4096, [0xC3])" sample_ops] by blast
  have "\<exists>m' rs. compile_in strict_cranelift n list_cells (\<lambda>_. (4096, [0xC3])) (TRef 0) m = (m', Inr rs) \<and> tidy m'"
    if "N + 4 \<le> n" for n
    using N [rule_format, of n] p [of n] that by fastforce
  then show ?thesis using m(1) by blast
qed

end
