(* ===== verification/Locals_Props.thy ===== *)
theory Locals_Props
  imports Locals Plan
begin

unbundle bit_operations_syntax

text \<open>
  Properties of the search for the aliased local: signed LEB128 decoding inverts the encoding of
  the DWARF standard, an address expression evaluates to base plus offset, and the walk with its
  mutable state selects what a search over the flat list of locals selects.
\<close>

lemma map_res_append: "map_res f (xs @ ys) = bindR (map_res f xs) (\<lambda>as. bindR (map_res f ys) (\<lambda>bs. Inr (as @ bs)))"
  by (induction xs) (simp_all add: bindR_assoc bindR_def split: sum.splits)

section \<open>Signed LEB128\<close>

text \<open>The encoding of the DWARF standard: seven bits per byte, least significant first, sign in bit 6 of the last.\<close>

function sleb_encode :: "int \<Rightarrow> bytes" where
  "sleb_encode k =
     (if - 64 \<le> k \<and> k < 64 then [word_of_int (k mod 128)]
      else word_of_int (k mod 128 + 128) # sleb_encode (k div 128))"
  by pat_completeness auto
termination
  by (relation "measure (\<lambda>k. nat (if 0 \<le> k then k else - k))") auto

declare sleb_encode.simps [simp del]

lemma byte_bits:
  assumes "0 \<le> k" and "k < 128"
  shows "(word_of_int k :: byte) AND 0x7F = word_of_int k" and "(word_of_int k :: byte) AND 0x80 = 0"
    and "(word_of_int (k + 128) :: byte) AND 0x7F = word_of_int k" and "(word_of_int (k + 128) :: byte) AND 0x80 \<noteq> 0"
    and "(word_of_int k :: byte) AND 0x40 \<noteq> 0 \<longleftrightarrow> 64 \<le> k"
proof -
  have all: "\<forall>k \<in> {0..<128::nat}. (word_of_nat k :: byte) AND 0x7F = word_of_nat k
      \<and> (word_of_nat k :: byte) AND 0x80 = 0 \<and> (word_of_nat (k + 128) :: byte) AND 0x7F = word_of_nat k
      \<and> (word_of_nat (k + 128) :: byte) AND 0x80 \<noteq> 0 \<and> ((word_of_nat k :: byte) AND 0x40 \<noteq> 0 \<longleftrightarrow> 64 \<le> k)"
    by code_simp
  have "nat k \<in> {0..<128}" using assms by auto
  from bspec [OF all this] assms
  show "(word_of_int k :: byte) AND 0x7F = word_of_int k" "(word_of_int k :: byte) AND 0x80 = 0"
    "(word_of_int (k + 128) :: byte) AND 0x7F = word_of_int k" "(word_of_int (k + 128) :: byte) AND 0x80 \<noteq> 0"
    "(word_of_int k :: byte) AND 0x40 \<noteq> 0 \<longleftrightarrow> 64 \<le> k"
    by (simp_all add: le_nat_iff)
qed

lemma or_shift:
  fixes r x :: u64
  assumes "unat r < 2 ^ k"
  shows "r OR push_bit k x = r + push_bit k x"
proof (rule disjunctive_add_eq_or [symmetric])
  have "unat (take_bit k r) = unat r" using assms by (simp add: unsigned_take_bit_eq take_bit_nat_eq_self_iff)
  then have "take_bit k r = r" by (simp only: word_unat_eq_iff)
  then have low: "bit r n \<Longrightarrow> n < k" for n by (metis bit_take_bit_iff)
  show "r AND push_bit k x = 0"
    by (rule bit_eqI) (auto simp: bit_and_iff bit_push_bit_iff dest: low)
qed

lemma unat_add_shift:
  fixes r x :: u64
  assumes "unat r < 2 ^ k" and "unat x < 128" and "k + 7 \<le> 63"
  shows "unat (r + push_bit k x) < 2 ^ (k + 7)"
proof -
  have p: "(2 :: nat) ^ (k + 7) \<le> 2 ^ 63" using assms(3) by (intro power_increasing) auto
  have "2 ^ k * (unat x + 1) \<le> 2 ^ k * 128" using assms(2) by (intro mult_le_mono2) simp
  also have "2 ^ k * 128 = (2 :: nat) ^ (k + 7)" by (simp add: power_add)
  finally have "2 ^ k * unat x + 2 ^ k \<le> (2 :: nat) ^ (k + 7)" by (simp only: distrib_left mult_1_right)
  then have lt: "unat r + 2 ^ k * unat x < 2 ^ (k + 7)" using assms(1) by linarith
  have "r + push_bit k x = word_of_nat (unat r + 2 ^ k * unat x)" by (simp add: push_bit_eq_mult mult.commute)
  moreover have "unat (word_of_nat m :: u64) = m" if "m < 2 ^ 63" for m using that by (simp add: unat_of_nat)
  ultimately show ?thesis using lt p by (metis less_le_trans)
qed

lemma sleb_loop_step:
  assumes "i < length b" and "s < 64" and r: "unat r < 2 ^ s" and x: "0 \<le> x" "x < 128"
  shows "b ! i = word_of_int (x + 128) \<Longrightarrow>
      sleb_loop b r s i = sleb_loop b (r + push_bit s (word_of_int x)) (s + 7) (i + 1)"
    and "b ! i = word_of_int x \<Longrightarrow> sleb_loop b r s i
      = (if s + 7 < 64 \<and> 64 \<le> x
         then Inr ((r + push_bit s (word_of_int x)) OR push_bit (s + 7) (- 1), i + 1)
         else Inr (r + push_bit s (word_of_int x), i + 1))"
proof -
  have u: "ucast (word_of_int x :: byte) = (word_of_int x :: u64)"
    using x by (simp add: unsigned_of_int take_bit_int_eq_self flip: word_of_int_uint)
  note bb = byte_bits [OF x]
  show "b ! i = word_of_int (x + 128) \<Longrightarrow>
      sleb_loop b r s i = sleb_loop b (r + push_bit s (word_of_int x)) (s + 7) (i + 1)"
    by (subst sleb_loop.simps) (use assms(1,2) in \<open>simp only: bb shl64_def u Let_def if_True if_False bindR_Inr or_shift [OF r]\<close>)
  show "b ! i = word_of_int x \<Longrightarrow> sleb_loop b r s i
      = (if s + 7 < 64 \<and> 64 \<le> x
         then Inr ((r + push_bit s (word_of_int x)) OR push_bit (s + 7) (- 1), i + 1)
         else Inr (r + push_bit s (word_of_int x), i + 1))"
    by (subst sleb_loop.simps) (use assms(1,2) in \<open>simp add: bb shl64_def u Let_def or_shift [OF r]\<close>)
qed

lemma shift_word: "push_bit s (word_of_int x :: u64) = word_of_int (2 ^ s * x)"
  by (simp add: push_bit_eq_mult mult.commute)

lemma sleb_loop_encode:
  "b = pre @ sleb_encode k @ rest \<Longrightarrow> s = 7 * j \<Longrightarrow> j \<le> 9 \<Longrightarrow> unat r < 2 ^ s \<Longrightarrow>
   - (2 ^ (63 - s)) \<le> k \<Longrightarrow> k < 2 ^ (63 - s) \<Longrightarrow>
   sleb_loop b r s (length pre) = Inr (r + push_bit s (word_of_int k), length pre + length (sleb_encode k))"
proof (induction k arbitrary: pre s r j rule: sleb_encode.induct)
  case (1 k)
  define x where "x = k mod 128"
  have x: "0 \<le> x" "x < 128" and kx: "k = x + 128 * (k div 128)" by (auto simp: x_def)
  have s64: "s < 64" using 1 by simp
  show ?case
  proof (cases "- 64 \<le> k \<and> k < 64")
    case True
    then have enc: "sleb_encode k = [word_of_int x]" by (simp add: sleb_encode.simps x_def)
    then have b: "length pre < length b" "b ! length pre = word_of_int x" using 1(2) by simp_all
    note step = sleb_loop_step(2) [OF b(1) s64 1(5) x b(2)]
    have neg: "64 \<le> x \<longleftrightarrow> k < 0" "k < 0 \<Longrightarrow> x = k + 128" "0 \<le> k \<Longrightarrow> x = k"
      using True unfolding x_def by presburger+
    have sum: "push_bit s (word_of_int x) + push_bit (s + 7) (- 1) = (push_bit s (word_of_int k) :: u64)" if "k < 0"
    proof -
      have "(2 :: int) ^ s * x + 2 ^ (s + 7) * (- 1) = 2 ^ s * k" using neg(2) [OF that] by (simp add: power_add algebra_simps)
      then show ?thesis using shift_word [of s x] shift_word [of "s + 7" "- 1"] shift_word [of s k]
        by (metis of_int_add of_int_minus of_int_1)
    qed
    show ?thesis
    proof (cases "s + 7 < 64 \<and> k < 0")
      case True
      then have "s + 7 \<le> 63" by simp
      have "unat (word_of_int x :: u64) < 128"
        using x by (simp add: unsigned_of_int take_bit_int_eq_self)
      from unat_add_shift [OF 1(5) this \<open>s + 7 \<le> 63\<close>]
      have "(r + push_bit s (word_of_int x)) OR push_bit (s + 7) (- 1)
          = r + push_bit s (word_of_int x) + push_bit (s + 7) (- 1)" by (rule or_shift)
      then show ?thesis using step True neg(1) sum enc by (simp add: add.assoc)
    next
      case False
      moreover have "s + 7 < 64 \<or> s = 63" using 1(3,4) by presburger
      ultimately consider "0 \<le> k" | "s = 63" "k < 0" by linarith
      then show ?thesis
      proof cases
        case 1
        then show ?thesis using step neg enc by simp
      next
        case 2
        have "(2 :: int) ^ 63 * x = 2 ^ 63 * k + 2 ^ 64 * 64" using neg(2) [OF 2(2)] by simp
        then have "(word_of_int (2 ^ 63 * x) :: u64) = word_of_int (2 ^ 63 * k)"
          by (simp add: word_of_int_eq_iff take_bit_eq_mod)
        then have "push_bit s (word_of_int x) = (push_bit s (word_of_int k) :: u64)"
          unfolding shift_word 2(1) .
        then show ?thesis using step enc 2 by simp
      qed
    qed
  next
    case False
    then have enc: "sleb_encode k = word_of_int (x + 128) # sleb_encode (k div 128)"
      by (subst sleb_encode.simps) (simp add: x_def)
    then have b: "length pre < length b" "b ! length pre = word_of_int (x + 128)" using 1(2) by simp_all
    have "j \<noteq> 9" using False 1(3,6,7) by auto
    then have s7: "s + 7 = 7 * (j + 1)" "j + 1 \<le> 9" "s + 7 \<le> 63" using 1(3,4) by simp_all
    then have "63 - s = 7 + (63 - (s + 7))" by simp
    then have pow: "(2 :: int) ^ (63 - s) = 128 * 2 ^ (63 - (s + 7))" by (simp only: power_add) simp
    have q: "- (2 ^ (63 - (s + 7))) \<le> k div 128" "k div 128 < 2 ^ (63 - (s + 7))"
      using 1(6,7) unfolding pow by simp_all
    have "unat (word_of_int x :: u64) < 128" using x by (simp add: unsigned_of_int take_bit_int_eq_self)
    note r = unat_add_shift [OF 1(5) this s7(3)]
    have "b = (pre @ [word_of_int (x + 128)]) @ sleb_encode (k div 128) @ rest" using 1(2) enc by simp
    note ih = 1(1) [OF False this s7(1,2) r q]
    have "(2 :: int) ^ s * x + 2 ^ (s + 7) * (k div 128) = 2 ^ s * k"
      using arg_cong [OF kx, of "\<lambda>y. 2 ^ s * y"] by (simp only: power_add distrib_left mult.assoc) simp
    then have "push_bit s (word_of_int x) + push_bit (s + 7) (word_of_int (k div 128)) = (push_bit s (word_of_int k) :: u64)"
      unfolding shift_word by (metis of_int_add)
    then show ?thesis
      using ih sleb_loop_step(1) [OF b(1) s64 1(5) x b(2)] enc by (simp add: add.assoc)
  qed
qed

text \<open>C24: signed LEB128 round trip: decoding what the DWARF standard encodes gives the number back, as the 64-bit word the code computes with, for every 64-bit signed number, and the decoder reports exactly the bytes it used, whatever follows them.\<close>

theorem sleb128_decodes:
  assumes "- (2 ^ 63) \<le> k" and "k < 2 ^ 63"
  shows "sleb128 (sleb_encode k @ rest) = Inr (word_of_int k, length (sleb_encode k))"
  using sleb_loop_encode [of "sleb_encode k @ rest" "[]" k rest 0 0 0] assms
  by (simp add: sleb128_def)

theorem sleb128_decodes_witness: "sleb128 [0x80, 0x7F, 0x9C] = Inr (- 128, 2)"
  using sleb128_decodes [of "- 128" "[0x9C]"] by (simp add: sleb_encode.simps)


text \<open>An address expression: opcode and encoded offset; anything after the offset is refused.\<close>

lemma eval_addr_offset:
  assumes "- (2 ^ 63) \<le> k" and "k < 2 ^ 63"
  shows "eval_addr P (x # sleb_encode k @ rest) r
    = (if x = 0x91 then Inr (if rest = [] then Some (frame_base r + word_of_int k) else None)
       else if x = 0x9C then Inr (Some (sp r))
       else if x = OP_BREG_FP P then Inr (if rest = [] then Some (fp r + word_of_int k) else None)
       else if x = OP_BREG_SP P then Inr (if rest = [] then Some (sp r + word_of_int k) else None)
       else Inr None)"
  using sleb_loop_encode [of "sleb_encode k @ rest" "[]" k rest 0 0 0] assms
  by (simp add: eval_addr_def sleb128_def)

section \<open>The walk, against a search over a list\<close>

text \<open>
  The declarative reading of the source's comments. \<open>locals\<close> lists the typed variables and
  parameters in the order of the entries, descending into lexical blocks and inlined subroutines
  down to depth 32; \<open>pick_local\<close> picks the target among them.
\<close>

record local_info =
  l_name :: bytes
  l_type :: nat
  l_tname :: bytes
  l_addr :: "u64 option"

definition describe :: "nat \<Rightarrow> hunt_env \<Rightarrow> nat \<Rightarrow> local_info option res" where
  "describe n E off =
     bindR (name_or_empty n (h_unit E) off) (\<lambda>name.
     bindR (type_ref n (h_unit E) off) (\<lambda>ty.
     bindR (type_name n (h_unit E) ty) (\<lambda>tn.
     bindR (addr_of E off) (\<lambda>addr.
       Inr (map_option (\<lambda>t. \<lparr>l_name = name, l_type = t, l_tname = tn, l_addr = addr\<rparr>) ty)))))"

function walk :: "dunit \<Rightarrow> nat \<Rightarrow> nat \<Rightarrow> nat list res" and walk_kids :: "dunit \<Rightarrow> nat list \<Rightarrow> nat \<Rightarrow> nat list res" where
  "walk u parent depth =
     (if 32 < depth then Inr [] else bindR (child_offsets u parent) (\<lambda>offs. walk_kids u offs depth))"
| "walk_kids u [] depth = Inr []"
| "walk_kids u (off # offs) depth =
     (if 32 < depth then Inr []
      else bindR (tag u off) (\<lambda>t.
           bindR (if t \<in> {DW_TAG_lexical_block, DW_TAG_inlined_subroutine} then walk u off (depth + 1)
                  else if t \<in> {DW_TAG_variable, DW_TAG_formal_parameter} then Inr [off] else Inr []) (\<lambda>xs.
           bindR (walk_kids u offs depth) (\<lambda>ys. Inr (xs @ ys)))))"
  by pat_completeness auto
termination
  by (relation "measures [\<lambda>x. case x of Inl (u, p, depth) \<Rightarrow> 33 - depth | Inr (u, offs, depth) \<Rightarrow> 33 - depth,
      \<lambda>x. case x of Inl _ \<Rightarrow> 1 | Inr _ \<Rightarrow> 0,
      \<lambda>x. case x of Inl _ \<Rightarrow> 0 | Inr (u, offs, depth) \<Rightarrow> length offs]") auto

declare walk.simps [simp del]

definition locals :: "nat \<Rightarrow> hunt_env \<Rightarrow> nat \<Rightarrow> local_info list res" where
  "locals n E sub = bindR (walk (h_unit E) sub 0) (\<lambda>offs.
     bindR (map_res (describe n E) offs) (\<lambda>ls. Inr (map the (filter (\<lambda>x. x \<noteq> None) ls))))"

abbreviation target :: "local_info \<Rightarrow> local" where
  "target l \<equiv> (l_name l, l_type l)"

definition pick_local :: "u64 \<Rightarrow> local_info list \<Rightarrow> local option" where
  "pick_local ptr ls =
     (let here = filter (\<lambda>l. l_addr l = Some ptr) ls;
          mus = filter (\<lambda>l. is_maybe_uninit (l_tname l)) ls in
      case filter (\<lambda>l. is_maybe_uninit (l_tname l)) here of
        l # _ \<Rightarrow> Some (target l)
      | [] \<Rightarrow> (case here of
          l # _ \<Rightarrow> Some (target l)
        | [] \<Rightarrow> (case mus of
            l # _ \<Rightarrow> (if \<forall>l' \<in> set mus. l_tname l' = l_tname l then Some (target l) else None)
          | [] \<Rightarrow> None)))"

text \<open>One local at a time: the loop body on its description.\<close>

fun step_local :: "u64 \<Rightarrow> local_info option \<Rightarrow> hunt \<Rightarrow> local option \<times> hunt" where
  "step_local ptr None h = (None, h)"
| "step_local ptr (Some l) h =
     (if l_addr l = Some ptr \<and> is_maybe_uninit (l_tname l) then (Some (target l), h)
      else (None, h\<lparr>fallback := (if l_addr l = Some ptr \<and> fallback h = None then Some (target l) else fallback h),
                   mu := mu h @ (if is_maybe_uninit (l_tname l) then [(l_name l, l_tname l, l_type l)] else [])\<rparr>))"

fun steps_local :: "u64 \<Rightarrow> local_info option list \<Rightarrow> hunt \<Rightarrow> local option \<times> hunt" where
  "steps_local ptr [] h = (None, h)"
| "steps_local ptr (l # ls) h =
     (case step_local ptr l h of (Some hit, h) \<Rightarrow> (Some hit, h) | (None, h) \<Rightarrow> steps_local ptr ls h)"

lemma visit_describe:
  "describe n E off = Inr l \<Longrightarrow> visit n E off h = Inr (step_local (h_ptr E) l h)"
  by (auto simp: describe_def visit_def bindR_eq_Inr Let_def split: option.splits)

lemma steps_local_append:
  "steps_local ptr (xs @ ys) h
   = (case steps_local ptr xs h of (Some hit, h) \<Rightarrow> (Some hit, h) | (None, h) \<Rightarrow> steps_local ptr ys h)"
  by (induction xs arbitrary: h) (auto split: prod.splits option.splits)


lemma scan_walk:
  "walk (h_unit E) p depth = Inr offs \<Longrightarrow> map_res (describe n E) offs = Inr ls \<Longrightarrow>
     scan n E p depth h = Inr (steps_local (h_ptr E) ls h)"
  "walk_kids (h_unit E) os depth = Inr offs \<Longrightarrow> map_res (describe n E) offs = Inr ls \<Longrightarrow>
     scan_kids n E os depth h = Inr (steps_local (h_ptr E) ls h)"
proof (induction n E p depth h and n E os depth h arbitrary: offs ls and offs ls rule: scan_scan_kids.induct)
  case (1 n E p depth h)
  then show ?case
    by (auto simp: walk.simps [of _ p] scan.simps bindR_eq_Inr)
next
  case (2 n E depth h)
  then show ?case by auto
next
  case (3 n E off os depth h)
  show ?case
  proof (cases "32 < depth")
    case True
    then show ?thesis using 3(5,6) by auto
  next
    case False
    from 3(5) False obtain t xs ys where t: "tag (h_unit E) off = Inr t"
      and xs: "(if t \<in> {DW_TAG_lexical_block, DW_TAG_inlined_subroutine} then walk (h_unit E) off (depth + 1)
                else if t \<in> {DW_TAG_variable, DW_TAG_formal_parameter} then Inr [off] else Inr []) = Inr xs"
      and ys: "walk_kids (h_unit E) os depth = Inr ys" and offs: "offs = xs @ ys"
      by (auto simp: bindR_eq_Inr)
    obtain ls1 ls2 where ls1: "map_res (describe n E) xs = Inr ls1" and ls2: "map_res (describe n E) ys = Inr ls2"
      and ls: "ls = ls1 @ ls2"
      using 3(6) unfolding offs map_res_append by (auto simp: bindR_eq_Inr)
    consider "t \<in> {DW_TAG_lexical_block, DW_TAG_inlined_subroutine}"
      | "t \<in> {DW_TAG_variable, DW_TAG_formal_parameter}"
      | "t \<notin> {DW_TAG_lexical_block, DW_TAG_inlined_subroutine, DW_TAG_variable, DW_TAG_formal_parameter}" by auto
    then show ?thesis
    proof cases
      case 1
      then have "walk (h_unit E) off (depth + 1) = Inr xs" using xs by simp
      from 3(1) [OF False t _ this ls1] 1
      have sc: "scan n E off (depth + 1) h = Inr (steps_local (h_ptr E) ls1 h)" by auto
      show ?thesis
        using 3(2) [OF False t _ sc _ _ ys ls2] 1 False t sc unfolding ls steps_local_append
        by (auto split: prod.splits option.splits)
    next
      case 2
      then have "xs = [off]" using xs by auto
      then obtain l where l: "describe n E off = Inr l" "ls1 = [l]" using ls1 by (auto simp: bindR_eq_Inr)
      note v = visit_describe [OF l(1), of h]
      show ?thesis
        using 3(3) [OF False t _ _ v _ _ ys ls2] 2 False t v unfolding ls l(2) steps_local_append
        by (auto split: prod.splits option.splits)
    next
      case 3
      then have "ls1 = []" using xs ls1 by auto
      then show ?thesis using "3.IH"(4) [OF False t _ _ ys ls2] 3 False t ls by auto
    qed
  qed
qed

lemma steps_local_result:
  "steps_local ptr ls h = (hit, h') \<Longrightarrow> ls' = map the (filter (\<lambda>x. x \<noteq> None) ls) \<Longrightarrow>
   hit = (case filter (\<lambda>l. is_maybe_uninit (l_tname l)) (filter (\<lambda>l. l_addr l = Some ptr) ls') of
            [] \<Rightarrow> None | l # _ \<Rightarrow> Some (target l))
   \<and> (hit = None \<longrightarrow>
        h' = \<lparr>fallback = (case fallback h of Some l \<Rightarrow> Some l
               | None \<Rightarrow> (case filter (\<lambda>l. l_addr l = Some ptr) ls' of [] \<Rightarrow> None | l # _ \<Rightarrow> Some (target l))),
              mu = mu h @ map (\<lambda>l. (l_name l, l_tname l, l_type l)) (filter (\<lambda>l. is_maybe_uninit (l_tname l)) ls')\<rparr>)"
proof (induction ls arbitrary: h ls')
  case Nil
  then show ?case by (cases h) (simp split: option.splits)
next
  case (Cons x xs)
  show ?case
  proof (cases x)
    case None
    then show ?thesis using Cons by simp
  next
    case (Some l)
    show ?thesis
    proof (cases "l_addr l = Some ptr \<and> is_maybe_uninit (l_tname l)")
      case True
      then show ?thesis using Cons.prems Some by auto
    next
      case False
      then have "step_local ptr x h = (None, snd (step_local ptr x h))"
        unfolding Some by (simp only: step_local.simps if_not_P snd_conv if_False)
      then have "steps_local ptr xs (snd (step_local ptr x h)) = (hit, h')"
        using Cons.prems(1) unfolding steps_local.simps by (metis case_prod_conv option.simps(4))
      from Cons.IH [OF this refl] show ?thesis
        using False Some Cons.prems(2) by (cases "fallback h") (simp_all split: list.splits if_splits)
    qed
  qed
qed

lemma remdups_single: "(\<exists>x. remdups xs = [x]) \<longleftrightarrow> (case xs of [] \<Rightarrow> False | y # ys \<Rightarrow> \<forall>z \<in> set ys. z = y)"
proof (cases xs)
  case (Cons y ys)
  have "(\<exists>x. remdups xs = [x]) \<longleftrightarrow> (\<exists>x. set xs = {x})"
  proof
    assume "\<exists>x. remdups xs = [x]"
    then obtain x where "remdups xs = [x]" ..
    then have "set (remdups xs) = {x}" by simp
    then show "\<exists>x. set xs = {x}" by auto
  next
    assume "\<exists>x. set xs = {x}"
    then have "length (remdups xs) = 1" by (auto simp: length_remdups_card_conv)
    then show "\<exists>x. remdups xs = [x]" by (auto simp: length_Suc_conv)
  qed
  then show ?thesis using Cons by auto
qed simp

lemma case_single: "(case xs of [_] \<Rightarrow> a | _ \<Rightarrow> b) = (if \<exists>x. xs = [x] then a else b)"
  by (auto split: list.splits)

lemma sole_maybe_uninit_map:
  "sole_maybe_uninit \<lparr>fallback = f, mu = map (\<lambda>l. (l_name l, l_tname l, l_type l)) ls\<rparr>
   = (case ls of [] \<Rightarrow> None | l # _ \<Rightarrow> if \<forall>l' \<in> set ls. l_tname l' = l_tname l then Some (target l) else None)"
proof -
  have "(\<exists>x. remdups (map l_tname ls) = [x]) \<longleftrightarrow> (case ls of [] \<Rightarrow> False | l # _ \<Rightarrow> \<forall>l' \<in> set ls. l_tname l' = l_tname l)"
    unfolding remdups_single by (auto split: list.splits)
  moreover have "map (fst \<circ> snd) (map (\<lambda>l. (l_name l, l_tname l, l_type l)) ls) = map l_tname ls" by simp
  ultimately show ?thesis
    unfolding sole_maybe_uninit_def hunt.select_convs
    by (simp only: case_single) (cases ls; simp)
qed

text \<open>C12: the search for the aliased local does what its comments say. Whenever the tree of the subprogram can be walked and its locals described (no dangling references, no malformed LEB128), \<^verbatim>\<open>local_at_address\<close> returns the first \<^verbatim>\<open>MaybeUninit\<close> local whose address is \<^verbatim>\<open>ptr\<close>; if there is none, the first local of any type at that address; if nothing is there, the first \<^verbatim>\<open>MaybeUninit\<close> local, provided all of them have the same type name.\<close>

theorem local_at_address_picks:
  assumes "attr_of u sub DW_AT_frame_base = Some (Exprloc e)"
    and "frame_base_of P e caller_fp caller_sp = Inr (Some base)"
    and "E = \<lparr>h_regs = P, h_unit = u, h_vals = \<lparr>fp = caller_fp, sp = caller_sp, frame_base = base\<rparr>, h_pc = pc, h_ptr = ptr\<rparr>"
    and "locals n E sub = Inr ls"
  shows "local_at_address n P u sub caller_fp caller_sp pc ptr = Inr (pick_local ptr ls)"
proof -
  obtain offs ds where offs: "walk (h_unit E) sub 0 = Inr offs" and ds: "map_res (describe n E) offs = Inr ds"
    and ls: "ls = map the (filter (\<lambda>x. x \<noteq> None) ds)"
    using assms(4) by (auto simp: locals_def bindR_eq_Inr)
  have sc: "scan n E sub 0 no_hunt = Inr (steps_local ptr ds no_hunt)"
    using scan_walk(1) [OF offs ds] assms(3) by simp
  obtain hit h where st: "steps_local ptr ds no_hunt = (hit, h)" by force
  have la: "local_at_address n P u sub caller_fp caller_sp pc ptr = Inr (case hit of
      Some l \<Rightarrow> Some l | None \<Rightarrow> (case fallback h of Some l \<Rightarrow> Some l | None \<Rightarrow> sole_maybe_uninit h))"
    using sc st assms(1,2,3) by (simp add: local_at_address_def)
  note s = steps_local_result [OF st ls]
  show ?thesis
  proof (cases hit)
    case None
    define mus where "mus = filter (\<lambda>l. is_maybe_uninit (l_tname l)) ls"
    have h: "h = \<lparr>fallback = fallback h, mu = map (\<lambda>l. (l_name l, l_tname l, l_type l)) mus\<rparr>"
      using s None unfolding no_hunt_def mus_def by simp
    have sole: "sole_maybe_uninit h = (case mus of [] \<Rightarrow> None
        | l # _ \<Rightarrow> if \<forall>l' \<in> set mus. l_tname l' = l_tname l then Some (target l) else None)"
      by (subst h) (rule sole_maybe_uninit_map)
    have fb: "fallback h = (case filter (\<lambda>l. l_addr l = Some ptr) ls of [] \<Rightarrow> None | l # _ \<Rightarrow> Some (target l))"
      using s None by (simp add: no_hunt_def)
    show ?thesis using conjunct1 [OF s] None
      unfolding la pick_local_def Let_def mus_def [symmetric] sole fb
      by (auto split: list.splits)
  next
    case (Some l)
    then show ?thesis using s unfolding la pick_local_def Let_def by (auto split: list.splits)
  qed
qed

text \<open>A frame with a buffer at \<open>SP + 16\<close> inside a lexical block, and a number elsewhere.\<close>

definition frame_unit :: dunit where
  "frame_unit =
     Die 1 (DW_TAG_other 17) [] []
       [Die 2 DW_TAG_base_type [(DW_AT_name, StrVal [117, 56])] [] [],
        Die 3 DW_TAG_subprogram [(DW_AT_frame_base, Exprloc [0x9C])] [(100, 200)]
          [Die 4 DW_TAG_variable [(DW_AT_name, StrVal [97]), (DW_AT_type, UnitRef 2), (DW_AT_location, Exprloc [0x91, 8])] [] [],
           Die 5 DW_TAG_lexical_block [] []
             [Die 6 DW_TAG_variable [(DW_AT_name, StrVal [98]), (DW_AT_type, UnitRef 2), (DW_AT_location, Exprloc [0x91, 16])] [] []]]]"

abbreviation frame_env :: hunt_env where
  "frame_env \<equiv> \<lparr>h_regs = linux_regs, h_unit = frame_unit,
     h_vals = \<lparr>fp = 0, sp = 1000, frame_base = 1000\<rparr>, h_pc = 150, h_ptr = 1016\<rparr>"

lemma frame_locals:
  "locals 3 frame_env 3 = Inr [\<lparr>l_name = [97], l_type = 2, l_tname = [117, 56], l_addr = Some 1008\<rparr>,
     \<lparr>l_name = [98], l_type = 2, l_tname = [117, 56], l_addr = Some 1016\<rparr>]"
  by code_simp

theorem local_at_address_picks_witness:
  "local_at_address 3 linux_regs frame_unit 3 0 1000 150 1016
   = Inr (pick_local 1016 [\<lparr>l_name = [97], l_type = 2, l_tname = [117, 56], l_addr = Some 1008\<rparr>,
       \<lparr>l_name = [98], l_type = 2, l_tname = [117, 56], l_addr = Some 1016\<rparr>])"
proof (rule local_at_address_picks [OF _ _ refl frame_locals])
  show "attr_of frame_unit 3 DW_AT_frame_base = Some (Exprloc [0x9C])" by code_simp
  show "frame_base_of linux_regs [0x9C] 0 1000 = Inr (Some 1000)" by (simp add: frame_base_of_def)
qed

text \<open>C35: an address expression is the base it names (frame base, frame pointer or stack pointer) plus the signed offset, modulo \<open>2^64\<close>; when anything follows the offset, for instance a dereference, the expression is refused, never misread as an address.\<close>

theorem eval_addr_base_plus_offset:
  assumes "- (2 ^ 63) \<le> k" and "k < 2 ^ 63" and "OP_BREG_FP P \<notin> {0x91, 0x9C}"
    and "OP_BREG_SP P \<notin> {0x91, 0x9C, OP_BREG_FP P}" and "rest \<noteq> []"
  shows "eval_addr P (0x91 # sleb_encode k) r = Inr (Some (frame_base r + word_of_int k))
    \<and> eval_addr P (OP_BREG_FP P # sleb_encode k) r = Inr (Some (fp r + word_of_int k))
    \<and> eval_addr P (OP_BREG_SP P # sleb_encode k) r = Inr (Some (sp r + word_of_int k))
    \<and> (\<forall>x. x \<noteq> 0x9C \<longrightarrow> eval_addr P (x # sleb_encode k @ rest) r = Inr None)"
  using eval_addr_offset [OF assms(1,2), of P _ "[]" r] eval_addr_offset [OF assms(1,2), of P _ rest r] assms(3-)
  by simp

theorem eval_addr_base_plus_offset_witness:
  "eval_addr darwin_regs [0x8F, 0x68] \<lparr>fp = 5, sp = 100, frame_base = 7\<rparr> = Inr (Some 76)
   \<and> eval_addr darwin_regs [0x8F, 0x68, 6] \<lparr>fp = 5, sp = 100, frame_base = 7\<rparr> = Inr None"
proof -
  have "sleb_encode (- 24) = [0x68]" by (simp add: sleb_encode.simps)
  then show ?thesis
    using eval_addr_base_plus_offset [of "- 24" darwin_regs "[6]" "\<lparr>fp = 5, sp = 100, frame_base = 7\<rparr>"]
    by (simp add: darwin_regs_def)
qed

text \<open>Every subprogram entry with code at \<open>pc\<close>, in the order of the units and of their entries.\<close>

definition hits :: "u64 \<Rightarrow> nat \<times> dunit \<Rightarrow> (nat \<times> nat) list" where
  "hits pc = (\<lambda>(ui, u). map (\<lambda>d. (ui, d_off d)) (filter (\<lambda>d. d_tag d = DW_TAG_subprogram \<and> in_ranges pc d) (dfs u)))"

definition subprograms_with :: "dstore \<Rightarrow> u64 \<Rightarrow> (nat \<times> nat) list" where
  "subprograms_with st pc = concat (map (hits pc) (enumerate 0 st))"

lemma find_first: "find P xs = (case filter P xs of [] \<Rightarrow> None | x # _ \<Rightarrow> Some x)"
  by (induction xs) auto

lemma subprogram_from_list:
  "subprogram_from i us pc
   = (case concat (map (hits pc) (enumerate i us)) of [] \<Rightarrow> None | x # _ \<Rightarrow> Some x)"
proof (induction i us pc rule: subprogram_from.induct)
  case (2 i u us pc)
  then show ?case
    by (cases "filter (\<lambda>d. d_tag d = DW_TAG_subprogram \<and> in_ranges pc d) (dfs u)")
      (simp_all add: find_first hits_def)
qed simp

text \<open>The entry found by \<^verbatim>\<open>subprogram_at\<close> is the first, over all units and all nested entries, of the subprograms whose machine code contains the program counter, and none exactly if there is no such subprogram.\<close>

theorem subprogram_at_first:
  "subprogram_at st pc = (case subprograms_with st pc of [] \<Rightarrow> None | s # _ \<Rightarrow> Some s)"
  unfolding subprogram_at_def subprograms_with_def by (rule subprogram_from_list)

end
