(* ===== verification/Classify_Props.thy ===== *)
theory Classify_Props
  imports Classify_Cells
begin

text \<open>
  Properties of the pieces of \<^verbatim>\<open>classify\<close>: the index built with an explicit stack is the post-order
  listing of the complete definitions, stubs are redirected to them, type names are compared
  modulo the module path, and the two encodings of \<^verbatim>\<open>Option\<close> are read off the variants.
\<close>

section \<open>The index\<close>

text \<open>The complete, named struct and union definitions below an entry, in post-order.\<close>

definition complete :: "die \<Rightarrow> bool" where
  "complete d \<longleftrightarrow> is_su (d_tag d) \<and> \<not> is_decl d \<and> list_ex (\<lambda>k. is_part (d_tag k)) (d_kids d)"

function definitions :: "nat \<Rightarrow> die \<Rightarrow> (bytes \<times> nat \<times> nat) list" where
  "definitions ui d = concat (map (definitions ui) (d_kids d))
     @ (if complete d then (case own_name d of Some nm \<Rightarrow> [(nm, ui, d_off d)] | None \<Rightarrow> []) else [])"
  by pat_completeness auto
termination
  by (relation "measure (\<lambda>(ui, d). size d)") (auto simp: size_d_kids)

declare definitions.simps [simp del]

fun add_first :: "bytes \<times> nat \<times> nat \<Rightarrow> index \<Rightarrow> index" where
  "add_first (nm, site) m = (case m nm of None \<Rightarrow> m(nm \<mapsto> site) | Some _ \<Rightarrow> m)"

lemma fold_add_first: "fold add_first xs m = map_of xs ++ m"
proof (induction xs arbitrary: m)
  case (Cons x xs)
  obtain nm site where x: "x = (nm, site)" by (cases x) auto
  show ?case unfolding x fold.simps o_apply Cons
    by (rule ext) (auto simp: map_add_def split: option.splits)
qed simp

lemma idx_close_add:
  "idx_close ui f m = fold add_first
     (if i_has_child f \<and> \<not> i_decl f then (case i_name f of Some nm \<Rightarrow> [(nm, ui, i_off f)] | None \<Rightarrow> []) else []) m"
  by (auto simp: idx_close_def split: option.splits)

lemma idx_pop_below: "\<forall>f \<in> set S. i_depth f < k \<Longrightarrow> idx_pop ui k (S, m) = (S, m)"
  by (cases S) auto

lemma idx_pop_pop: "k \<le> k' \<Longrightarrow> idx_pop ui k (idx_pop ui k' s) = idx_pop ui k s"
proof (cases s)
  case (Pair S m)
  assume "k \<le> k'"
  then have "idx_pop ui k (idx_pop ui k' (S, m)) = idx_pop ui k (S, m)"
    by (induction S arbitrary: m) auto
  then show ?thesis using Pair by simp
qed

lemma idx_entry_pop: "idx_entry ui (k, d) (idx_pop ui k s) = idx_entry ui (k, d) s"
  by (simp add: idx_entry_def idx_pop_pop)

lemma idx_pop_0: "idx_pop ui 0 (S, m) = ([], fold (idx_close ui) S m)"
  by (induction S arbitrary: m) auto

text \<open>The frame on top notes that it has a part among the entries \<open>ds\<close> of depth \<open>k\<close>.\<close>

fun mark :: "nat \<Rightarrow> die list \<Rightarrow> idx_frame list \<Rightarrow> idx_frame list" where
  "mark k ds [] = []"
| "mark k ds (f # S) =
     (if k = Suc (i_depth f) \<and> list_ex (\<lambda>d. is_part (d_tag d)) ds then f\<lparr>i_has_child := True\<rparr> # S else f # S)"

lemma mark_Nil [simp]: "mark k [] S = S"
  by (cases S) auto

lemma mark_Cons: "mark k ds (mark k [d] S) = mark k (d # ds) S"
  by (cases S) auto

lemma mark_depth: "f \<in> set (mark k ds S) \<Longrightarrow> \<exists>g \<in> set S. i_depth f = i_depth g"
  by (cases S) (auto split: if_splits)

lemma mark_deep: "\<forall>f \<in> set S. i_depth f < k \<Longrightarrow> mark (Suc k) ds S = S"
  by (cases S) auto

lemma fold_idx_pop:
  "idx_pop ui k (fold (idx_entry ui) (concat (map (dfs_depth k) ds)) (idx_pop ui k s))
   = idx_pop ui k (fold (idx_entry ui) (concat (map (dfs_depth k) ds)) s)"
proof (cases ds)
  case Nil
  then show ?thesis by (simp add: idx_pop_pop)
next
  case (Cons d ds')
  then show ?thesis by (simp add: dfs_depth.simps [of k d] idx_entry_pop)
qed

lemma idx_kids:
  assumes "\<And>d S m. d \<in> set ds \<Longrightarrow> \<forall>f \<in> set S. i_depth f < k \<Longrightarrow>
      idx_pop ui k (fold (idx_entry ui) (dfs_depth k d) (S, m)) = (mark k [d] S, fold add_first (definitions ui d) m)"
    and "\<forall>f \<in> set S. i_depth f < k"
  shows "idx_pop ui k (fold (idx_entry ui) (concat (map (dfs_depth k) ds)) (S, m))
    = (mark k ds S, fold add_first (concat (map (definitions ui) ds)) m)"
  using assms
proof (induction ds arbitrary: S m)
  case Nil
  then show ?case by (simp add: idx_pop_below)
next
  case (Cons d ds)
  let ?s = "fold (idx_entry ui) (dfs_depth k d) (S, m)"
  have one: "idx_pop ui k ?s = (mark k [d] S, fold add_first (definitions ui d) m)" by (rule Cons.prems) (use Cons.prems in auto)
  have low: "\<forall>f \<in> set (mark k [d] S). i_depth f < k" using Cons.prems(2) mark_depth by metis
  have "idx_pop ui k (fold (idx_entry ui) (concat (map (dfs_depth k) (d # ds))) (S, m))
      = idx_pop ui k (fold (idx_entry ui) (concat (map (dfs_depth k) ds)) (idx_pop ui k ?s))"
    by (simp add: fold_idx_pop)
  also have "\<dots> = (mark k ds (mark k [d] S), fold add_first (concat (map (definitions ui) ds)) (fold add_first (definitions ui d) m))"
    unfolding one by (rule Cons.IH) (use Cons.prems low in auto)
  finally show ?case by (simp add: mark_Cons)
qed

lemma idx_subtree:
  "\<forall>f \<in> set S. i_depth f < k \<Longrightarrow>
   idx_pop ui k (fold (idx_entry ui) (dfs_depth k d) (S, m)) = (mark k [d] S, fold add_first (definitions ui d) m)"
proof (induction k d arbitrary: S m rule: dfs_depth.induct)
  case (1 k d)
  let ?ks = "concat (map (dfs_depth (Suc k)) (d_kids d))" and ?ds = "concat (map (definitions ui) (d_kids d))"
  have kids: "idx_pop ui (Suc k) (fold (idx_entry ui) ?ks (T, m)) = (mark (Suc k) (d_kids d) T, fold add_first ?ds m)"
    if low: "\<forall>f \<in> set T. i_depth f < Suc k" for T m
    by (rule idx_kids [OF _ low]) (rule 1)
  have run: "idx_pop ui k (fold (idx_entry ui) (dfs_depth k d) (S, m)) = idx_pop ui k (mark (Suc k) (d_kids d) T, fold add_first ?ds m)"
    if "idx_entry ui (k, d) (S, m) = (T, m)" "\<forall>f \<in> set T. i_depth f < Suc k" for T
    using that kids [OF that(2)] idx_pop_pop [of k "Suc k" ui] by (simp add: dfs_depth.simps [of k d]) (metis le_SucI order_refl)
  have pop: "idx_pop ui k (S, m) = (S, m)" using idx_pop_below 1(2) by blast
  show ?case
  proof (cases "is_su (d_tag d)")
    case True
    let ?f = "\<lparr>i_depth = k, i_off = d_off d, i_decl = is_decl d, i_name = own_name d, i_has_child = False\<rparr>"
    have "idx_entry ui (k, d) (S, m) = (?f # S, m)" using True pop by (simp add: idx_entry_def)
    note r = run [OF this]
    have "mark k [d] S = S" using True by (cases S) (auto simp: is_su_def is_part_def)
    moreover have "definitions ui d = ?ds
        @ (if list_ex (\<lambda>d. is_part (d_tag d)) (d_kids d) \<and> \<not> is_decl d
           then (case own_name d of Some nm \<Rightarrow> [(nm, ui, d_off d)] | None \<Rightarrow> []) else [])"
      using True by (auto simp: definitions.simps [of ui d] complete_def)
    ultimately show ?thesis
      using r 1(2) idx_pop_below [OF 1(2)]
      by (cases "own_name d") (auto simp: idx_close_add less_SucI split: if_splits)
  next
    case False
    then have ent: "idx_entry ui (k, d) (S, m) = (mark k [d] S, m)" and ds: "definitions ui d = ?ds"
      using pop by (auto simp: idx_entry_def definitions.simps [of ui d] complete_def split: list.splits)
    have low: "\<forall>f \<in> set (mark k [d] S). i_depth f < k" using 1(2) mark_depth by metis
    then have "\<forall>f \<in> set (mark k [d] S). i_depth f < Suc k" by auto
    from run [OF ent this] show ?thesis using idx_pop_below [OF low] mark_deep [OF low] ds by simp
  qed
qed

lemma idx_unit_definitions: "idx_unit (ui, u) m = fold add_first (definitions ui u) m"
proof -
  obtain S m' where s: "fold (idx_entry ui) (dfs_depth 0 u) ([], m) = (S, m')" by force
  have "idx_pop ui 0 (S, m') = ([], fold add_first (definitions ui u) m)"
    using idx_subtree [of "[]" 0 ui u m] s by simp
  then show ?thesis using s by (simp add: idx_unit_def idx_pop_0)
qed

lemma def_index_list:
  "def_index st = map_of (concat (map (\<lambda>(ui, u). definitions ui u) (enumerate 0 st)))"
proof -
  have "fold idx_unit ius m = map_of (concat (map (\<lambda>(ui, u). definitions ui u) ius)) ++ m" for ius m
    by (induction ius arbitrary: m) (auto simp: idx_unit_definitions fold_add_first)
  then show ?thesis by (simp add: def_index_def)
qed


text \<open>C17: the index of definitions, built with an explicit stack over the depth-first entries, maps every name to the first complete struct or union definition of that name (a name, no declaration, at least one member or variant part), the units in order and the entries of a unit in post-order, and has no other names.\<close>

theorem def_index_definitions:
  "def_index st = map_of (concat (map (\<lambda>(ui, u). definitions ui u) (enumerate 0 st)))"
  by (rule def_index_list)

section \<open>Stubs\<close>

lemma map_snd_dfs_depth: "map snd (dfs_depth k d) = dfs d"
proof (induction d arbitrary: k rule: measure_induct_rule [where f = size])
  case (less d)
  have "map snd (dfs_depth k d) = d # concat (map dfs (d_kids d))" for k
    using less size_d_kids by (simp add: dfs_depth.simps [of k d] map_concat o_def cong: map_cong)
  then show ?case unfolding dfs_def by metis
qed

lemma dfs_simps: "dfs d = d # concat (map dfs (d_kids d))"
  unfolding dfs_def dfs_depth.simps [of 0 d] by (simp add: map_concat o_def map_snd_dfs_depth)

lemma dfs_self [simp]: "d \<in> set (dfs d)"
  by (subst dfs_simps) simp

lemma dfs_kid: "e \<in> set (dfs d) \<Longrightarrow> k \<in> set (d_kids e) \<Longrightarrow> k \<in> set (dfs d)"
proof (induction d rule: measure_induct_rule [where f = size])
  case (less d)
  show ?case
  proof (cases "e = d")
    case True
    then have "\<exists>x \<in> set (d_kids d). k \<in> set (dfs x)" using less.prems(2) dfs_self by blast
    then show ?thesis by (subst dfs_simps) simp
  next
    case False
    then obtain d' where d': "d' \<in> set (d_kids d)" "e \<in> set (dfs d')" using less.prems(1) dfs_simps [of d] by auto
    then have "k \<in> set (dfs d')" using less.IH less.prems(2) size_d_kids by blast
    then show ?thesis using d'(1) by (subst dfs_simps) auto
  qed
qed

lemma definitions_complete:
  "(nm, ui', off) \<in> set (definitions ui d) \<Longrightarrow>
   \<exists>e \<in> set (dfs d). complete e \<and> d_off e = off \<and> own_name e = Some nm \<and> ui' = ui"
proof (induction d rule: measure_induct_rule [where f = size])
  case (less d)
  from less.prems consider k where "k \<in> set (d_kids d)" "(nm, ui', off) \<in> set (definitions ui k)"
    | "complete d" "own_name d = Some nm" "off = d_off d" "ui' = ui"
    unfolding definitions.simps [of ui d] by (cases "complete d"; cases "own_name d") auto
  then show ?case
  proof cases
    case 1
    then obtain e where "e \<in> set (dfs k)" "complete e \<and> d_off e = off \<and> own_name e = Some nm \<and> ui' = ui"
      using less.IH size_d_kids by blast
    then show ?thesis using 1(1) by (subst dfs_simps) auto
  next
    case 2
    then show ?thesis using dfs_self by blast
  qed
qed

lemma entry_unique:
  assumes "distinct (map d_off (dfs u))" and "e \<in> set (dfs u)"
  shows "entry u (d_off e) = Some e"
proof -
  have "find (\<lambda>d. d_off d = d_off e) (dfs u) \<noteq> None" using assms(2) by (auto simp: find_None_iff)
  then obtain e' where e': "find (\<lambda>d. d_off d = d_off e) (dfs u) = Some e'" by blast
  then have "e' \<in> set (dfs u)" "d_off e' = d_off e" by (auto simp: find_Some_iff)
  then have "e' = e" using assms by (auto simp: distinct_map inj_on_def)
  then show ?thesis using e' by (simp add: entry_def)
qed

lemma find_res_find: "(\<And>x. x \<in> set xs \<Longrightarrow> p x = Inr (q x)) \<Longrightarrow> find_res p xs = Inr (find q xs)"
  by (induction xs) auto

lemma complete_no_stub:
  assumes d: "distinct (map d_off (dfs u))" and e: "e \<in> set (dfs u)" "complete e"
  shows "is_stub u (d_off e) = Inr False"
proof -
  note en = entry_unique [OF d]
  have tg: "tag u (d_off x) = Inr (d_tag x)" if "x \<in> set (dfs u)" for x using en [OF that] by (simp add: tag_def)
  have kids: "child_offsets u (d_off e) = Inr (map d_off (d_kids e))" using en [OF e(1)] by (simp add: child_offsets_def)
  obtain k where k: "k \<in> set (d_kids e)" "is_part (d_tag k)" using e(2) by (auto simp: complete_def list_ex_iff)
  let ?q = "\<lambda>c. \<exists>k \<in> set (d_kids e). d_off k = c \<and> is_part (d_tag k)"
  have "find_res (\<lambda>c. bindR (tag u c) (\<lambda>t. Inr (is_part t))) (map d_off (d_kids e)) = Inr (find ?q (map d_off (d_kids e)))"
  proof (rule find_res_find)
    fix c assume "c \<in> set (map d_off (d_kids e))"
    then obtain x where x: "x \<in> set (d_kids e)" "c = d_off x" by auto
    have "?q c \<longleftrightarrow> is_part (d_tag x)"
      using x dfs_kid [OF e(1)] d by (auto simp: distinct_map inj_on_def)
    then show "bindR (tag u c) (\<lambda>t. Inr (is_part t)) = Inr (?q c)" using tg dfs_kid [OF e(1) x(1)] x(2) by simp
  qed
  moreover have "find ?q (map d_off (d_kids e)) \<noteq> None" using k by (auto simp: find_None_iff)
  ultimately show ?thesis
    using tg [OF e(1)] e(2) kids en [OF e(1)]
    by (auto simp: is_stub_def complete_def is_decl_def attr_of_def)
qed

text \<open>C18: a redirected stub lands on a real definition: when \<^verbatim>\<open>def_site\<close> moves away from where it was asked, the place it returns is, in a unit of the store, a complete struct or union definition of the same name, and is not a stub itself.\<close>

theorem def_site_complete:
  assumes "list_all (\<lambda>u. distinct (map d_off (dfs u))) st"
    and "def_site n st ui off = Inr (ui', off')" and "(ui', off') \<noteq> (ui, off)"
  shows "ui' < length st \<and> is_stub (st ! ui') off' = Inr False
    \<and> (\<exists>e. entry (st ! ui') off' = Some e \<and> complete e \<and> die_name n (st ! ui) off = Inr (own_name e))"
proof -
  from assms(2,3) obtain nm where nm: "die_name n (st ! ui) off = Inr (Some nm)" "def_index st nm = Some (ui', off')"
    by (auto simp: def_site_def bindR_eq_Inr idx_def bind_eq_Some_conv split: if_splits option.splits)
  then obtain i u where iu: "(i, u) \<in> set (enumerate 0 st)" "(nm, ui', off') \<in> set (definitions i u)"
    unfolding def_index_list by (auto dest!: map_of_SomeD)
  from definitions_complete [OF iu(2)] obtain e where e: "e \<in> set (dfs u)" "complete e" "d_off e = off'" "own_name e = Some nm" "ui' = i"
    by blast
  from iu(1) have u: "i < length st" "st ! i = u" by (auto simp: in_set_enumerate_eq)
  then have d: "distinct (map d_off (dfs u))" using assms(1) by (auto simp: list_all_length)
  show ?thesis using complete_no_stub [OF d e(1,2)] entry_unique [OF d e(1)] e nm(1) u by auto
qed

theorem def_site_complete_witness: "is_stub (list_store ! 0) 2 = Inr False"
proof -
  have d: "list_all (\<lambda>u. distinct (map d_off (dfs u))) list_store" by code_simp
  have "def_site 3 list_store 1 2 = Inr (0, 2)" by code_simp
  from def_site_complete [OF d this] show ?thesis by simp
qed


section \<open>Type names\<close>

lemma has_sep_no_colon: "COLON \<notin> set s \<Longrightarrow> \<not> has_sep s"
  by (induction s rule: has_sep.induct) auto

lemma has_sep_append: "has_sep (p @ COLON # COLON # s)"
proof (induction p)
  case (Cons x p)
  then show ?case by (cases p) auto
qed simp

lemma after_sep_append: "COLON \<notin> set s \<Longrightarrow> after_sep (p @ COLON # COLON # s) = s"
proof (induction p)
  case Nil
  have "\<not> has_sep (COLON # s)" using Nil by (cases s) (auto simp: has_sep_no_colon)
  then show ?case by simp
next
  case (Cons x p)
  then show ?case using has_sep_append [of p s] by simp
qed

lemma after_sep_none: "has_sep s \<Longrightarrow> \<not> has_sep (after_sep s)"
proof (induction s)
  case (Cons x xs)
  show ?case
  proof (cases xs)
    case (Cons y ys)
    then show ?thesis using Cons.IH Cons.prems by (cases ys) auto
  qed (use Cons.prems in simp)
qed simp

lemma head_split:
  assumes "LT \<notin> set xs" and "args = [] \<or> hd args = LT"
  shows "takeWhile (\<lambda>b. b \<noteq> LT) (xs @ args) = xs" and "dropWhile (\<lambda>b. b \<noteq> LT) (xs @ args) = args"
proof -
  have "\<forall>x \<in> set xs. x \<noteq> LT" using assms(1) by auto
  then show "takeWhile (\<lambda>b. b \<noteq> LT) (xs @ args) = xs" "dropWhile (\<lambda>b. b \<noteq> LT) (xs @ args) = args"
    using assms(2) by (cases args; simp add: takeWhile_append2 dropWhile_append2)+
qed

text \<open>Type names are compared modulo the module path of the head: a path in front of the last segment of the head makes no difference, the generic arguments are kept untouched, and normalising twice changes nothing.\<close>

theorem norm_ty_path:
  assumes "LT \<notin> set path" and "LT \<notin> set leaf" and "COLON \<notin> set leaf" and "args = [] \<or> hd args = LT"
  shows "norm_ty (path @ COLON # COLON # leaf @ args) = leaf @ args
    \<and> norm_ty (leaf @ args) = leaf @ args \<and> (\<forall>s. norm_ty (norm_ty s) = norm_ty s)"
proof (intro conjI allI)
  have colon: "COLON \<noteq> LT" by (simp add: LT_def)
  note sp = head_split [OF _ assms(4)]
  show "norm_ty (leaf @ args) = leaf @ args" using sp [OF assms(2)] has_sep_no_colon [OF assms(3)] by (simp add: norm_ty_def)
  have "LT \<notin> set (path @ COLON # COLON # leaf)" using assms(1,2) colon by auto
  from sp [OF this] show "norm_ty (path @ COLON # COLON # leaf @ args) = leaf @ args"
    using has_sep_append [of path leaf] after_sep_append [OF assms(3), of path] by (simp add: norm_ty_def)
next
  fix s
  let ?h = "takeWhile (\<lambda>b. b \<noteq> LT) s" and ?r = "dropWhile (\<lambda>b. b \<noteq> LT) s"
  let ?l = "if has_sep ?h then after_sep ?h else ?h"
  have "set (after_sep x) \<subseteq> set x" for x by (induction x) (auto dest: in_set_dropD split: if_splits)
  then have "LT \<notin> set ?l" using set_takeWhileD [of LT "\<lambda>b. b \<noteq> LT" s] by (auto split: if_splits)
  moreover have "?r = [] \<or> hd ?r = LT" using hd_dropWhile [of "\<lambda>b. b \<noteq> LT" s] by blast
  ultimately have "takeWhile (\<lambda>b. b \<noteq> LT) (?l @ ?r) = ?l" "dropWhile (\<lambda>b. b \<noteq> LT) (?l @ ?r) = ?r"
    by (rule head_split)+
  moreover have "\<not> has_sep ?l" using after_sep_none by simp
  ultimately show "norm_ty (norm_ty s) = norm_ty s" unfolding norm_ty_def Let_def by simp
qed

theorem norm_ty_path_witness:
  "norm_ty (ascii ''std::v::Vec<a::B>'') = ascii ''Vec<a::B>''"
proof -
  have "norm_ty (ascii ''std::v'' @ COLON # COLON # ascii ''Vec'' @ ascii ''<a::B>'') = ascii ''Vec'' @ ascii ''<a::B>''"
    by (rule conjunct1 [OF norm_ty_path]) (simp_all add: ascii_def LT_def)
  then show ?thesis by (simp add: ascii_def)
qed

section \<open>Options\<close>

text \<open>A variant without and one with a payload, as the debug information describes them.\<close>

definition variant_fields :: "nat \<Rightarrow> dunit \<Rightarrow> nat \<Rightarrow> nat option \<Rightarrow> nat \<Rightarrow> nat option \<Rightarrow> bool" where
  "variant_fields n u v dv pm f0 \<longleftrightarrow> tag u v = Inr DW_TAG_variant \<and> attr_udata u v DW_AT_discr_value = dv
     \<and> child_with_tag u v DW_TAG_member = Inr (Some pm)
     \<and> bindR (type_ref n u pm) (\<lambda>ps. bindR (expect ps []) (\<lambda>ps. bindR (strip n u ps) (first_field n u))) = Inr f0"

definition empty_variant :: "nat \<Rightarrow> dunit \<Rightarrow> nat \<Rightarrow> nat option \<Rightarrow> bool" where
  "empty_variant n u v dv \<longleftrightarrow> (\<exists>pm. variant_fields n u v dv pm None)"

definition data_variant :: "nat \<Rightarrow> dunit \<Rightarrow> nat \<Rightarrow> nat option \<Rightarrow> nat \<Rightarrow> nat \<Rightarrow> bool" where
  "data_variant n u v dv payload t \<longleftrightarrow> (\<exists>pm f0. variant_fields n u v dv pm (Some f0)
     \<and> type_ref n u f0 = Inr (Some t) \<and> payload < 2 ^ 64
     \<and> payload = udata_or u pm DW_AT_data_member_location 0 + udata_or u f0 DW_AT_data_member_location 0)"

lemma variant_fieldsE:
  assumes "variant_fields n u v dv pm f0"
  obtains p ps where "tag u v = Inr DW_TAG_variant" "attr_udata u v DW_AT_discr_value = dv"
    "child_with_tag u v DW_TAG_member = Inr (Some pm)" "type_ref n u pm = Inr (Some p)" "strip n u p = Inr ps"
    "first_field n u ps = Inr f0"
  using assms by (auto simp: variant_fields_def bindR_eq_Inr expect_def split: option.splits)

lemma variant_step_empty:
  "empty_variant n u v dv \<Longrightarrow> variant_step cl n u ui v (vs, s) = Inr (vs\<lparr>v_none := dv\<rparr>, s)"
  by (auto simp: empty_variant_def variant_step_def elim!: variant_fieldsE)

lemma variant_step_data:
  assumes "data_variant n u v dv payload t" and "cl ui t s = Inr (inner, s')"
  shows "variant_step cl n u ui v (vs, s) = Inr (vs\<lparr>v_some := Some (dv, payload, inner)\<rparr>, s')"
  using assms by (auto simp: data_variant_def variant_step_def add_usize_def elim!: variant_fieldsE)

text \<open>Any other children of the variant part are skipped.\<close>

lemma variant_step_other: "tag u v = Inr t \<Longrightarrow> t \<noteq> DW_TAG_variant \<Longrightarrow> variant_step cl n u ui v x = Inr x"
  by (cases x) (simp add: variant_step_def)

lemma skip_others:
  "list_all (\<lambda>v. \<exists>t. tag u v = Inr t \<and> t \<noteq> DW_TAG_variant) vs \<Longrightarrow> fold_res (variant_step cl n u ui) vs x = Inr x"
  by (induction vs) (auto simp: variant_step_other)

text \<open>C23: both encodings of \<^verbatim>\<open>Option\<close> are read off correctly. For a variant part with one variant without payload, whose discriminant value is known, and one with payload, in either order and among any other entries, the layout has the place and width of the discriminant, the value that means \<^verbatim>\<open>None\<close>, the payload at the sum of the offsets, and the value that means \<^verbatim>\<open>Some\<close> if the tagged encoding has one and none for the niche encoding.\<close>

theorem parse_option_two_variants:
  assumes "attr_of u vp DW_AT_discr = Some (UnitRef m)" and "type_ref n u m = Inr (Some dt)" and "strip n u dt = Inr dt'"
    and "udata u dt' DW_AT_byte_size = Some w" and "w < 256"
    and "child_offsets u vp = Inr (vs1 @ a # vs2 @ b # vs3)"
    and "list_all (\<lambda>v. \<exists>t. tag u v = Inr t \<and> t \<noteq> DW_TAG_variant) (vs1 @ vs2 @ vs3)"
    and "empty_variant n u a (Some none) \<and> data_variant n u b some payload t
       \<or> data_variant n u a some payload t \<and> empty_variant n u b (Some none)"
    and "cl ui t s = Inr (inner, s')"
  shows "parse_option cl n u ui off vp name s
    = Inr (TOpt (udata_or u m DW_AT_data_member_location 0) w none some payload (udata_or u off DW_AT_byte_size 0) inner, s')"
proof -
  have skip: "fold_res (variant_step cl n u ui) vs x = Inr x" if "vs \<in> {vs1, vs2, vs3}" for vs x
    using that assms(7) by (auto intro!: skip_others)
  have "fold_res (variant_step cl n u ui) (vs1 @ a # vs2 @ b # vs3) (\<lparr>v_none = None, v_some = None\<rparr>, s)
      = Inr (\<lparr>v_none = Some none, v_some = Some (some, payload, inner)\<rparr>, s')"
    using assms(8) variant_step_empty variant_step_data [where cl = cl, OF _ assms(9)] skip by (auto simp: fold_res_append)
  then show ?thesis
    using assms(1-6) by (simp add: parse_option_def udata_or_def Let_def)
qed

text \<open>\<^verbatim>\<open>Option<u64>\<close> with a separate tag, \<^verbatim>\<open>None\<close> being 0.\<close>

definition option_unit :: dunit where
  "option_unit =
     Die 1 (DW_TAG_other 17) [] []
       [Die 2 DW_TAG_base_type [(DW_AT_name, StrVal [117]), (DW_AT_byte_size, Udata 8), (DW_AT_encoding, Encoding 7)] [] [],
        Die 3 DW_TAG_structure_type [(DW_AT_name, StrVal [79]), (DW_AT_byte_size, Udata 16)] []
          [Die 4 DW_TAG_variant_part [(DW_AT_discr, UnitRef 5)] []
             [Die 5 DW_TAG_member [(DW_AT_type, UnitRef 2), (DW_AT_data_member_location, Udata 0)] [] [],
              Die 6 DW_TAG_variant [(DW_AT_discr_value, Data 0)] [] [Die 7 DW_TAG_member [(DW_AT_type, UnitRef 10)] [] []],
              Die 8 DW_TAG_variant [(DW_AT_discr_value, Data 1)] [] [Die 9 DW_TAG_member [(DW_AT_type, UnitRef 11)] [] []]],
           Die 10 DW_TAG_structure_type [(DW_AT_name, StrVal [78])] [] [],
           Die 11 DW_TAG_structure_type [(DW_AT_name, StrVal [83])] []
             [Die 12 DW_TAG_member [(DW_AT_name, StrVal [95, 95, 48]), (DW_AT_type, UnitRef 2),
                (DW_AT_data_member_location, Udata 8)] [] []]]]"

theorem parse_option_two_variants_witness:
  "\<exists>s'. parse_option (classify 3 0 [option_unit]) 3 option_unit 0 3 4 [79] no_state
     = Inr (TOpt 0 8 0 (Some 1) 8 16 (TU 8), s')"
proof -
  have "result_view (classify 3 0 [option_unit] 0 2 no_state) = Some (TU 8, [None])" by code_simp
  then obtain s' where cl: "classify 3 0 [option_unit] 0 2 no_state = Inr (TU 8, s')"
    by (auto simp: result_view_def split: sum.splits)
  have e: "variant_fields 3 option_unit 6 (Some 0) 7 None" and d: "variant_fields 3 option_unit 8 (Some 1) 9 (Some 12)"
    unfolding variant_fields_def by (intro conjI; code_simp)+
  have p: "8 = udata_or option_unit 9 DW_AT_data_member_location 0 + udata_or option_unit 12 DW_AT_data_member_location 0"
    by code_simp
  have ty: "type_ref 3 option_unit 12 = Inr (Some 2)" by code_simp
  have var: "empty_variant 3 option_unit 6 (Some 0) \<and> data_variant 3 option_unit 8 (Some 1) 8 2
      \<or> data_variant 3 option_unit 6 (Some 1) 8 2 \<and> empty_variant 3 option_unit 8 (Some 0)"
    unfolding empty_variant_def data_variant_def using e d p ty by (intro disjI1) (simp, blast)
  have tg: "tag option_unit 5 = Inr DW_TAG_member" by code_simp
  have kids: "child_offsets option_unit 4 = Inr ([5] @ 6 # [] @ 8 # [])"
    "list_all (\<lambda>v. \<exists>t. tag option_unit v = Inr t \<and> t \<noteq> DW_TAG_variant) ([5] @ [] @ [])"
    by code_simp (simp add: tg)
  have u: "attr_of option_unit 4 DW_AT_discr = Some (UnitRef 5)" "type_ref 3 option_unit 5 = Inr (Some 2)"
    "strip 3 option_unit 2 = Inr 2" "udata option_unit 2 DW_AT_byte_size = Some 8"
    "udata_or option_unit 5 DW_AT_data_member_location 0 = 0" "udata_or option_unit 3 DW_AT_byte_size 0 = 16"
    by code_simp+
  note two = parse_option_two_variants [where cl = "classify 3 0 [option_unit]" and ?vs1.0 = "[5]" and ?vs2.0 = "[]" and ?vs3.0 = "[]"
      and off = 3 and name = "[79]"]
  from two [OF u(1-4) _ kids var cl] show ?thesis unfolding u(5,6) by simp
qed

section \<open>A size that is read from a stub\<close>

text \<open>
  The layout behind a pointer is redirected from the stub to the definition, its size is not: a
  box whose pointee is a declaration in the unit of the pointer is given size 0.
\<close>

theorem boxed_stub_size:
  "result_view (classify 5 0 list_store 1 3 no_state) = Some (TBoxed (TStruct [78] [Field [98] 0 (TBoxed (TRef 1) 8 8)]) 0 1,
       [None, Some (TStruct [78] [Field [98] 0 (TBoxed (TRef 1) 8 8)]), None])
   \<and> udata (list_store ! 0) 2 DW_AT_byte_size = Some 8"
  by code_simp

end
