(* ===== verification/Startup.thy ===== *)
theory Startup
  imports Resolve
begin

text \<open>
  What is set up once per process before the first type is resolved: the table of debug sections and
  the list of units (\<^verbatim>\<open>store\<close> in \<^verbatim>\<open>crates/bilbo/src/dwarf.rs\<close>), the module handed to the unwinder and
  the file that holds the debug information (\<^verbatim>\<open>unwinder\<close>, \<^verbatim>\<open>dwarf_bytes\<close> and \<^verbatim>\<open>dsym_path\<close> of the two
  platforms). What the crates object and gimli read from the file is data: a list of sections, an
  iterator over unit headers.
\<close>

section \<open>Write-once statics\<close>

text \<open>\<^verbatim>\<open>OnceLock::get_or_init\<close>: a panic of the initialiser leaves the static as it was.\<close>

definition get_or_init :: "'a res \<Rightarrow> 'a option \<Rightarrow> 'a option \<times> 'a res" where
  "get_or_init init static = (case static of
      Some x \<Rightarrow> (static, Inr x)
    | None \<Rightarrow> (case init of Inr x \<Rightarrow> (Some x, Inr x) | Inl e \<Rightarrow> (None, Inl e)))"

section \<open>The debug sections\<close>








section \<open>The file with the debug information\<close>

text \<open>
  Paths are lists of components. \<open>read_dir\<close> gives the entries of a directory, each readable or not;
  \<open>lossy\<close> is \<^verbatim>\<open>to_string_lossy\<close>.
\<close>

definition dsym_path :: "(bytes \<Rightarrow> bytes) \<Rightarrow> (bytes list \<Rightarrow> bytes option list option) \<Rightarrow> bytes list \<Rightarrow> bytes list res" where
  "dsym_path lossy read_dir exe =
     (if exe = [] then Inl (Panic ''exe name'')
      else let p = butlast exe @ [lossy (last exe) @ ascii ''.dSYM'', ascii ''Contents'', ascii ''Resources'', ascii ''DWARF''] in
        case read_dir p of Some (Some e # _) \<Rightarrow> Inr (p @ [e]) | _ \<Rightarrow> Inr exe)"

section \<open>The module of the unwinder\<close>

record exe_section =
  es_name :: bytes
  es_addr :: u64
  es_size :: u64
  es_data :: "bytes option"

type_synonym svma_range = "u64 \<times> u64"

record unwind_module =
  avma_range :: svma_range
  base_avma :: u64
  base_svma :: u64
  text_svma :: "svma_range option"
  text_data :: "bytes option"
  eh_frame_svma :: "svma_range option"
  eh_frame :: "bytes option"
  eh_frame_hdr_svma :: "svma_range option"
  eh_frame_hdr :: "bytes option"
  stubs_svma :: "svma_range option"
  stub_helper_svma :: "svma_range option"
  got_svma :: "svma_range option"
  unwind_info :: "bytes option"
  text_segment_svma :: "svma_range option"
  text_segment :: "bytes option"

definition no_module :: unwind_module where
  "no_module = \<lparr>avma_range = (0, 0), base_avma = 0, base_svma = 0, text_svma = None, text_data = None, eh_frame_svma = None,
     eh_frame = None, eh_frame_hdr_svma = None, eh_frame_hdr = None, stubs_svma = None, stub_helper_svma = None,
     got_svma = None, unwind_info = None, text_segment_svma = None, text_segment = None\<rparr>"

definition sec_range_data :: "exe_section list \<Rightarrow> string \<Rightarrow> (svma_range \<times> bytes option) option res" where
  "sec_range_data secs nm =
     (case find (\<lambda>s. es_name s = ascii nm) secs of
        None \<Rightarrow> Inr None
      | Some s \<Rightarrow> bindR (add_u64 (es_addr s) (es_size s)) (\<lambda>hi. Inr (Some ((es_addr s, hi), es_data s))))"

definition shift_range :: "svma_range \<Rightarrow> u64 \<Rightarrow> svma_range res" where
  "shift_range r slide = bindR (add_u64 (fst r) slide) (\<lambda>lo. bindR (add_u64 (snd r) slide) (\<lambda>hi. Inr (lo, hi)))"

definition unwinder_linux :: "exe_section list \<Rightarrow> u64 \<Rightarrow> unwind_module res" where
  "unwinder_linux secs slide =
     bindR (sec_range_data secs ''.text'') (\<lambda>t.
     bindR (expect t ''.text section'') (\<lambda>(code, data).
     bindR (shift_range code slide) (\<lambda>avma.
     bindR (sec_range_data secs ''.eh_frame'') (\<lambda>eh.
     bindR (sec_range_data secs ''.eh_frame_hdr'') (\<lambda>hdr.
       Inr (no_module\<lparr>avma_range := avma, base_avma := slide, base_svma := 0, text_svma := Some code, text_data := data,
         eh_frame_svma := map_option fst eh, eh_frame := Option.bind eh snd,
         eh_frame_hdr_svma := map_option fst hdr, eh_frame_hdr := Option.bind hdr snd\<rparr>))))))"

definition unwinder_darwin :: "exe_section list \<Rightarrow> exe_section list \<Rightarrow> u64 \<Rightarrow> unwind_module res" where
  "unwinder_darwin segments secs slide =
     bindR (expect (find (\<lambda>s. es_name s = ascii ''__TEXT'') segments) ''__TEXT segment'') (\<lambda>seg.
     bindR (add_u64 (es_addr seg) (es_size seg)) (\<lambda>hi.
     bindR (add_u64 (es_addr seg) slide) (\<lambda>base.
     bindR (shift_range (es_addr seg, hi) slide) (\<lambda>avma.
     bindR (sec_range_data secs ''__text'') (\<lambda>t.
     bindR (sec_range_data secs ''__stubs'') (\<lambda>stubs.
     bindR (sec_range_data secs ''__stub_helper'') (\<lambda>helper.
     bindR (sec_range_data secs ''__got'') (\<lambda>got.
     bindR (sec_range_data secs ''__unwind_info'') (\<lambda>ui.
     bindR (sec_range_data secs ''__eh_frame'') (\<lambda>eh.
       Inr (no_module\<lparr>avma_range := avma, base_avma := base, base_svma := es_addr seg, text_segment_svma := Some (es_addr seg, hi),
         text_segment := es_data seg, text_svma := map_option fst t, text_data := Option.bind t snd,
         stubs_svma := map_option fst stubs, stub_helper_svma := map_option fst helper, got_svma := map_option fst got,
         unwind_info := Option.bind ui snd, eh_frame_svma := map_option fst eh, eh_frame := Option.bind eh snd\<rparr>)))))))))))"

section \<open>The properties\<close>









lemma add_u64_Inr: "add_u64 a b = Inr c \<longleftrightarrow> unat a + unat b < 2 ^ 64 \<and> c = a + b"
  by (auto simp: add_u64_def)

lemma shift_range_iff:
  assumes "shift_range (lo, hi) slide = Inr (a, b)"
  shows "a \<le> ret \<and> ret < b \<longleftrightarrow> (\<exists>pc. sub_u64 ret slide = Inr pc \<and> lo \<le> pc \<and> pc < hi)"
proof -
  have ab: "unat a = unat lo + unat slide" "unat b = unat hi + unat slide"
    using assms by (auto simp: shift_range_def bindR_eq_Inr add_u64_Inr unat_word_ariths)
  show ?thesis
  proof (cases "slide \<le> ret")
    case True
    then have "unat (ret - slide) = unat ret - unat slide" "unat slide \<le> unat ret"
      by (simp_all add: unat_sub word_le_nat_alt)
    then show ?thesis using True ab by (auto simp: sub_u64_def word_le_nat_alt word_less_nat_alt)
  next
    case False
    then show ?thesis using ab by (auto simp: sub_u64_def word_le_nat_alt)
  qed
qed

text \<open>The unwinder and the debug information agree on the code: the module given to the unwinder covers a return address exactly if the address minus the slide, which is what the search for the subprogram gets, is defined and lies in the code of the executable, on both platforms.\<close>

theorem unwinder_covers_code:
  shows "(\<forall>m code. unwinder_linux secs slide = Inr m \<and> text_svma m = Some code \<longrightarrow>
      (fst (avma_range m) \<le> ret \<and> ret < snd (avma_range m) \<longleftrightarrow> (\<exists>pc. sub_u64 ret slide = Inr pc \<and> fst code \<le> pc \<and> pc < snd code)))
    \<and> (\<forall>m code. unwinder_darwin segments secs slide = Inr m \<and> text_segment_svma m = Some code \<longrightarrow>
      (fst (avma_range m) \<le> ret \<and> ret < snd (avma_range m) \<longleftrightarrow> (\<exists>pc. sub_u64 ret slide = Inr pc \<and> fst code \<le> pc \<and> pc < snd code)))"
proof (intro conjI allI impI; elim conjE)
  fix m code assume m: "unwinder_linux secs slide = Inr m" "text_svma m = Some code"
  then have "shift_range code slide = Inr (avma_range m)"
    by (auto simp: unwinder_linux_def bindR_eq_Inr expect_def split: option.splits)
  then show "fst (avma_range m) \<le> ret \<and> ret < snd (avma_range m) \<longleftrightarrow> (\<exists>pc. sub_u64 ret slide = Inr pc \<and> fst code \<le> pc \<and> pc < snd code)"
    using shift_range_iff [of "fst code" "snd code" slide "fst (avma_range m)" "snd (avma_range m)" ret] by simp
next
  fix m code assume m: "unwinder_darwin segments secs slide = Inr m" "text_segment_svma m = Some code"
  then have "shift_range code slide = Inr (avma_range m)"
    by (auto simp: unwinder_darwin_def bindR_eq_Inr)
  then show "fst (avma_range m) \<le> ret \<and> ret < snd (avma_range m) \<longleftrightarrow> (\<exists>pc. sub_u64 ret slide = Inr pc \<and> fst code \<le> pc \<and> pc < snd code)"
    using shift_range_iff [of "fst code" "snd code" slide "fst (avma_range m)" "snd (avma_range m)" ret] by simp
qed

theorem unwinder_covers_code_witness:
  "\<exists>m. unwinder_linux [\<lparr>es_name = ascii ''.text'', es_addr = 0x1000, es_size = 0x100, es_data = None\<rparr>] 0x5000 = Inr m
     \<and> fst (avma_range m) \<le> 0x6010 \<and> 0x6010 < snd (avma_range m)"
proof -
  let ?secs = "[\<lparr>es_name = ascii ''.text'', es_addr = 0x1000, es_size = 0x100, es_data = None\<rparr>]"
  obtain m where m: "unwinder_linux ?secs 0x5000 = Inr m" "text_svma m = Some (0x1000, 0x1100)"
    by (simp add: unwinder_linux_def sec_range_data_def shift_range_def add_u64_def ascii_def)
  have "sub_u64 0x6010 0x5000 = Inr 0x1010" by (simp add: sub_u64_def)
  then show ?thesis
    using unwinder_covers_code [of ?secs "0x5000" "0x6010" "[]"] m by auto
qed

end
