(* ===== verification/Seq_Paths.thy ===== *)
theory Seq_Paths
  imports Classify
begin

text \<open>
  Where the three words of a \<^verbatim>\<open>Vec\<close> or \<^verbatim>\<open>String\<close> come from: \<^verbatim>\<open>walk_seq\<close> fills a record of three
  offsets while it walks over the members of the members, first come first served. Each offset it
  returns is the sum of the member offsets along a path to a pointer, or to a member named like a
  capacity or a length.
\<close>

section \<open>Paths\<close>

datatype word_kind = Ptr_Word | Cap_Word | Len_Word

definition kind_name :: "word_kind \<Rightarrow> bytes \<Rightarrow> bool" where
  "kind_name k nm \<longleftrightarrow> (case k of
      Ptr_Word \<Rightarrow> False
    | Cap_Word \<Rightarrow> nm = ascii ''cap'' \<or> nm = ascii ''capacity''
    | Len_Word \<Rightarrow> nm = ascii ''len'' \<or> nm = ascii ''length'')"

text \<open>The entry that a reference leads to, as the walk reaches it.\<close>

definition site :: "nat \<Rightarrow> dstore \<Rightarrow> nat \<Rightarrow> nat \<Rightarrow> (nat \<times> nat) res" where
  "site n st ui off = bindR (idx st ui) (\<lambda>u. bindR (strip n u off) (def_site n st ui))"

text \<open>
  \<open>word_at ui off base k a\<close>: a value of the type at \<open>(ui, off)\<close> that starts at \<open>base\<close> has a word of kind
  \<open>k\<close> at \<open>a\<close>; \<open>member_word\<close> is the same for one member.
\<close>

inductive word_at :: "nat \<Rightarrow> dstore \<Rightarrow> nat \<Rightarrow> nat \<Rightarrow> nat \<Rightarrow> word_kind \<Rightarrow> nat \<Rightarrow> bool"
  and member_word :: "nat \<Rightarrow> dstore \<Rightarrow> nat \<Rightarrow> nat \<Rightarrow> nat \<Rightarrow> word_kind \<Rightarrow> nat \<Rightarrow> bool"
  for n st where
  w_pointer: "site n st ui off = Inr (ui', off') \<Longrightarrow> idx st ui' = Inr u \<Longrightarrow> tag u off' = Inr DW_TAG_pointer_type \<Longrightarrow>
    word_at n st ui off base Ptr_Word base"
| w_member: "site n st ui off = Inr (ui', off') \<Longrightarrow> idx st ui' = Inr u \<Longrightarrow> tag u off' = Inr t \<Longrightarrow> is_su t \<Longrightarrow>
    child_offsets u off' = Inr ms \<Longrightarrow> m \<in> set ms \<Longrightarrow> member_word n st ui' m base k a \<Longrightarrow> word_at n st ui off base k a"
| m_named: "idx st ui = Inr u \<Longrightarrow> tag u m = Inr DW_TAG_member \<Longrightarrow> die_name n u m = Inr (Some nm) \<Longrightarrow> kind_name k nm \<Longrightarrow>
    a = base + udata_or u m DW_AT_data_member_location 0 \<Longrightarrow> member_word n st ui m base k a"
| m_inner: "idx st ui = Inr u \<Longrightarrow> tag u m = Inr DW_TAG_member \<Longrightarrow> type_ref n u m = Inr (Some t) \<Longrightarrow>
    word_at n st ui t (base + udata_or u m DW_AT_data_member_location 0) k a \<Longrightarrow> member_word n st ui m base k a"

section \<open>The walk\<close>

fun word_off :: "word_kind \<Rightarrow> seq_layout \<Rightarrow> nat" where
  "word_off Ptr_Word s = ptr_off s"
| "word_off Cap_Word s = cap_off s"
| "word_off Len_Word s = len_off s"

text \<open>An offset that the walk has changed was open before and satisfies \<open>P\<close>.\<close>

definition fills :: "(word_kind \<Rightarrow> nat \<Rightarrow> bool) \<Rightarrow> seq_layout \<Rightarrow> seq_layout \<Rightarrow> bool" where
  "fills P s s' \<longleftrightarrow> (\<forall>k. word_off k s' = word_off k s \<or> word_off k s = USIZE_MAX \<and> P k (word_off k s'))"

lemma fills_refl [simp]: "fills P s s"
  by (simp add: fills_def)

lemma fills_trans: "fills P s s' \<Longrightarrow> fills P s' s'' \<Longrightarrow> fills P s s''"
  unfolding fills_def by metis

lemma fills_mono: "fills P s s' \<Longrightarrow> (\<And>k a. P k a \<Longrightarrow> Q k a) \<Longrightarrow> fills Q s s'"
  unfolding fills_def by blast

lemma all_kinds: "(\<forall>k. Q k) \<longleftrightarrow> Q Ptr_Word \<and> Q Cap_Word \<and> Q Len_Word"
  by (metis word_kind.exhaust)

lemma fills_iff:
  "fills P s s' \<longleftrightarrow> (ptr_off s' = ptr_off s \<or> ptr_off s = USIZE_MAX \<and> P Ptr_Word (ptr_off s'))
    \<and> (cap_off s' = cap_off s \<or> cap_off s = USIZE_MAX \<and> P Cap_Word (cap_off s'))
    \<and> (len_off s' = len_off s \<or> len_off s = USIZE_MAX \<and> P Len_Word (len_off s'))"
  unfolding fills_def all_kinds by simp

lemma fills_set:
  "ptr_off s = USIZE_MAX \<Longrightarrow> P Ptr_Word a \<Longrightarrow> fills P s (s\<lparr>ptr_off := a\<rparr>)"
  "cap_off s = USIZE_MAX \<Longrightarrow> P Cap_Word a \<Longrightarrow> fills P s (s\<lparr>cap_off := a\<rparr>)"
  "len_off s = USIZE_MAX \<Longrightarrow> P Len_Word a \<Longrightarrow> fills P s (s\<lparr>len_off := a\<rparr>)"
  by (simp_all add: fills_iff)

lemma walk_fills:
  "walk_seq n st ui off base s depth = Inr s' \<Longrightarrow> fills (word_at n st ui off base) s s'"
  "walk_members n st ui ms base s depth = Inr s' \<Longrightarrow> fills (\<lambda>k a. \<exists>m \<in> set ms. member_word n st ui m base k a) s s'"
proof (induction n st ui off base s depth and n st ui ms base s depth arbitrary: s' and s' rule: walk_seq_walk_members.induct)
  case (1 n st ui off base s depth)
  show ?case
  proof (cases "16 < depth")
    case False
    with "1.prems" obtain u off1 ui' off' u' t where r: "idx st ui = Inr u" "strip n u off = Inr off1"
      "def_site n st ui off1 = Inr (ui', off')" "idx st ui' = Inr u'" "tag u' off' = Inr t"
      by (subst (asm) walk_seq.simps) (auto simp: bindR_eq_Inr)
    then have site: "site n st ui off = Inr (ui', off')" by (simp add: site_def)
    show ?thesis
    proof (cases "t = DW_TAG_pointer_type")
      case True
      then have "s' = (if ptr_off s = USIZE_MAX then s\<lparr>ptr_off := base\<rparr> else s)"
        using "1.prems" False r by (subst (asm) walk_seq.simps) simp
      moreover have "word_at n st ui off base Ptr_Word base" using w_pointer site r(4,5) True by blast
      ultimately show ?thesis by (simp add: fills_set(1))
    next
      case no_ptr: False
      show ?thesis
      proof (cases "is_su t")
        case True
        then obtain ms where ms: "child_offsets u' off' = Inr ms" "walk_members n st ui' ms base s depth = Inr s'"
          using "1.prems" False r no_ptr by (subst (asm) walk_seq.simps) (auto simp: bindR_eq_Inr)
        have "fills (\<lambda>k a. \<exists>m \<in> set ms. member_word n st ui' m base k a) s s'"
          by (rule "1.IH" [OF False r(1-3) _ r(4,5) no_ptr True ms]) simp
        then show ?thesis by (rule fills_mono) (use w_member [OF site r(4,5) True ms(1)] in blast)
      next
        case no_su: False
        then show ?thesis using "1.prems" False r no_ptr by (subst (asm) walk_seq.simps) simp
      qed
    qed
  next
    case True
    then show ?thesis using "1.prems" by (subst (asm) walk_seq.simps) simp
  qed
next
  case (2 n st ui base s depth)
  then show ?case by simp
next
  case (3 n st ui m ms base s depth)
  let ?P = "\<lambda>k a. \<exists>m' \<in> set (m # ms). member_word n st ui m' base k a"
  have tail: "fills ?P s1 s'" if "fills (\<lambda>k a. \<exists>m' \<in> set ms. member_word n st ui m' base k a) s1 s'" for s1
    by (rule fills_mono [OF that]) auto
  show ?case
  proof (cases "16 < depth")
    case False
    with "3.prems" obtain u t where r: "idx st ui = Inr u" "tag u m = Inr t" by (auto simp: bindR_eq_Inr)
    show ?thesis
    proof (cases "t = DW_TAG_member")
      case mem: True
      let ?loc = "udata_or u m DW_AT_data_member_location 0"
      obtain abs nm where a: "add_usize base ?loc = Inr abs" "die_name n u m = Inr nm"
        using "3.prems" False r mem by (auto simp: bindR_eq_Inr)
      then have abs: "abs = base + ?loc" by (simp add: add_usize_def split: if_splits)
      have named: "?P k abs" if "nm = Some x" "kind_name k x" for k x
        using m_named [OF r(1) _ _ that(2) abs] r(2) mem a(2) that(1) by auto
      let ?cap = "(nm = Some (ascii ''cap'') \<or> nm = Some (ascii ''capacity'')) \<and> cap_off s = USIZE_MAX"
      let ?len = "(nm = Some (ascii ''len'') \<or> nm = Some (ascii ''length'')) \<and> len_off s = USIZE_MAX"
      consider "?cap" | "\<not> ?cap" "?len" | "\<not> ?cap" "\<not> ?len" by blast
      then show ?thesis
      proof cases
        case 1
        then have "walk_members n st ui ms base (s\<lparr>cap_off := abs\<rparr>) depth = Inr s'"
          using "3.prems" False r mem a by (simp split: if_splits)
        then have "fills ?P (s\<lparr>cap_off := abs\<rparr>) s'" using "3.IH"(2) [OF False r _ a 1] mem tail by blast
        moreover have "fills ?P s (s\<lparr>cap_off := abs\<rparr>)"
          using 1 named [of _ Cap_Word] by (intro fills_set(2)) (auto simp: kind_name_def)
        ultimately show ?thesis using fills_trans by blast
      next
        case 2
        then have "walk_members n st ui ms base (s\<lparr>len_off := abs\<rparr>) depth = Inr s'"
          using "3.prems" False r mem a by (simp split: if_splits)
        then have "fills ?P (s\<lparr>len_off := abs\<rparr>) s'" using "3.IH"(3) [OF False r _ a 2] mem tail by blast
        moreover have "fills ?P s (s\<lparr>len_off := abs\<rparr>)"
          using 2 named [of _ Len_Word] by (intro fills_set(3)) (auto simp: kind_name_def)
        ultimately show ?thesis using fills_trans by blast
      next
        case 3
        then obtain mt s1 where d: "type_ref n u m = Inr mt"
          "(case mt of Some mt \<Rightarrow> walk_seq n st ui mt abs s (depth + 1) | None \<Rightarrow> Inr s) = Inr s1"
          "walk_members n st ui ms base s1 depth = Inr s'"
          using "3.prems" False r mem a by (auto simp: bindR_eq_Inr)
        have "fills ?P s s1"
        proof (cases mt)
          case (Some t')
          then have "fills (word_at n st ui t' abs) s s1"
            using "3.IH"(4) [OF False r _ a 3 d(1) Some] d(2) mem by simp
          then show ?thesis
            by (rule fills_mono) (use m_inner [OF r(1) _ d(1) [unfolded Some]] r(2) mem abs in auto)
        qed (use d(2) in simp)
        moreover have "fills ?P s1 s'" using "3.IH"(5) [OF False r _ a 3 d(1,2)] d(3) mem tail by blast
        ultimately show ?thesis using fills_trans by blast
      qed
    next
      case no: False
      then have "walk_members n st ui ms base s depth = Inr s'" using "3.prems" False r by simp
      then show ?thesis using "3.IH"(1) [OF False r no] tail by blast
    qed
  qed (use "3.prems" in simp)
qed

section \<open>The property\<close>

text \<open>C20: the words of a sequence are where the debug information says: each of the three offsets that \<^verbatim>\<open>seq_layout\<close> returns is the sum of the member offsets along a path of nested members, and the path ends at a pointer for the buffer, and at a member named \<^verbatim>\<open>cap\<close> or \<^verbatim>\<open>capacity\<close>, \<^verbatim>\<open>len\<close> or \<^verbatim>\<open>length\<close> for the other two; an offset that no path leads to is never made up.\<close>

theorem seq_layout_paths:
  assumes "seq_layout n st ui off = Inr q"
  shows "word_at n st ui off 0 Ptr_Word (ptr_off q) \<and> word_at n st ui off 0 Cap_Word (cap_off q)
    \<and> word_at n st ui off 0 Len_Word (len_off q)"
proof -
  from assms have w: "walk_seq n st ui off 0 \<lparr>ptr_off = USIZE_MAX, cap_off = USIZE_MAX, len_off = USIZE_MAX\<rparr> 0 = Inr q"
    and "ptr_off q \<noteq> USIZE_MAX" "cap_off q \<noteq> USIZE_MAX" "len_off q \<noteq> USIZE_MAX"
    by (auto simp: seq_layout_def bindR_eq_Inr split: if_splits)
  with walk_fills(1) [OF w] show ?thesis by (simp add: fills_iff)
qed

text \<open>A string of three words: length, capacity and pointer, the last two inside its buffer.\<close>

definition string_unit :: dunit where
  "string_unit =
     Die 1 (DW_TAG_other 17) [] []
       [Die 2 DW_TAG_structure_type [(DW_AT_name, StrVal (ascii ''RawVec''))] []
          [Die 3 DW_TAG_member [(DW_AT_name, StrVal (ascii ''cap'')), (DW_AT_type, UnitRef 8), (DW_AT_data_member_location, Udata 0)] [] [],
           Die 4 DW_TAG_member [(DW_AT_name, StrVal (ascii ''ptr'')), (DW_AT_type, UnitRef 7), (DW_AT_data_member_location, Udata 8)] [] []],
        Die 5 DW_TAG_structure_type [(DW_AT_name, StrVal (ascii ''String''))] []
          [Die 6 DW_TAG_member [(DW_AT_name, StrVal (ascii ''buf'')), (DW_AT_type, UnitRef 2), (DW_AT_data_member_location, Udata 8)] [] [],
           Die 9 DW_TAG_member [(DW_AT_name, StrVal (ascii ''len'')), (DW_AT_type, UnitRef 8), (DW_AT_data_member_location, Udata 0)] [] []],
        Die 7 DW_TAG_pointer_type [] [] [],
        Die 8 DW_TAG_base_type [(DW_AT_name, StrVal (ascii ''usize''))] [] []]"

theorem seq_layout_paths_witness:
  "word_at 3 [string_unit] 0 5 0 Ptr_Word 16 \<and> word_at 3 [string_unit] 0 5 0 Cap_Word 8 \<and> word_at 3 [string_unit] 0 5 0 Len_Word 0"
proof -
  have "seq_layout 3 [string_unit] 0 5 = Inr \<lparr>ptr_off = 16, cap_off = 8, len_off = 0\<rparr>" by code_simp
  from seq_layout_paths [OF this] show ?thesis by simp
qed

end
