(* ===== verification/Map_Props.thy ===== *)
theory Map_Props
  imports Jit_Props
begin

text \<open>
  A map parser on its own: what \<open>binds\<close> and \<open>placed\<close> say of a map, spelled out.
\<close>

lemma placed_map_state:
  assumes "placed C S (TMap k ks t vs na ins) a (VMap (\<lambda>m xs. rep m xs f)) h h'"
  shows "map_state rep h {a..<a + 24} a f h'"
proof -
  obtain B where B: "extends h h' {a..<a + 24} B"
    "brk h' \<le> 2 ^ 64 \<longrightarrow> holds C (mem h') (TMap k ks t vs na ins) a (VMap (\<lambda>m xs. rep m xs f)) B"
    using assms by (auto simp: dst_bytes_def elim: placedE)
  have "rep (mem h') (load (mem h') a 24) f B" if "brk h' \<le> 2 ^ 64"
    using B(2) [rule_format, OF that] by (auto elim: holds.cases)
  then show ?thesis using B(1) unfolding map_state_def by blast
qed

text \<open>C3: a compiled parser for a \<^verbatim>\<open>BTreeMap<String, V>\<close> is correct: given a standard library whose map
  keeps its documented contract, compilation ends, and the compiled function, run on any text of a
  JSON object whose values each denote a \<^verbatim>\<open>V\<close> (escapes, whitespace and trailing commas anywhere),
  ends and leaves in the 24 bytes of the destination a map that holds exactly the members of the
  object, a later one with the same key replacing an earlier one. It changes no other existing
  memory, and every block allocated on the way belongs to the map: the replaced values are dropped,
  and the two slots on the stack own nothing.\<close>

theorem jit_map_binds:
  assumes "str_key C kt" and "\<forall>k \<in> fst ` set ms. utf8_valid k \<and> length k < 2 ^ 63" and "binds_elems C F t (map snd ms) us"
    and "map_lib C F kt ks t vs na ins rep" and "cells_ok C S" and "lay_ok S (TMap kt ks t vs na ins)"
    and "jit_ty N (TMap kt ks t vs na ins)" and "jit_cells N C" and "ops_ok F" and "closed C (TMap kt ks t vs na ins)"
    and "value_text (Object ms) tx" and "list_all ws_byte w" and "list_all ws_byte w'"
    and "N \<le> length slack" and "length (w @ tx @ w' @ slack) < 2 ^ 31"
    and "heap_ok h" and "{a..<a + 24} \<subseteq> {..<brk h}"
  shows "\<exists>p h'. returns (\<lambda>n. compile_parser n C F (TMap kt ks t vs na ins)) p
    \<and> returns (\<lambda>n. p n a (w @ tx @ w' @ slack) (length (w @ tx @ w')) h) h'
    \<and> map_state rep h {a..<a + 24} a (map_of (rev (zip (map fst ms) us))) h'"
proof -
  let ?t = "TMap kt ks t vs na ins"
  have dst: "inside S ?t a h" using assms(17) by (simp add: inside_def dst_bytes_def)
  have b: "binds C F ?t (Object ms) (VMap (\<lambda>m xs. rep m xs (map_of (rev (zip (map fst ms) us)))))"
    by (rule b_map [OF assms(1-4)])
  show ?thesis
    using compile_returns [OF assms(10,7,8)] placed_map_state
      compiled_reads [OF b assms(5-9,11-16) dst] by blast
qed

theorem jit_map_binds_witness:
  "\<exists>p h'. returns (\<lambda>n. compile_parser n Map.empty list_ops
        (TMap (TStr \<lparr>ptr_off = 0, cap_off = 8, len_off = 16\<rparr>) 24 (TU 8) 8 16 32)) p
    \<and> returns (\<lambda>n. p n 1024 ([] @ print counts_json @ [SPACE] @ []) (length ([] @ print counts_json @ [SPACE])) stack_heap) h'
    \<and> map_state (list_rep Map.empty (TStr \<lparr>ptr_off = 0, cap_off = 8, len_off = 16\<rparr>) (TU 8)) stack_heap {1024..<1024 + 24} 1024
        (map_of (rev (zip (map fst [(ascii ''a'', Num [0x37]), (ascii ''b'', Num [0x39]), (ascii ''a'', Num [0x38])])
          [VU 7, VU 9, VU 8]))) h'"
proof (rule jit_map_binds [where N = 0 and S = "\<lambda>_. (0, [])", OF str_key_str counts_keys counts_binds list_ops_lib _ _ _ _ list_ops_ok,
    folded counts_json_def])
  show "value_text counts_json (print counts_json)"
    by (rule value_text_print)
      (simp add: counts_json_def num_tok_def num_char_def is_digit_def ascii_def raw_char_def utf8_head_def)
  show "length ([] @ print counts_json @ [SPACE] @ []) < 2 ^ 31" by (simp add: counts_json_def ascii_def)
  show "closed Map.empty (TMap (TStr \<lparr>ptr_off = 0, cap_off = 8, len_off = 16\<rparr>) 24 (TU 8) 8 16 32)"
    by (simp add: closed_def ty_cells.simps)
  show "heap_ok stack_heap" "{1024..<1024 + 24} \<subseteq> {..<brk stack_heap}"
    by (rule stack_heap_ok) (auto simp: stack_heap_def)
qed (simp_all add: ws_byte_def cells_ok_def jit_cells_def seq_ok_def words_apart_def seq_span_def int_width_def)

end
