(* ===== verification/Spec2Isabelle.thy ===== *)
theory Spec2Isabelle
  imports Pipeline Jit_Edges Jit_Safe Jit_Module Locals_Props Classify_Props Startup Seq_Paths Map_Props
begin

text \<open>
  A model of bilbo and its properties. The program fills a local variable of its caller from JSON,
  without any declaration of the type: \<^verbatim>\<open>from_json(s, ptr)\<close> captures the registers of its caller, finds
  in the debug information of its own executable which local \<open>ptr\<close> aliases, turns the type of that
  local into a layout, and binds the text to the bytes of the layout, either with a parser and an
  interpreter or with a parser compiled for the type.

  \<^bold>\<open>The parts, in the order in which a call goes through them.\<close>

  \<^item> \<open>Startup\<close>: \<^verbatim>\<open>store\<close> in \<^verbatim>\<open>crates/bilbo/src/dwarf.rs\<close> and \<^verbatim>\<open>unwinder\<close>, \<^verbatim>\<open>dsym_path\<close> in
    \<^verbatim>\<open>crates/bilbo/src/platform/{linux,darwin}.rs\<close>: \<open>load_section\<close>, \<open>load_units\<close>, \<open>store_init\<close>,
    \<open>unwinder_linux\<close>, \<open>unwinder_darwin\<close>, built once per process (\<open>get_or_init\<close>).
  \<^item> \<open>Resolve\<close>: \<^verbatim>\<open>resolved\<close> in \<^verbatim>\<open>crates/bilbo/src/resolve.rs\<close> with \<^verbatim>\<open>caller_pc\<close>, \<^verbatim>\<open>unwind\<close>,
    \<^verbatim>\<open>load_bias\<close> and \<^verbatim>\<open>main_image_slide\<close> of the platforms. The statics \<^verbatim>\<open>L1\<close> (call site to type) and \<^verbatim>\<open>L2\<close>
    (type to layout) with their mutexes are the record \<open>shared\<close>; what a thread does between two
    operations on the mutexes is \<open>step_phase\<close>; a run is any interleaving of such steps.
  \<^item> \<open>Die\<close>, \<open>Locals\<close>: the entries of the debug information (what the crate gimli reads is a tree of
    entries with attributes), \<^verbatim>\<open>subprogram_at\<close>, and \<^verbatim>\<open>local_at_address\<close> with the struct \<^verbatim>\<open>Hunt\<close>:
    \<open>hunt_env\<close> is what it borrows, \<open>hunt\<close> what the walk changes.
  \<^item> \<open>Classify\<close>: \<^verbatim>\<open>classify\<close> and what it calls, \<^verbatim>\<open>def_index\<close>, \<^verbatim>\<open>def_site\<close>, \<^verbatim>\<open>structure\<close>, \<^verbatim>\<open>parse_option\<close>,
    \<^verbatim>\<open>seq_layout\<close>, \<^verbatim>\<open>resolve_tramp\<close>. The thread-local \<^verbatim>\<open>MEMO\<close> and the cells of recursive types are the
    record \<open>cstate\<close>; \<open>enter\<close> and \<open>leave\<close> are the two ends of \<^verbatim>\<open>MemoGuard\<close>.
  \<^item> \<open>Plan\<close>: the layout, \<^verbatim>\<open>crates/bilbo/src/plan.rs\<close>. A \<^verbatim>\<open>RecCell\<close> is a number into a \<open>cell_store\<close>.
  \<^item> \<open>Json\<close> and \<open>Interp\<close>: the parser \<^verbatim>\<open>crates/bilbo-json/src/json.rs\<close> and the interpreter \<^verbatim>\<open>interp.rs\<close>.
  \<^item> \<open>Jit\<close>, \<open>Jit_Module\<close>, \<open>Jitdump\<close>: \<^verbatim>\<open>jit.rs\<close> and \<^verbatim>\<open>jitdump.rs\<close>. \<open>Jit\<close> gives each emitting function the
    meaning of the instructions that it emits, \<open>parse\<close> for a layout, and the runtime functions; the module
    that the parsers of a thread share, with the names it gives out, is \<open>Jit_Module\<close>.
  \<^item> \<open>Tramp\<close>: \<^verbatim>\<open>map_new_at\<close> and \<^verbatim>\<open>map_insert\<close> in \<^verbatim>\<open>tramp.rs\<close>, through which a compiled parser builds a
    \<^verbatim>\<open>BTreeMap\<close>. The map itself belongs to the standard library: \<open>btree\<close> is its interface, a parameter.
  \<^item> \<open>Pipeline\<close>: \<^verbatim>\<open>from_json\<close> and \<^verbatim>\<open>from_json_jit_parse\<close> in \<^verbatim>\<open>crates/bilbo-json/src/lib.rs\<close>.

  Both backends write into \<open>Heap\<close> (what they owe to it is in \<open>Effects\<close>): bytes, the frontier of the allocator, and the blocks that were
  handed out with their layouts. Faults are values (\<open>Prelude\<close>): a panic with its message, undefined
  behaviour, and want of fuel. Arithmetic that panics in a build with overflow checks panics here;
  arithmetic that wraps (\<^verbatim>\<open>wrapping_add\<close>, emitted instructions) is on words.

  \<^bold>\<open>What is shown.\<close>

  \<^item> Specifications that do not mention the code: \<open>Json_Text\<close> (a grammar of texts), \<open>Layout\<close> (\<open>holds\<close>: the
    bytes at an address represent a value), \<open>Bind\<close> (\<open>binds\<close>: the value that a JSON value denotes in a
    layout; \<open>placed\<close>: what a backend owes its caller), \<open>Shapes\<close> (a checker of the debug information).
  \<^item> \<open>Json_Props\<close>, \<open>Interp_Props\<close>, \<open>Jit_Props\<close>: the parser and both backends refine these specifications, for
    recursive layouts too, and agree; \<open>Jit_Scan\<close>, \<open>Jit_Escape\<close>, \<open>Jit_Skip\<close>, \<open>Jit_Mem\<close>, \<open>Jit_Read\<close>, \<open>Jit_Seq\<close>,
    \<open>Jit_Vec\<close>, \<open>Jit_Struct\<close>, \<open>Jit_Map\<close> carry the proof, one kind of emitted code each, and \<open>Placed\<close> the steps that
    the backends have in common. \<open>Jit_Safe\<close>: what a compiled parser can do to the memory on input that is
    not JSON (\<open>Within\<close> is the notion of a confined run, for both backends). \<open>Jit_Edges\<close>: what the pieces promise alone, and
    the inputs on which the backends differ or a check is missing.
  \<^item> \<open>Tramp\<close> states what the standard library documents of its map (\<open>btree_ok\<close>): what is a map depends on its
    bytes and its blocks only, an insertion returns the value that it replaces, a drop frees what the
    value owns. \<open>binds\<close> refers to a map only through a representation that satisfies this; \<open>List_Map\<close>
    shows that one exists. \<open>Map_Props\<close>: a map parser on its own.
  \<^item> \<open>Classify_Ends\<close>, \<open>Classify_Cells\<close>, \<open>Shapes_Props\<close>, \<open>Shapes_Sound\<close>: \<open>classify\<close> ends, ties its cells, and on
    debug information that the checker accepts it does not panic and returns well-formed layouts. Each
    of these is a locale on the recursive call, interpreted on \<open>classify\<close> itself, so that the kinds of
    types are treated once. \<open>Classify_Props\<close>, \<open>Seq_Paths\<close>: the index of definitions, stubs, options, and
    the words of a sequence.
  \<^item> \<open>Locals_Props\<close>: the walk over the locals finds what a search over the list of locals finds.
  \<^item> \<open>Resolve_Props\<close>, \<open>Resolve_Shapes\<close>: invariants of the caches under all interleavings, progress, and what
    a poisoned mutex does. \<open>Pipeline\<close> puts everything together, from the debug information to the bytes
    at the destination.

  \<^bold>\<open>Fuel.\<close> Loops and recursions that need not end in the source take fuel, one unit per call or turn:
  the JSON parser, the interpreter and the compiled parsers (a back-edge leads to a layout that is not
  smaller), the walk over cells, chains of references between entries, and \<open>classify\<close>. Statements of
  success say \<open>returns\<close>: some fuel is enough, and more gives the same. \<open>Classify_Ends\<close> gives the bound for
  \<open>classify\<close>: every nested call either finds its type in the memo or adds one of finitely many entries.
  \<open>Fuel_Stable\<close> shows that its readers give the same with more fuel. The emitted loops are bounded by the input.
  The limits in the source are kept: 32 nested blocks of locals, 16 levels of members.

  \<^bold>\<open>Not modelled.\<close> The nodes of a \<^verbatim>\<open>BTreeMap\<close>. Maps are bound by the compiled parsers only: the interpreter
  panics on them, so its correctness is for types without maps, and so is what \<open>Jit_Safe\<close> says of input
  that is not JSON. The capture of the
  registers (inline assembly), the mapping of files, and what the crates object, gimli, framehop and
  cranelift do, which are data or arguments; of cranelift only the promises that \<open>lawful\<close> states are used.
  Release builds, in which arithmetic wraps where it panics here. The log, and what only the log
  reads: the name of the subprogram and the list of locals seen. The demo, the benches and the tests.
\<close>

end
